(* ===== verification/Prelude.thy ===== *)
theory Prelude
  imports Main "HOL-Library.Word" "HOL-Library.Monad_Syntax"
begin

text \<open>
  Shared vocabulary of the development: machine-integer synonyms and the checked
  arithmetic of Rust, optional links, the intrusive singly linked lists the kernel
  threads through its objects, and counting over finite handle types.

  \<^item> \<open>lseg nx h xs q\<close>: following \<open>nx\<close> from the optional handle \<open>h\<close> visits exactly the
    list \<open>xs\<close> and arrives at \<open>q\<close>; \<open>chain\<close> is the null-terminated case. The ready queue,
    the notification wait queue, the armed-timer list and the sibling list of the
    derivation tree are all instances.
  \<^item> \<open>find_link\<close>: the search loop \<open>prev = cur; cur = next(cur)\<close> the kernel uses to unlink
    an element at an arbitrary position. It is a partial function: on a cyclic list
    that misses the element it does not return, and its value is \<open>None\<close>.
  \<^item> \<open>fcount P\<close>: how many elements of a finite type satisfy \<open>P\<close>, with the
    update laws the reference-count census uses.
\<close>

unbundle bit_operations_syntax

type_synonym u8 = "8 word"
type_synonym u16 = "16 word"
type_synonym u32 = "32 word"
type_synonym u64 = "64 word"

named_theorems store_defs \<open>definitions of the setters of the object store\<close>
named_theorems frame_simps \<open>what an operation leaves alone\<close>

section \<open>Checked machine arithmetic\<close>

definition checked_add :: "'a::len word \<Rightarrow> 'a word \<Rightarrow> 'a word option" where
  "checked_add a b = (if unat a + unat b < 2 ^ LENGTH('a) then Some (a + b) else None)"

definition checked_mul :: "'a::len word \<Rightarrow> 'a word \<Rightarrow> 'a word option" where
  "checked_mul a b = (if unat a * unat b < 2 ^ LENGTH('a) then Some (a * b) else None)"

definition saturating_add :: "'a::len word \<Rightarrow> 'a word \<Rightarrow> 'a word" where
  "saturating_add a b = (if unat a + unat b < 2 ^ LENGTH('a) then a + b else - 1)"

definition saturating_mul :: "'a::len word \<Rightarrow> 'a word \<Rightarrow> 'a word" where
  "saturating_mul a b = (if unat a * unat b < 2 ^ LENGTH('a) then a * b else - 1)"

definition leading_zeros :: "'a::len word \<Rightarrow> nat" where
  "leading_zeros w = length (takeWhile (\<lambda>i. \<not> bit w i) (rev [0..<LENGTH('a)]))"

section \<open>Lists of links\<close>

fun head_opt :: "'a list \<Rightarrow> 'a option" where
  "head_opt [] = None"
| "head_opt (x # xs) = Some x"

fun last_opt :: "'a list \<Rightarrow> 'a option" where
  "last_opt [] = None"
| "last_opt (x # xs) = Some (last (x # xs))"

primrec lseg :: "('a \<Rightarrow> 'a option) \<Rightarrow> 'a option \<Rightarrow> 'a list \<Rightarrow> 'a option \<Rightarrow> bool" where
  "lseg nx h [] q = (h = q)"
| "lseg nx h (x # xs) q = (h = Some x \<and> lseg nx (nx x) xs q)"

abbreviation chain :: "('a \<Rightarrow> 'a option) \<Rightarrow> 'a option \<Rightarrow> 'a list \<Rightarrow> bool" where
  "chain nx h xs \<equiv> lseg nx h xs None"

partial_function (option) find_link ::
    "('a \<Rightarrow> 'a option) \<Rightarrow> 'a \<Rightarrow> 'a option \<Rightarrow> 'a option \<Rightarrow> 'a option option option" where
  "find_link nx t prev cur =
     (case cur of
        None \<Rightarrow> Some None
      | Some c \<Rightarrow> if c = t then Some (Some prev) else find_link nx t cur (nx c))"

text \<open>The elements reached from an optional handle, when there are finitely many.\<close>

partial_function (option) collect :: "('a \<Rightarrow> 'a option) \<Rightarrow> 'a option \<Rightarrow> 'a list option" where
  "collect nx h =
     (case h of
        None \<Rightarrow> Some []
      | Some x \<Rightarrow> do { xs \<leftarrow> collect nx (nx x); Some (x # xs) })"

text \<open>\<open>if let Some(k) = o\<close> followed by an update of the entry at \<open>k\<close>.\<close>

definition upd_opt :: "'k option \<Rightarrow> ('v \<Rightarrow> 'v) \<Rightarrow> ('k \<Rightarrow> 'v) \<Rightarrow> 'k \<Rightarrow> 'v" where
  "upd_opt o' f m = (case o' of None \<Rightarrow> m | Some k \<Rightarrow> m(k := f (m k)))"

definition fcount :: "('a::finite \<Rightarrow> bool) \<Rightarrow> nat" where
  "fcount P = card {x. P x}"

lemma upd_opt_apply: "upd_opt o' f m j = (if o' = Some j then f (m j) else m j)"
  by (auto simp: upd_opt_def split: option.split)

section \<open>Facts on checked arithmetic\<close>

lemma checked_add_Some:
  "checked_add a b = Some c \<longleftrightarrow> unat a + unat b < 2 ^ LENGTH('a) \<and> c = a + b"
  for a :: "'a::len word"
  by (auto simp: checked_add_def)

lemma unat_checked_add:
  "checked_add a b = Some c \<Longrightarrow> unat c = unat a + unat b"
  for a :: "'a::len word"
  by (auto simp: checked_add_Some unat_word_ariths)

lemma unat_checked_mul:
  "checked_mul a b = Some c \<Longrightarrow> unat c = unat a * unat b"
  for a :: "'a::len word"
  by (auto simp: checked_mul_def unat_word_ariths split: if_splits)

lemma unat_of_nat_small: "n < 2 ^ LENGTH('a) \<Longrightarrow> unat (of_nat n :: 'a::len word) = n"
  by (simp add: unat_of_nat)

lemma unat_pred_word: "w \<noteq> 0 \<Longrightarrow> unat (w - 1) = unat w - 1" for w :: "'a::len word"
  by (simp add: unat_minus_one)

lemma unat_succ_word: "w \<noteq> - 1 \<Longrightarrow> unat (w + 1) = unat w + 1" for w :: "'a::len word"
  by (metis Suc_eq_plus1 add.commute add_eq_0_iff unatSuc)

lemma leading_zeros_highest:
  fixes w :: "'a::len word"
  assumes "w \<noteq> 0"
  shows "leading_zeros w < LENGTH('a)"
    and "bit w (LENGTH('a) - 1 - leading_zeros w)"
    and "\<And>i. LENGTH('a) - 1 - leading_zeros w < i \<Longrightarrow> \<not> bit w i"
proof -
  let ?L = "rev [0..<LENGTH('a)]" and ?P = "\<lambda>i. \<not> bit w i"
  let ?k = "length (takeWhile ?P ?L)"
  obtain j where j: "bit w j"
    using assms by (auto simp: bit_eq_iff)
  then have "j < LENGTH('a)" by (rule bit_imp_le_length)
  with j have "\<not> (\<forall>i \<in> set ?L. ?P i)" by auto
  then have "takeWhile ?P ?L \<noteq> ?L" by (simp add: takeWhile_eq_all_conv)
  then have k: "?k < length ?L"
    by (metis length_takeWhile_le nat_less_le takeWhile_eq_take take_all)
  have nth: "?L ! i = LENGTH('a) - 1 - i" if "i < LENGTH('a)" for i
    using that by (simp add: rev_nth)
  show "leading_zeros w < LENGTH('a)" using k by (simp add: leading_zeros_def)
  have "\<not> ?P (?L ! ?k)" using nth_length_takeWhile [of ?P ?L] k by simp
  then show "bit w (LENGTH('a) - 1 - leading_zeros w)"
    using k by (simp add: nth leading_zeros_def)
  fix i assume i: "LENGTH('a) - 1 - leading_zeros w < i"
  show "\<not> bit w i"
  proof (cases "i < LENGTH('a)")
    case True
    let ?m = "LENGTH('a) - 1 - i"
    have "?m < ?k" using i True k by (simp add: leading_zeros_def)
    then have "?P (takeWhile ?P ?L ! ?m)" using set_takeWhileD nth_mem by metis
    moreover have "takeWhile ?P ?L ! ?m = ?L ! ?m" using \<open>?m < ?k\<close> by (rule takeWhile_nth)
    ultimately show ?thesis using True by (simp add: nth)
  next
    case False
    then show ?thesis by (meson bit_imp_le_length not_le)
  qed
qed

section \<open>Facts on linked lists\<close>

lemma lseg_None [simp]: "lseg nx None xs q \<longleftrightarrow> xs = [] \<and> q = None"
  by (cases xs) auto

lemma lseg_append: "lseg nx h (xs @ ys) q \<longleftrightarrow> (\<exists>m. lseg nx h xs m \<and> lseg nx m ys q)"
  by (induction xs arbitrary: h) auto

lemma lseg_cong: "(\<And>x. x \<in> set xs \<Longrightarrow> nx x = nx' x) \<Longrightarrow> lseg nx h xs q = lseg nx' h xs q"
  by (induction xs arbitrary: h) auto

lemma lseg_upd [simp]: "u \<notin> set xs \<Longrightarrow> lseg (nx(u := v)) h xs q = lseg nx h xs q"
  by (rule lseg_cong) auto

lemma chain_head: "chain nx h xs \<Longrightarrow> h = head_opt xs"
  by (cases xs) auto

lemma chain_unique: "chain nx h xs \<Longrightarrow> chain nx h ys \<Longrightarrow> xs = ys"
proof (induction xs arbitrary: h ys)
  case Nil
  then show ?case by (cases ys) auto
next
  case (Cons x xs)
  then show ?case by (cases ys) auto
qed

lemma chain_suffix: "chain nx h (xs @ x # ys) \<Longrightarrow> chain nx (Some x) (x # ys)"
  by (auto simp: lseg_append)

lemma chain_distinct: "chain nx h xs \<Longrightarrow> distinct xs"
proof (induction xs arbitrary: h)
  case Nil
  then show ?case by simp
next
  case (Cons x xs)
  have "x \<notin> set xs"
  proof
    assume "x \<in> set xs"
    then obtain ys zs where xs: "xs = ys @ x # zs" by (meson split_list)
    with Cons.prems have "chain nx (nx x) (ys @ x # zs)" by simp
    then have "chain nx (Some x) (x # zs)" by (rule chain_suffix)
    then have "chain nx (nx x) zs" by simp
    with \<open>chain nx (nx x) (ys @ x # zs)\<close> have "zs = ys @ x # zs" by (rule chain_unique [rotated])
    then have "length zs = length (ys @ x # zs)" by (rule arg_cong)
    then show False by simp
  qed
  with Cons show ?case by auto
qed

lemma last_opt_snoc [simp]: "last_opt (xs @ [x]) = Some x"
  by (cases xs) auto

lemma last_opt_append_Cons [simp]: "last_opt (xs @ y # ys) = last_opt (y # ys)"
  by (cases xs) auto

lemma head_opt_append [simp]: "head_opt (xs @ ys) = (if xs = [] then head_opt ys else head_opt xs)"
  by (cases xs) auto

lemma last_opt_None [simp]: "last_opt xs = None \<longleftrightarrow> xs = []"
  by (cases xs) auto

lemma head_opt_None [simp]: "head_opt xs = None \<longleftrightarrow> xs = []"
  by (cases xs) auto

lemma last_opt_Some: "last_opt xs = Some x \<longleftrightarrow> (\<exists>ys. xs = ys @ [x])"
  by (cases xs rule: rev_cases) auto

lemma last_opt_in: "last_opt xs = Some x \<Longrightarrow> x \<in> set xs"
  by (cases xs rule: rev_cases) auto

lemma head_opt_Some: "head_opt xs = Some x \<longleftrightarrow> (\<exists>ys. xs = x # ys)"
  by (cases xs) auto

lemma chain_last_None: "chain nx h (xs @ [x]) \<Longrightarrow> nx x = None"
  by (auto simp: lseg_append)

lemma chain_mid: "chain nx h (xs @ x # ys) \<Longrightarrow> nx x = head_opt ys"
  by (auto simp: lseg_append dest: chain_head)

lemma chain_succ:
  assumes "chain nx h xs" and "x \<in> set xs" and "nx x = Some y"
  shows "y \<in> set xs"
proof -
  obtain ys zs where xs: "xs = ys @ x # zs" using assms(2) by (meson split_list)
  then have "nx x = head_opt zs" using assms(1) by (simp add: chain_mid)
  with assms(3) have "head_opt zs = Some y" by simp
  then show ?thesis using xs by (auto simp: head_opt_Some)
qed

lemma chain_pred:
  assumes "chain nx h (xs @ k # ys)" and "y \<in> set (xs @ k # ys)" and "nx y = Some k"
  shows "last_opt xs = Some y"
proof -
  obtain us vs where uv: "xs @ k # ys = us @ y # vs" using assms(2) by (meson split_list)
  have d: "k \<notin> set xs" "k \<notin> set ys" using chain_distinct [OF assms(1)] by auto
  have "nx y = head_opt vs" using assms(1) uv chain_mid by metis
  then have "head_opt vs = Some k" using assms(3) by simp
  then obtain ws where "vs = k # ws" by (auto simp: head_opt_Some)
  then have "xs @ k # ys = (us @ [y]) @ k # ws" using uv by simp
  then have "xs = us @ [y]" using d append_Cons_eq_iff [of k xs ys "us @ [y]" ws] by blast
  then show ?thesis by simp
qed

text \<open>Appending at the tail: the old tail is linked to the new element.\<close>

lemma chain_append_tail:
  assumes "chain nx h xs" and "x \<notin> set xs" and "nx' x = None"
    and "\<And>t. last_opt xs = Some t \<Longrightarrow> nx' t = Some x"
    and "\<And>y. y \<in> set xs \<Longrightarrow> last_opt xs \<noteq> Some y \<Longrightarrow> nx' y = nx y"
  shows "chain nx' (if xs = [] then Some x else h) (xs @ [x])"
proof (cases xs rule: rev_cases)
  case Nil
  then show ?thesis using assms by simp
next
  case (snoc ys t)
  have d: "distinct xs" using assms(1) by (rule chain_distinct)
  have "lseg nx h ys (Some t)" using assms(1) by (auto simp: snoc lseg_append)
  moreover have "lseg nx' h ys (Some t) = lseg nx h ys (Some t)"
    by (rule lseg_cong) (use assms(5) d in \<open>auto simp: snoc\<close>)
  moreover have "nx' t = Some x" using assms(4) by (simp add: snoc)
  ultimately show ?thesis using assms(3) by (auto simp: snoc lseg_append)
qed

text \<open>Splicing out an inner element: its predecessor is linked to its successor.\<close>

lemma chain_splice:
  assumes "chain nx h (xs @ p # t # ys)"
    and "nx' p = nx t"
    and "\<And>y. y \<in> set xs \<union> set ys \<Longrightarrow> nx' y = nx y"
  shows "chain nx' h (xs @ p # ys)"
proof -
  have "lseg nx h xs (Some p)" and yy: "chain nx (nx t) ys"
    using assms(1) by (auto simp: lseg_append)
  moreover have "lseg nx' h xs (Some p) = lseg nx h xs (Some p)"
    by (rule lseg_cong) (use assms(3) in auto)
  moreover have "chain nx' (nx t) ys = chain nx (nx t) ys"
    by (rule lseg_cong) (use assms(3) in auto)
  ultimately show ?thesis using assms(2) by (auto simp: lseg_append)
qed

text \<open>A segment whose last element is linked elsewhere.\<close>

lemma lseg_retarget:
  assumes "lseg nx h zs q" and "zs \<noteq> []" and "distinct zs" and "nx' (last zs) = q'"
    and "\<And>x. x \<in> set zs \<Longrightarrow> x \<noteq> last zs \<Longrightarrow> nx' x = nx x"
  shows "lseg nx' h zs q'"
proof -
  obtain us x where zs: "zs = us @ [x]" using assms(2) by (meson rev_exhaust)
  have "lseg nx h us (Some x)" using assms(1) by (auto simp: zs lseg_append)
  moreover have "lseg nx' h us (Some x) = lseg nx h us (Some x)"
    by (rule lseg_cong) (use assms(3,5) in \<open>auto simp: zs\<close>)
  ultimately show ?thesis using assms(4) by (auto simp: zs lseg_append)
qed

text \<open>Removing any element, the first one included: its predecessor, or the head, takes over
  its successor.\<close>

lemma chain_remove:
  assumes "chain nx h (xs @ t # ys)"
    and "\<And>p. last_opt xs = Some p \<Longrightarrow> nx' p = nx t"
    and "\<And>y. y \<in> set xs \<union> set ys \<Longrightarrow> last_opt xs \<noteq> Some y \<Longrightarrow> nx' y = nx y"
  shows "chain nx' (if xs = [] then nx t else h) (xs @ ys)"
proof (cases xs rule: rev_cases)
  case Nil
  then have "chain nx (nx t) ys" using assms(1) by simp
  moreover have "chain nx' (nx t) ys = chain nx (nx t) ys"
    by (rule lseg_cong) (use assms(3) Nil in auto)
  ultimately show ?thesis using Nil by simp
next
  case (snoc us p)
  have d: "distinct (xs @ t # ys)" using assms(1) by (rule chain_distinct)
  have "chain nx' h (us @ p # ys)"
    by (rule chain_splice [where nx = nx and t = t]) (use assms d snoc in auto)
  then show ?thesis using snoc by simp
qed

lemma last_opt_remove:
  "last_opt (xs @ ys) = (if ys = [] then last_opt xs else last_opt (xs @ t # ys))"
  by (cases ys) auto

lemma find_link_chain:
  "chain nx cur xs \<Longrightarrow>
   find_link nx t prev cur =
     Some (if t \<in> set xs
           then Some (last_opt (case prev of None \<Rightarrow> takeWhile (\<lambda>x. x \<noteq> t) xs
                                | Some p \<Rightarrow> p # takeWhile (\<lambda>x. x \<noteq> t) xs))
           else None)"
proof (induction xs arbitrary: cur prev)
  case Nil
  then show ?case by (simp add: find_link.simps)
next
  case (Cons x xs)
  show ?case
  proof (cases "x = t")
    case True
    with Cons.prems show ?thesis by (simp add: find_link.simps split: option.splits)
  next
    case False
    have "find_link nx t prev cur = find_link nx t (Some x) (nx x)"
      using Cons.prems False by (subst find_link.simps) simp
    also have "\<dots> = Some (if t \<in> set xs
        then Some (last_opt (x # takeWhile (\<lambda>x. x \<noteq> t) xs)) else None)"
      using Cons by simp
    finally show ?thesis
      using False by (simp split: option.splits)
  qed
qed

lemma find_link_found:
  assumes "chain nx h (xs @ t # ys)"
  shows "find_link nx t None h = Some (Some (last_opt xs))"
proof -
  have "distinct (xs @ t # ys)" using assms by (rule chain_distinct)
  then have "takeWhile (\<lambda>x. x \<noteq> t) (xs @ t # ys) = xs"
    by (subst takeWhile_append2) auto
  then show ?thesis using find_link_chain [OF assms, of t None] by simp
qed

lemma collect_chain: "chain nx h xs \<Longrightarrow> collect nx h = Some xs"
  by (induction xs arbitrary: h) (auto simp: collect.simps)

lemma find_link_missing: "chain nx h xs \<Longrightarrow> t \<notin> set xs \<Longrightarrow> find_link nx t None h = Some None"
  by (simp add: find_link_chain)

text \<open>On a finite type a successor relation without cycles reaches the end.\<close>

lemma chain_exists:
  assumes "wfp (\<lambda>y x. nx x = Some y)"
  shows "\<exists>xs. chain nx h xs"
proof (cases h)
  case None
  then show ?thesis by (metis lseg_None)
next
  case (Some a)
  have "\<exists>xs. chain nx (Some a) xs"
  proof (induction a rule: wfp_induct_rule [OF assms])
    case (1 x)
    show ?case
    proof (cases "nx x")
      case None
      then have "chain nx (Some x) [x]" by simp
      then show ?thesis by blast
    next
      case (Some y)
      with "1" obtain xs where "chain nx (Some y) xs" by blast
      with Some have "chain nx (Some x) (x # xs)" by simp
      then show ?thesis by blast
    qed
  qed
  with Some show ?thesis by simp
qed

section \<open>Counting on finite types\<close>

lemma fcount_0 [simp]: "fcount P = 0 \<longleftrightarrow> (\<forall>x. \<not> P x)"
  by (auto simp: fcount_def)

lemma fcount_cong: "(\<And>x. P x = Q x) \<Longrightarrow> fcount P = fcount Q"
  by (simp add: fcount_def)

lemma fcount_mono: "(\<And>x. P x \<Longrightarrow> Q x) \<Longrightarrow> fcount P \<le> fcount Q"
  unfolding fcount_def by (rule card_mono) auto

lemma fcount_less: "(\<And>x. P x \<Longrightarrow> Q x) \<Longrightarrow> Q a \<Longrightarrow> \<not> P a \<Longrightarrow> fcount P < fcount Q"
  unfolding fcount_def by (rule psubset_card_mono) auto

lemma fcount_pos: "P a \<Longrightarrow> 0 < fcount P"
  by (metis fcount_0 gr0I)

text \<open>Two predicates that differ at one point only.\<close>

lemma fcount_point:
  assumes "\<And>x. x \<noteq> a \<Longrightarrow> P x = Q x"
  shows "fcount P + (if Q a then 1 else 0) = fcount Q + (if P a then 1 else 0)"
proof -
  have split: "fcount R = card {x. x \<noteq> a \<and> R x} + (if R a then 1 else 0)" for R
  proof -
    have "{x. R x} = {x. x \<noteq> a \<and> R x} \<union> (if R a then {a} else {})" by auto
    then show ?thesis unfolding fcount_def by (auto simp: card_insert_if)
  qed
  have "{x. x \<noteq> a \<and> P x} = {x. x \<noteq> a \<and> Q x}" using assms by auto
  then show ?thesis using split [of P] split [of Q] by simp
qed

end
