(* ===== verification/Aspace.thy ===== *)
theory Aspace
  imports Prelude
begin

text \<open>
  Address spaces (\<open>kcore/src/aspace.rs\<close> and the shell in \<open>kernel/src/aspace.rs\<close>): the
  three-level page-table walker over a level-1 table and a pool of 512-entry tables.
  A table is a function from the entry index to the descriptor; indices are masked to
  nine bits before use, so only the first 512 entries are ever read. \<open>asp_l1_tab\<close> and
  \<open>asp_pool\<close> are the memory behind the physical addresses \<open>l1\<close> and \<open>pool_base\<close>; the
  field \<open>pool_pages\<close> of the source is the length of \<open>asp_pool\<close>, as \<open>pool_view\<close> builds it.
  The walker changes tables in place also on its error paths, so every operation
  returns the address space it leaves behind together with its result.
\<close>

section \<open>Constants and types\<close>

definition PAGE :: u64 where "PAGE = 4096"
definition PAGE_MASK :: u64 where "PAGE_MASK = PAGE - 1"
definition USER_VA_BASE :: u64 where "USER_VA_BASE = 0x80000000"
definition USER_VA_END :: u64 where "USER_VA_END = push_bit 39 1"
definition PERM_W :: u64 where "PERM_W = push_bit 0 1"
definition PERM_X :: u64 where "PERM_X = push_bit 1 1"
definition PERM_DEVICE :: u64 where "PERM_DEVICE = push_bit 2 1"
definition DESC_TABLE :: u64 where "DESC_TABLE = 3"
definition DESC_PAGE :: u64 where "DESC_PAGE = 3"
definition AF :: u64 where "AF = push_bit 10 1"
definition UXN :: u64 where "UXN = push_bit 54 1"
definition PXN :: u64 where "PXN = push_bit 53 1"
definition SH_INNER :: u64 where "SH_INNER = push_bit 8 3"
definition SH_NONE :: u64 where "SH_NONE = push_bit 8 0"
definition AP_EL0_RW :: u64 where "AP_EL0_RW = push_bit 6 1"
definition AP_EL0_RO :: u64 where "AP_EL0_RO = push_bit 6 3"
definition ATTR_NORMAL :: u64 where "ATTR_NORMAL = push_bit 2 0"
definition ATTR_DEVICE :: u64 where "ATTR_DEVICE = push_bit 2 1"
definition ADDR_MASK :: u64 where "ADDR_MASK = 0x0000FFFFFFFFF000"

lemmas aspace_consts =
  PAGE_def PAGE_MASK_def USER_VA_BASE_def USER_VA_END_def PERM_W_def PERM_X_def
  PERM_DEVICE_def DESC_TABLE_def DESC_PAGE_def AF_def UXN_def PXN_def SH_INNER_def
  SH_NONE_def AP_EL0_RW_def AP_EL0_RO_def ATTR_NORMAL_def ATTR_DEVICE_def ADDR_MASK_def

datatype map_error = BadVa | AlreadyMapped | NeedMemory

type_synonym table = "nat \<Rightarrow> u64"

record aspace_obj =
  asp_asid :: u16
  asp_l1 :: u64
  asp_pool_base :: u64
  asp_pool_used :: u64
  asp_l1_tab :: table
  asp_pool :: "table list"

section \<open>Index and descriptor arithmetic\<close>

definition l1_index :: "u64 \<Rightarrow> nat" where
  "l1_index va = unat (drop_bit 30 va AND 0x1FF)"

definition l2_index :: "u64 \<Rightarrow> nat" where
  "l2_index va = unat (drop_bit 21 va AND 0x1FF)"

definition l3_index :: "u64 \<Rightarrow> nat" where
  "l3_index va = unat (drop_bit 12 va AND 0x1FF)"

definition va_range_ok :: "u64 \<Rightarrow> u64 \<Rightarrow> bool" where
  "va_range_ok va pages \<longleftrightarrow>
     va mod PAGE = 0 \<and> USER_VA_BASE \<le> va \<and>
     saturating_add va (saturating_mul pages PAGE) \<le> USER_VA_END"

definition pte_encode :: "u64 \<Rightarrow> u64 \<Rightarrow> u64" where
  "pte_encode pa perms =
     (let ap = (if perms AND PERM_W \<noteq> 0 then AP_EL0_RW else AP_EL0_RO);
          device = (perms AND PERM_DEVICE \<noteq> 0);
          xn = (if perms AND PERM_X \<noteq> 0 \<and> \<not> device then 0 else UXN);
          (attr, sh) = (if device then (ATTR_DEVICE, SH_NONE) else (ATTR_NORMAL, SH_INNER))
      in (pa AND ADDR_MASK) OR DESC_PAGE OR AF OR sh OR attr OR ap OR xn OR PXN)"

definition pte_output_pa :: "u64 \<Rightarrow> u64" where
  "pte_output_pa pte = pte AND ADDR_MASK"

section \<open>The walker\<close>

definition pa_of_table :: "u64 \<Rightarrow> nat \<Rightarrow> u64" where
  "pa_of_table pool_base idx = pool_base + of_nat idx * PAGE"

definition pool_index :: "u64 \<Rightarrow> nat \<Rightarrow> u64 \<Rightarrow> nat option" where
  "pool_index pool_base pool_len desc =
     (let pa = desc AND ADDR_MASK in
      if pa < pool_base then None
      else let off = (pa - pool_base) div PAGE in
           if of_nat pool_len \<le> off then None else Some (unat off))"

definition alloc_table :: "aspace_obj \<Rightarrow> aspace_obj \<times> (map_error + nat)" where
  "alloc_table a =
     (if of_nat (length (asp_pool a)) \<le> asp_pool_used a then (a, Inl NeedMemory)
      else let idx = unat (asp_pool_used a) in
        (a\<lparr>asp_pool_used := asp_pool_used a + 1, asp_pool := (asp_pool a)[idx := (\<lambda>_. 0)]\<rparr>,
         Inr idx))"

definition set_l1 :: "nat \<Rightarrow> u64 \<Rightarrow> aspace_obj \<Rightarrow> aspace_obj" where
  "set_l1 i d a = a\<lparr>asp_l1_tab := (asp_l1_tab a)(i := d)\<rparr>"

definition set_pool :: "nat \<Rightarrow> nat \<Rightarrow> u64 \<Rightarrow> aspace_obj \<Rightarrow> aspace_obj" where
  "set_pool t i d a = a\<lparr>asp_pool := (asp_pool a)[t := (asp_pool a ! t)(i := d)]\<rparr>"

text \<open>The first half of \<open>walk_alloc\<close>: the level-2 table of \<open>va\<close>, allocated if absent.\<close>

definition walk_l2 :: "aspace_obj \<Rightarrow> u64 \<Rightarrow> aspace_obj \<times> (map_error + nat)" where
  "walk_l2 a va =
     (let l1i = l1_index va;
          (a1, r1) =
            (if asp_l1_tab a l1i AND DESC_TABLE \<noteq> DESC_TABLE
             then case alloc_table a of
                    (a', Inl e) \<Rightarrow> (a', Inl e)
                  | (a', Inr idx) \<Rightarrow>
                      (set_l1 l1i (pa_of_table (asp_pool_base a) idx OR DESC_TABLE) a', Inr ())
             else (a, Inr ()))
      in case r1 of
           Inl e \<Rightarrow> (a1, Inl e)
         | Inr _ \<Rightarrow>
             (case pool_index (asp_pool_base a1) (length (asp_pool a1)) (asp_l1_tab a1 l1i) of
                None \<Rightarrow> (a1, Inl NeedMemory)
              | Some l2_idx \<Rightarrow> (a1, Inr l2_idx)))"

definition walk_alloc :: "aspace_obj \<Rightarrow> u64 \<Rightarrow> aspace_obj \<times> (map_error + nat \<times> nat)" where
  "walk_alloc a va =
     (case walk_l2 a va of
        (a1, Inl e) \<Rightarrow> (a1, Inl e)
      | (a1, Inr l2_idx) \<Rightarrow>
          (let l2i = l2_index va;
               (a2, r2) =
                 (if (asp_pool a1 ! l2_idx) l2i AND DESC_TABLE \<noteq> DESC_TABLE
                  then case alloc_table a1 of
                         (a', Inl e) \<Rightarrow> (a', Inl e)
                       | (a', Inr idx) \<Rightarrow>
                           (set_pool l2_idx l2i (pa_of_table (asp_pool_base a1) idx OR DESC_TABLE) a',
                            Inr ())
                  else (a1, Inr ()))
           in case r2 of
                Inl e \<Rightarrow> (a2, Inl e)
              | Inr _ \<Rightarrow>
                  (case pool_index (asp_pool_base a2) (length (asp_pool a2))
                          ((asp_pool a2 ! l2_idx) l2i) of
                     None \<Rightarrow> (a2, Inl NeedMemory)
                   | Some l3_idx \<Rightarrow> (a2, Inr (l3_idx, l3_index va)))))"

definition lookup_pt :: "aspace_obj \<Rightarrow> u64 \<Rightarrow> (nat \<times> nat) option" where
  "lookup_pt a va =
     (let l1e = asp_l1_tab a (l1_index va) in
      if l1e AND DESC_TABLE \<noteq> DESC_TABLE then None
      else case pool_index (asp_pool_base a) (length (asp_pool a)) l1e of
             None \<Rightarrow> None
           | Some l2_idx \<Rightarrow>
               (let l2e = (asp_pool a ! l2_idx) (l2_index va) in
                if l2e AND DESC_TABLE \<noteq> DESC_TABLE then None
                else case pool_index (asp_pool_base a) (length (asp_pool a)) l2e of
                       None \<Rightarrow> None
                     | Some l3_idx \<Rightarrow> Some (l3_idx, l3_index va)))"

text \<open>
  \<open>map_in\<close> runs two counted loops over the pages: the first allocates every table and
  refuses an occupied leaf, the second writes the leaves.
\<close>

fun map_check_loop :: "u64 \<Rightarrow> nat list \<Rightarrow> aspace_obj \<Rightarrow> aspace_obj \<times> (map_error + unit)" where
  "map_check_loop va [] a = (a, Inr ())"
| "map_check_loop va (i # is) a =
     (case walk_alloc a (va + of_nat i * PAGE) of
        (a', Inl e) \<Rightarrow> (a', Inl e)
      | (a', Inr (l3, e)) \<Rightarrow>
          if (asp_pool a' ! l3) e \<noteq> 0 then (a', Inl AlreadyMapped) else map_check_loop va is a')"

fun map_write_loop ::
    "u64 \<Rightarrow> u64 \<Rightarrow> u64 \<Rightarrow> nat list \<Rightarrow> aspace_obj \<Rightarrow> aspace_obj \<times> (map_error + unit)" where
  "map_write_loop pa va perms [] a = (a, Inr ())"
| "map_write_loop pa va perms (k # ks) a =
     (case walk_alloc a (va + of_nat k * PAGE) of
        (a', Inl e) \<Rightarrow> (a', Inl e)
      | (a', Inr (l3, e)) \<Rightarrow>
          map_write_loop pa va perms ks
            (set_pool l3 e (pte_encode (pa + of_nat k * PAGE) perms) a'))"

definition map_in ::
    "u64 \<Rightarrow> u64 \<Rightarrow> u64 \<Rightarrow> u64 \<Rightarrow> aspace_obj \<Rightarrow> aspace_obj \<times> (map_error + unit)" where
  "map_in pa va pages perms a =
     (if \<not> va_range_ok va pages then (a, Inl BadVa)
      else case map_check_loop va [0..<unat pages] a of
             (a', Inl e) \<Rightarrow> (a', Inl e)
           | (a', Inr _) \<Rightarrow> map_write_loop pa va perms [0..<unat pages] a')"

text \<open>
  \<open>unmap_in\<close> clears the leaves it finds; the second component is the sequence of
  \<open>tlb_invalidate_page\<close> calls it issues, oldest first.
\<close>

fun unmap_loop :: "u64 \<Rightarrow> nat list \<Rightarrow> aspace_obj \<Rightarrow> aspace_obj \<times> (u16 \<times> u64) list" where
  "unmap_loop va [] a = (a, [])"
| "unmap_loop va (i # is) a =
     (let page = va + of_nat i * PAGE in
      case lookup_pt a page of
        Some (l3, e) \<Rightarrow>
          (let (a', log) = unmap_loop va is (set_pool l3 e 0 a)
           in (a', (asp_asid a, page) # log))
      | None \<Rightarrow> unmap_loop va is a)"

definition unmap_in :: "u64 \<Rightarrow> u64 \<Rightarrow> aspace_obj \<Rightarrow> aspace_obj \<times> (u16 \<times> u64) list" where
  "unmap_in va pages a = unmap_loop va [0..<unat pages] a"

definition page_mapped :: "aspace_obj \<Rightarrow> u64 \<Rightarrow> bool \<Rightarrow> bool" where
  "page_mapped a page write =
     (case lookup_pt a page of
        None \<Rightarrow> False
      | Some (l3, e) \<Rightarrow>
          (if (asp_pool a ! l3) e \<noteq> 0
           then \<not> (write \<and> drop_bit 6 ((asp_pool a ! l3) e) AND 3 \<noteq> 1)
           else False))"

partial_function (option) range_mapped_loop ::
    "aspace_obj \<Rightarrow> bool \<Rightarrow> u64 \<Rightarrow> u64 \<Rightarrow> bool option" where
  "range_mapped_loop a write page end' =
     (if page < end'
      then if page_mapped a page write then range_mapped_loop a write (page + PAGE) end'
           else Some False
      else Some True)"

definition range_mapped_in :: "aspace_obj \<Rightarrow> u64 \<Rightarrow> u64 \<Rightarrow> bool \<Rightarrow> bool option" where
  "range_mapped_in a va len write =
     (if len = 0 then Some (USER_VA_BASE \<le> va \<and> va < USER_VA_END)
      else case checked_add va len of
             None \<Rightarrow> Some False
           | Some end' \<Rightarrow>
               if va < USER_VA_BASE \<or> USER_VA_END < end' then Some False
               else range_mapped_loop a write (va AND NOT PAGE_MASK) end')"

end
