(* ===== verification/Kstore.thy ===== *)
theory Kstore
  imports Aspace
begin

text \<open>
  The object store of the kernel core: handles (\<open>kcore/src/id.rs\<close>), capabilities and
  capability slots (\<open>kcore/src/cspace.rs\<close>), the kernel objects, and the accessors of the
  \<open>Store\<close> trait (\<open>kcore/src/store.rs\<close>, implemented by dereferencing in
  \<open>kernel/src/store.rs\<close>).

  \<^item> \<open>kstore\<close> is the memory the trait reaches: one total function per kind of object,
    from the 64-bit handle to the object's contents, because the implementation
    dereferences any handle it is given. Every header's \<open>refs\<close> is \<open>refs\<close>.
  \<^item> A capability slot is addressed by its own handle, wherever it lives: \<open>cspace_slot\<close>,
    \<open>chan_ring_cap\<close> and \<open>tcb_bind_slot\<close> give the handles of the slots homed in an object.
    They are fixed when the object is placed (the trait has no setter for them).
  \<^item> A getter of the trait is the selector of the record applied to the object; every
    setter is a definition, collected in \<open>store_defs\<close>. Reference counts and cursors are
    32-bit words, so an unguarded \<open>+ 1\<close> or \<open>- 1\<close> wraps.
\<close>

section \<open>Handles\<close>

datatype obj_id = ObjId (obj_raw: u64)
datatype slot_id = SlotId (slot_raw: u64)

instance obj_id :: finite
proof
  have "(UNIV :: obj_id set) = ObjId ` UNIV" by (metis obj_id.exhaust surj_def)
  then show "finite (UNIV :: obj_id set)" by (metis finite_code finite_imageI)
qed

instance slot_id :: finite
proof
  have "(UNIV :: slot_id set) = SlotId ` UNIV" by (metis slot_id.exhaust surj_def)
  then show "finite (UNIV :: slot_id set)" by (metis finite_code finite_imageI)
qed

section \<open>Capabilities\<close>

type_synonym rights = u8

definition READ :: rights where "READ = push_bit 0 1"
definition WRITE :: rights where "WRITE = push_bit 1 1"
definition PHYS :: rights where "PHYS = push_bit 2 1"
definition BIND_REPORTS :: rights where "BIND_REPORTS = push_bit 3 1"
definition READ_REPORT :: rights where "READ_REPORT = push_bit 4 1"
definition RIGHTS_ALL :: rights where "RIGHTS_ALL = 3"
definition THREAD_ALL :: rights where
  "THREAD_ALL = READ OR WRITE OR BIND_REPORTS OR READ_REPORT"

definition has_rights :: "rights \<Rightarrow> u8 \<Rightarrow> bool" where
  "has_rights r bits \<longleftrightarrow> r AND bits = bits"

definition masked :: "rights \<Rightarrow> u8 \<Rightarrow> rights" where
  "masked r m = r AND m"

datatype chan_end = EndA | EndB

datatype cap_kind =
    Empty
  | Untyped u64 u64 u64
  | Frame u64 u64 "(obj_id \<times> u64) option"
  | Aspace obj_id
  | CSpace obj_id
  | Thread obj_id u8
  | Channel obj_id chan_end
  | Notification obj_id
  | Timer obj_id
  | Irq obj_id

record capability =
  kind :: cap_kind
  rights :: rights

definition cap_EMPTY :: capability where
  "cap_EMPTY = \<lparr>kind = Empty, rights = 0\<rparr>"

definition cap_is_empty :: "capability \<Rightarrow> bool" where
  "cap_is_empty c \<longleftrightarrow> (case kind c of Empty \<Rightarrow> True | _ \<Rightarrow> False)"

record cap_slot =
  cap :: capability
  parent :: "slot_id option"
  first_child :: "slot_id option"
  next_sib :: "slot_id option"
  prev_sib :: "slot_id option"
  revoking :: bool

definition slot_empty :: cap_slot where
  "slot_empty = \<lparr>cap = cap_EMPTY, parent = None, first_child = None, next_sib = None,
                 prev_sib = None, revoking = False\<rparr>"

type_synonym slot_map = "slot_id \<Rightarrow> cap_slot"

section \<open>Kernel objects\<close>

record binding =
  bind_notif :: "obj_id option"
  bind_bits :: u64

definition UNBOUND :: binding where
  "UNBOUND = \<lparr>bind_notif = None, bind_bits = 0\<rparr>"

definition MSG_PAYLOAD :: nat where "MSG_PAYLOAD = 256"
definition MSG_CAPS :: nat where "MSG_CAPS = 4"
definition EV_READABLE :: nat where "EV_READABLE = 0"
definition EV_WRITABLE :: nat where "EV_WRITABLE = 1"
definition EV_PEER_CLOSED :: nat where "EV_PEER_CLOSED = 2"
definition BIND_EXIT :: nat where "BIND_EXIT = 0"
definition BIND_FAULT :: nat where "BIND_FAULT = 1"
definition NUM_PRIOS :: nat where "NUM_PRIOS = 32"

record cspace_obj =
  cspace_num_slots :: u32
  cspace_slot :: "u32 \<Rightarrow> slot_id"

record channel_obj =
  chan_depth :: u32
  chan_end_caps :: "nat \<Rightarrow> u32"
  chan_head :: "nat \<Rightarrow> u32"
  chan_count :: "nat \<Rightarrow> u32"
  chan_binding :: "nat \<Rightarrow> nat \<Rightarrow> binding"
  chan_msg_len :: "nat \<Rightarrow> u32 \<Rightarrow> u16"
  chan_payload :: "nat \<Rightarrow> u32 \<Rightarrow> nat \<Rightarrow> u8"
  chan_ring_cap :: "nat \<Rightarrow> u32 \<Rightarrow> nat \<Rightarrow> slot_id"

record notif_obj =
  notif_word :: u64
  notif_wait_head :: "obj_id option"
  notif_wait_tail :: "obj_id option"

datatype report = ReportRunning | Exited u64 | ReportFaulted u64 u64

datatype thread_state = Inactive | Runnable | Running | BlockedNotif | Halted | Faulted

record trap_frame =
  tf_x :: "nat \<Rightarrow> u64"
  tf_sp_el0 :: u64
  tf_elr :: u64
  tf_spsr :: u64
  tf_tpidr :: u64

definition tf_zeroed :: trap_frame where
  "tf_zeroed = \<lparr>tf_x = (\<lambda>_. 0), tf_sp_el0 = 0, tf_elr = 0, tf_spsr = 0, tf_tpidr = 0\<rparr>"

record tcb_obj =
  tcb_frame :: trap_frame
  tcb_state :: thread_state
  tcb_priority :: u8
  tcb_cspace :: "obj_id option"
  tcb_aspace :: "obj_id option"
  tcb_qnext :: "obj_id option"
  tcb_wait_notif :: "obj_id option"
  tcb_report :: report
  tcb_bind_slot :: "nat \<Rightarrow> slot_id"
  tcb_bind_bits :: "nat \<Rightarrow> u64"

record timer_obj =
  timer_armed :: bool
  timer_deadline :: u64
  timer_notif :: "obj_id option"
  timer_bits :: u64
  timer_next :: "obj_id option"

record irq_obj =
  irq_intid :: u32
  irq_notif :: "obj_id option"
  irq_bits :: u64
  irq_bound :: bool
  irq_masked :: bool

record kstore =
  slots :: slot_map
  refs :: "obj_id \<Rightarrow> u32"
  cspaces :: "obj_id \<Rightarrow> cspace_obj"
  chans :: "obj_id \<Rightarrow> channel_obj"
  notifs :: "obj_id \<Rightarrow> notif_obj"
  tcbs :: "obj_id \<Rightarrow> tcb_obj"
  timers :: "obj_id \<Rightarrow> timer_obj"
  irqs :: "obj_id \<Rightarrow> irq_obj"
  aspaces :: "obj_id \<Rightarrow> aspace_obj"
  armed_head :: "obj_id option"
  ready_head :: "nat \<Rightarrow> obj_id option"
  ready_tail :: "nat \<Rightarrow> obj_id option"
  ready_bitmap :: u32
  current :: "obj_id option"
  tlbi_log :: "(u16 \<times> u64) list"
  next_asid :: u16

section \<open>Setters of the store\<close>

definition set_slot :: "slot_id \<Rightarrow> cap_slot \<Rightarrow> kstore \<Rightarrow> kstore" where
  [store_defs]: "set_slot k v s = s\<lparr>slots := (slots s)(k := v)\<rparr>"

definition set_obj_refs :: "obj_id \<Rightarrow> u32 \<Rightarrow> kstore \<Rightarrow> kstore" where
  [store_defs]: "set_obj_refs o' r s = s\<lparr>refs := (refs s)(o' := r)\<rparr>"

definition upd_chan :: "obj_id \<Rightarrow> (channel_obj \<Rightarrow> channel_obj) \<Rightarrow> kstore \<Rightarrow> kstore" where
  [store_defs]: "upd_chan ch f s = s\<lparr>chans := (chans s)(ch := f (chans s ch))\<rparr>"

definition upd_notif :: "obj_id \<Rightarrow> (notif_obj \<Rightarrow> notif_obj) \<Rightarrow> kstore \<Rightarrow> kstore" where
  [store_defs]: "upd_notif n f s = s\<lparr>notifs := (notifs s)(n := f (notifs s n))\<rparr>"

definition upd_tcb :: "obj_id \<Rightarrow> (tcb_obj \<Rightarrow> tcb_obj) \<Rightarrow> kstore \<Rightarrow> kstore" where
  [store_defs]: "upd_tcb t f s = s\<lparr>tcbs := (tcbs s)(t := f (tcbs s t))\<rparr>"

definition upd_timer :: "obj_id \<Rightarrow> (timer_obj \<Rightarrow> timer_obj) \<Rightarrow> kstore \<Rightarrow> kstore" where
  [store_defs]: "upd_timer t f s = s\<lparr>timers := (timers s)(t := f (timers s t))\<rparr>"

definition upd_irq :: "obj_id \<Rightarrow> (irq_obj \<Rightarrow> irq_obj) \<Rightarrow> kstore \<Rightarrow> kstore" where
  [store_defs]: "upd_irq i f s = s\<lparr>irqs := (irqs s)(i := f (irqs s i))\<rparr>"

definition set_chan_end_caps :: "obj_id \<Rightarrow> nat \<Rightarrow> u32 \<Rightarrow> kstore \<Rightarrow> kstore" where
  [store_defs]: "set_chan_end_caps ch e v =
     upd_chan ch (\<lambda>c. c\<lparr>chan_end_caps := (chan_end_caps c)(e := v)\<rparr>)"

definition set_chan_head :: "obj_id \<Rightarrow> nat \<Rightarrow> u32 \<Rightarrow> kstore \<Rightarrow> kstore" where
  [store_defs]: "set_chan_head ch ring v =
     upd_chan ch (\<lambda>c. c\<lparr>chan_head := (chan_head c)(ring := v)\<rparr>)"

definition set_chan_count :: "obj_id \<Rightarrow> nat \<Rightarrow> u32 \<Rightarrow> kstore \<Rightarrow> kstore" where
  [store_defs]: "set_chan_count ch ring v =
     upd_chan ch (\<lambda>c. c\<lparr>chan_count := (chan_count c)(ring := v)\<rparr>)"

definition set_chan_binding :: "obj_id \<Rightarrow> nat \<Rightarrow> nat \<Rightarrow> binding \<Rightarrow> kstore \<Rightarrow> kstore" where
  [store_defs]: "set_chan_binding ch e ev b =
     upd_chan ch (\<lambda>c. c\<lparr>chan_binding := (chan_binding c)(e := (chan_binding c e)(ev := b))\<rparr>)"

definition set_chan_msg_len :: "obj_id \<Rightarrow> nat \<Rightarrow> u32 \<Rightarrow> u16 \<Rightarrow> kstore \<Rightarrow> kstore" where
  [store_defs]: "set_chan_msg_len ch ring i v =
     upd_chan ch (\<lambda>c. c\<lparr>chan_msg_len := (chan_msg_len c)(ring := (chan_msg_len c ring)(i := v))\<rparr>)"

definition chan_msg_write :: "obj_id \<Rightarrow> nat \<Rightarrow> u32 \<Rightarrow> u8 list \<Rightarrow> kstore \<Rightarrow> kstore" where
  [store_defs]: "chan_msg_write ch ring i data =
     upd_chan ch (\<lambda>c. c\<lparr>chan_payload := (chan_payload c)(ring := (chan_payload c ring)(i :=
       (\<lambda>j. if j < min (length data) MSG_PAYLOAD then data ! j else chan_payload c ring i j)))\<rparr>)"

definition chan_msg_read :: "kstore \<Rightarrow> obj_id \<Rightarrow> nat \<Rightarrow> u32 \<Rightarrow> nat \<Rightarrow> u8 list \<Rightarrow> u8 list" where
  "chan_msg_read s ch ring i len buf =
     (let n = min (min len MSG_PAYLOAD) (length buf)
      in map (chan_payload (chans s ch) ring i) [0..<n] @ drop n buf)"

definition set_notif_word :: "obj_id \<Rightarrow> u64 \<Rightarrow> kstore \<Rightarrow> kstore" where
  [store_defs]: "set_notif_word n v = upd_notif n (\<lambda>x. x\<lparr>notif_word := v\<rparr>)"

definition set_notif_wait_head :: "obj_id \<Rightarrow> obj_id option \<Rightarrow> kstore \<Rightarrow> kstore" where
  [store_defs]: "set_notif_wait_head n h = upd_notif n (\<lambda>x. x\<lparr>notif_wait_head := h\<rparr>)"

definition set_notif_wait_tail :: "obj_id \<Rightarrow> obj_id option \<Rightarrow> kstore \<Rightarrow> kstore" where
  [store_defs]: "set_notif_wait_tail n t = upd_notif n (\<lambda>x. x\<lparr>notif_wait_tail := t\<rparr>)"

definition set_tcb_state :: "obj_id \<Rightarrow> thread_state \<Rightarrow> kstore \<Rightarrow> kstore" where
  [store_defs]: "set_tcb_state t v = upd_tcb t (\<lambda>x. x\<lparr>tcb_state := v\<rparr>)"

definition set_tcb_qnext :: "obj_id \<Rightarrow> obj_id option \<Rightarrow> kstore \<Rightarrow> kstore" where
  [store_defs]: "set_tcb_qnext t v = upd_tcb t (\<lambda>x. x\<lparr>tcb_qnext := v\<rparr>)"

definition set_tcb_wait_notif :: "obj_id \<Rightarrow> obj_id option \<Rightarrow> kstore \<Rightarrow> kstore" where
  [store_defs]: "set_tcb_wait_notif t v = upd_tcb t (\<lambda>x. x\<lparr>tcb_wait_notif := v\<rparr>)"

definition set_tcb_report :: "obj_id \<Rightarrow> report \<Rightarrow> kstore \<Rightarrow> kstore" where
  [store_defs]: "set_tcb_report t v = upd_tcb t (\<lambda>x. x\<lparr>tcb_report := v\<rparr>)"

definition set_tcb_priority :: "obj_id \<Rightarrow> u8 \<Rightarrow> kstore \<Rightarrow> kstore" where
  [store_defs]: "set_tcb_priority t v = upd_tcb t (\<lambda>x. x\<lparr>tcb_priority := v\<rparr>)"

definition set_tcb_bind_bits :: "obj_id \<Rightarrow> nat \<Rightarrow> u64 \<Rightarrow> kstore \<Rightarrow> kstore" where
  [store_defs]: "set_tcb_bind_bits t which b =
     upd_tcb t (\<lambda>x. x\<lparr>tcb_bind_bits := (tcb_bind_bits x)(which := b)\<rparr>)"

definition set_tcb_cspace :: "obj_id \<Rightarrow> obj_id option \<Rightarrow> kstore \<Rightarrow> kstore" where
  [store_defs]: "set_tcb_cspace t v = upd_tcb t (\<lambda>x. x\<lparr>tcb_cspace := v\<rparr>)"

definition set_tcb_aspace :: "obj_id \<Rightarrow> obj_id option \<Rightarrow> kstore \<Rightarrow> kstore" where
  [store_defs]: "set_tcb_aspace t v = upd_tcb t (\<lambda>x. x\<lparr>tcb_aspace := v\<rparr>)"

definition set_tcb_retval :: "obj_id \<Rightarrow> u64 \<Rightarrow> kstore \<Rightarrow> kstore" where
  [store_defs]: "set_tcb_retval t v =
     upd_tcb t (\<lambda>x. x\<lparr>tcb_frame := (tcb_frame x)\<lparr>tf_x := (tf_x (tcb_frame x))(0 := v)\<rparr>\<rparr>)"

definition set_timer_armed :: "obj_id \<Rightarrow> bool \<Rightarrow> kstore \<Rightarrow> kstore" where
  [store_defs]: "set_timer_armed t v = upd_timer t (\<lambda>x. x\<lparr>timer_armed := v\<rparr>)"

definition set_timer_deadline :: "obj_id \<Rightarrow> u64 \<Rightarrow> kstore \<Rightarrow> kstore" where
  [store_defs]: "set_timer_deadline t v = upd_timer t (\<lambda>x. x\<lparr>timer_deadline := v\<rparr>)"

definition set_timer_notif :: "obj_id \<Rightarrow> obj_id option \<Rightarrow> kstore \<Rightarrow> kstore" where
  [store_defs]: "set_timer_notif t v = upd_timer t (\<lambda>x. x\<lparr>timer_notif := v\<rparr>)"

definition set_timer_bits :: "obj_id \<Rightarrow> u64 \<Rightarrow> kstore \<Rightarrow> kstore" where
  [store_defs]: "set_timer_bits t v = upd_timer t (\<lambda>x. x\<lparr>timer_bits := v\<rparr>)"

definition set_timer_next :: "obj_id \<Rightarrow> obj_id option \<Rightarrow> kstore \<Rightarrow> kstore" where
  [store_defs]: "set_timer_next t v = upd_timer t (\<lambda>x. x\<lparr>timer_next := v\<rparr>)"

definition set_timer_armed_head :: "obj_id option \<Rightarrow> kstore \<Rightarrow> kstore" where
  [store_defs]: "set_timer_armed_head h s = s\<lparr>armed_head := h\<rparr>"

definition set_irq_notif :: "obj_id \<Rightarrow> obj_id option \<Rightarrow> kstore \<Rightarrow> kstore" where
  [store_defs]: "set_irq_notif i v = upd_irq i (\<lambda>x. x\<lparr>irq_notif := v\<rparr>)"

definition set_irq_bits :: "obj_id \<Rightarrow> u64 \<Rightarrow> kstore \<Rightarrow> kstore" where
  [store_defs]: "set_irq_bits i v = upd_irq i (\<lambda>x. x\<lparr>irq_bits := v\<rparr>)"

definition set_irq_bound :: "obj_id \<Rightarrow> bool \<Rightarrow> kstore \<Rightarrow> kstore" where
  [store_defs]: "set_irq_bound i v = upd_irq i (\<lambda>x. x\<lparr>irq_bound := v\<rparr>)"

definition set_irq_masked :: "obj_id \<Rightarrow> bool \<Rightarrow> kstore \<Rightarrow> kstore" where
  [store_defs]: "set_irq_masked i v = upd_irq i (\<lambda>x. x\<lparr>irq_masked := v\<rparr>)"

definition set_ready_head :: "nat \<Rightarrow> obj_id option \<Rightarrow> kstore \<Rightarrow> kstore" where
  [store_defs]: "set_ready_head level h s = s\<lparr>ready_head := (ready_head s)(level := h)\<rparr>"

definition set_ready_tail :: "nat \<Rightarrow> obj_id option \<Rightarrow> kstore \<Rightarrow> kstore" where
  [store_defs]: "set_ready_tail level t s = s\<lparr>ready_tail := (ready_tail s)(level := t)\<rparr>"

definition set_ready_bitmap :: "u32 \<Rightarrow> kstore \<Rightarrow> kstore" where
  [store_defs]: "set_ready_bitmap b s = s\<lparr>ready_bitmap := b\<rparr>"

section \<open>The address-space seam of the store\<close>

definition aspace_map ::
    "obj_id \<Rightarrow> u64 \<Rightarrow> u64 \<Rightarrow> u64 \<Rightarrow> u64 \<Rightarrow> kstore \<Rightarrow> kstore \<times> (map_error + unit)" where
  "aspace_map a pa va pages perms s =
     (let (a', r) = map_in pa va pages perms (aspaces s a)
      in (s\<lparr>aspaces := (aspaces s)(a := a')\<rparr>, r))"

definition aspace_unmap :: "obj_id \<Rightarrow> u64 \<Rightarrow> u64 \<Rightarrow> kstore \<Rightarrow> kstore" where
  "aspace_unmap a va pages s =
     (let (a', log) = unmap_in va pages (aspaces s a)
      in s\<lparr>aspaces := (aspaces s)(a := a'), tlbi_log := tlbi_log s @ log\<rparr>)"

definition aspace_destroy :: "obj_id \<Rightarrow> kstore \<Rightarrow> kstore" where
  "aspace_destroy a s = s"

section \<open>What a capability designates\<close>

fun obj_of_kind :: "cap_kind \<Rightarrow> obj_id option" where
  "obj_of_kind (Aspace o') = Some o'"
| "obj_of_kind (CSpace o') = Some o'"
| "obj_of_kind (Thread o' _) = Some o'"
| "obj_of_kind (Channel o' _) = Some o'"
| "obj_of_kind (Notification o') = Some o'"
| "obj_of_kind (Timer o') = Some o'"
| "obj_of_kind (Irq o') = Some o'"
| "obj_of_kind Empty = None"
| "obj_of_kind (Untyped _ _ _) = None"
| "obj_of_kind (Frame _ _ _) = None"

definition end_idx :: "chan_end \<Rightarrow> nat" where
  "end_idx e = (case e of EndA \<Rightarrow> 0 | EndB \<Rightarrow> 1)"

section \<open>Freshly initialised objects\<close>

text \<open>
  The object constructors, and the store at boot: nothing is runnable, armed or mapped and
  every slot is empty. The handles of embedded slots (cspace, ring and binding slots) are
  the layout of the object in memory, an argument here.
\<close>

definition tcb_empty :: "(nat \<Rightarrow> slot_id) \<Rightarrow> tcb_obj" where
  "tcb_empty bs = \<lparr>tcb_frame = tf_zeroed, tcb_state = Inactive, tcb_priority = 0,
     tcb_cspace = None, tcb_aspace = None, tcb_qnext = None, tcb_wait_notif = None,
     tcb_report = ReportRunning, tcb_bind_slot = bs, tcb_bind_bits = (\<lambda>_. 0)\<rparr>"

definition channel_init :: "u32 \<Rightarrow> (nat \<Rightarrow> u32 \<Rightarrow> nat \<Rightarrow> slot_id) \<Rightarrow> (nat \<Rightarrow> u32 \<Rightarrow> nat \<Rightarrow> u8) \<Rightarrow> channel_obj"
  where
  "channel_init depth rc garbage = \<lparr>chan_depth = depth, chan_end_caps = (\<lambda>_. 0),
     chan_head = (\<lambda>_. 0), chan_count = (\<lambda>_. 0), chan_binding = (\<lambda>_ _. UNBOUND),
     chan_msg_len = (\<lambda>_ _. 0), chan_payload = garbage, chan_ring_cap = rc\<rparr>"

definition notif_init :: notif_obj where
  "notif_init = \<lparr>notif_word = 0, notif_wait_head = None, notif_wait_tail = None\<rparr>"

definition timer_init :: timer_obj where
  "timer_init = \<lparr>timer_armed = False, timer_deadline = 0, timer_notif = None, timer_bits = 0,
     timer_next = None\<rparr>"

definition irq_init :: "u32 \<Rightarrow> irq_obj" where
  "irq_init intid = \<lparr>irq_intid = intid, irq_notif = None, irq_bits = 0, irq_bound = False,
     irq_masked = False\<rparr>"

definition cspace_init :: "u32 \<Rightarrow> (u32 \<Rightarrow> slot_id) \<Rightarrow> cspace_obj" where
  "cspace_init n sl = \<lparr>cspace_num_slots = n, cspace_slot = sl\<rparr>"

definition store_init ::
    "(obj_id \<Rightarrow> cspace_obj) \<Rightarrow> (obj_id \<Rightarrow> channel_obj) \<Rightarrow> (obj_id \<Rightarrow> tcb_obj) \<Rightarrow>
     (obj_id \<Rightarrow> aspace_obj) \<Rightarrow> kstore" where
  "store_init css chs ts ass = \<lparr>slots = (\<lambda>_. slot_empty), refs = (\<lambda>_. 0), cspaces = css,
     chans = chs, notifs = (\<lambda>_. notif_init), tcbs = ts, timers = (\<lambda>_. timer_init),
     irqs = (\<lambda>_. irq_init 0), aspaces = ass, armed_head = None, ready_head = (\<lambda>_. None),
     ready_tail = (\<lambda>_. None), ready_bitmap = 0, current = None, tlbi_log = [],
     next_asid = 1\<rparr>"

text \<open>A closed store of this shape, with every embedded slot at one unused handle.\<close>

definition blank_store :: kstore where
  "blank_store = store_init (\<lambda>_. cspace_init 0 (\<lambda>_. SlotId 0))
     (\<lambda>_. channel_init 1 (\<lambda>_ _ _. SlotId 0) (\<lambda>_ _ _. 0)) (\<lambda>_. tcb_empty (\<lambda>_. SlotId 0))
     (\<lambda>_. \<lparr>asp_asid = 0, asp_l1 = 0, asp_pool_base = 0, asp_pool_used = 0,
          asp_l1_tab = (\<lambda>_. 0), asp_pool = []\<rparr>)"

lemmas init_defs = tcb_empty_def channel_init_def notif_init_def timer_init_def irq_init_def
  cspace_init_def store_init_def

section \<open>First facts\<close>

lemma cap_is_empty_iff: "cap_is_empty c \<longleftrightarrow> kind c = Empty"
  by (simp add: cap_is_empty_def split: cap_kind.splits)

lemma cap_is_empty_EMPTY [simp]: "cap_is_empty cap_EMPTY"
  by (simp add: cap_is_empty_iff cap_EMPTY_def)

lemma slot_empty_simps [simp]:
  "cap slot_empty = cap_EMPTY" "parent slot_empty = None" "first_child slot_empty = None"
  "next_sib slot_empty = None" "prev_sib slot_empty = None" "\<not> revoking slot_empty"
  by (simp_all add: slot_empty_def)

lemma end_idx_cases: "end_idx e = 0 \<or> end_idx e = 1"
  by (cases e) (auto simp: end_idx_def)

lemma aspace_map_frame [frame_simps]:
  assumes "aspace_map a pa va pages perms s = (s', r)"
  shows "s' = s\<lparr>aspaces := aspaces s'\<rparr>"
  using assms by (auto simp: aspace_map_def Let_def split: prod.splits)

lemma aspace_unmap_frame [simp, frame_simps]:
  "slots (aspace_unmap a va pages s) = slots s"
  "refs (aspace_unmap a va pages s) = refs s"
  "cspaces (aspace_unmap a va pages s) = cspaces s"
  "chans (aspace_unmap a va pages s) = chans s"
  "notifs (aspace_unmap a va pages s) = notifs s"
  "tcbs (aspace_unmap a va pages s) = tcbs s"
  "timers (aspace_unmap a va pages s) = timers s"
  "irqs (aspace_unmap a va pages s) = irqs s"
  "armed_head (aspace_unmap a va pages s) = armed_head s"
  "ready_head (aspace_unmap a va pages s) = ready_head s"
  "ready_tail (aspace_unmap a va pages s) = ready_tail s"
  "ready_bitmap (aspace_unmap a va pages s) = ready_bitmap s"
  "current (aspace_unmap a va pages s) = current s"
  by (auto simp: aspace_unmap_def Let_def split: prod.splits)

end
