(* ===== verification/Fifo.thy ===== *)
theory Fifo
  imports Prelude
begin

text \<open>
  The contract of a first-in first-out queue, as the kernel's queues promise it to their
  clients: \<open>put\<close> appends, \<open>get\<close> takes the head, and both keep the invariant. The ready
  levels, the notification wait queues and the channel rings are instances, each
  interpreted in the theory of its component.

  The client lemmas are proved once here: a run of puts and gets answers what the list
  queue answers (\<open>run_refines\<close>), and draining a queue returns its items in the order they
  were put (\<open>drain_items\<close>).
\<close>

datatype 'a queue_op = Put 'a | Get

text \<open>The specification: the queue is a list.\<close>

fun spec_run :: "'a queue_op list \<Rightarrow> 'a list \<Rightarrow> 'a option list \<times> 'a list" where
  "spec_run [] q = ([], q)"
| "spec_run (Put x # ops) q = spec_run ops (q @ [x])"
| "spec_run (Get # ops) q =
     (let (outs, q') = spec_run ops (tl q) in (head_opt q # outs, q'))"

text \<open>The same run against an implementation.\<close>

fun queue_run ::
    "('a \<Rightarrow> 's \<Rightarrow> 's) \<Rightarrow> ('s \<Rightarrow> ('a \<times> 's) option) \<Rightarrow> 'a queue_op list \<Rightarrow> 's \<Rightarrow> 'a option list \<times> 's"
  where
  "queue_run put get [] s = ([], s)"
| "queue_run put get (Put x # ops) s = queue_run put get ops (put x s)"
| "queue_run put get (Get # ops) s =
     (case get s of
        None \<Rightarrow> (let (outs, s') = queue_run put get ops s in (None # outs, s'))
      | Some (x, s1) \<Rightarrow> (let (outs, s') = queue_run put get ops s1 in (Some x # outs, s')))"

text \<open>Each \<open>Put\<close> of a run meets the precondition of the queue at its point.\<close>

fun run_ok ::
    "('a \<Rightarrow> 's \<Rightarrow> bool) \<Rightarrow> ('a \<Rightarrow> 's \<Rightarrow> 's) \<Rightarrow> ('s \<Rightarrow> ('a \<times> 's) option) \<Rightarrow>
     'a queue_op list \<Rightarrow> 's \<Rightarrow> bool" where
  "run_ok ok put get [] s = True"
| "run_ok ok put get (Put x # ops) s = (ok x s \<and> run_ok ok put get ops (put x s))"
| "run_ok ok put get (Get # ops) s =
     (case get s of None \<Rightarrow> run_ok ok put get ops s | Some (_, s') \<Rightarrow> run_ok ok put get ops s')"

fun drain :: "('s \<Rightarrow> ('a \<times> 's) option) \<Rightarrow> nat \<Rightarrow> 's \<Rightarrow> 'a list" where
  "drain get 0 s = []"
| "drain get (Suc k) s = (case get s of None \<Rightarrow> [] | Some (x, s') \<Rightarrow> x # drain get k s')"

locale fifo =
  fixes invar :: "'s \<Rightarrow> bool"
    and items :: "'s \<Rightarrow> 'a list"
    and ok :: "'a \<Rightarrow> 's \<Rightarrow> bool"
    and put :: "'a \<Rightarrow> 's \<Rightarrow> 's"
    and get :: "'s \<Rightarrow> ('a \<times> 's) option"
  assumes invar_put: "invar s \<Longrightarrow> ok x s \<Longrightarrow> invar (put x s)"
    and items_put: "invar s \<Longrightarrow> ok x s \<Longrightarrow> items (put x s) = items s @ [x]"
    and get_empty: "invar s \<Longrightarrow> items s = [] \<Longrightarrow> get s = None"
    and get_head: "invar s \<Longrightarrow> items s = x # xs \<Longrightarrow>
        \<exists>s'. get s = Some (x, s') \<and> invar s' \<and> items s' = xs"
begin

lemma run_refines:
  assumes "invar s" and "run_ok ok put get ops s"
  shows "fst (queue_run put get ops s) = fst (spec_run ops (items s)) \<and>
         invar (snd (queue_run put get ops s)) \<and>
         items (snd (queue_run put get ops s)) = snd (spec_run ops (items s))"
  using assms
proof (induction ops arbitrary: s)
  case Nil
  then show ?case by simp
next
  case (Cons op ops)
  show ?case
  proof (cases op)
    case (Put x)
    then show ?thesis
      using Cons.IH [of "put x s"] Cons.prems by (simp add: invar_put items_put)
  next
    case Get
    show ?thesis
    proof (cases "items s")
      case Nil
      then show ?thesis
        using Get Cons.IH [of s] Cons.prems get_empty [of s] by (simp add: case_prod_unfold Let_def)
    next
      case (Cons x xs)
      obtain s' where "get s = Some (x, s')" "invar s'" "items s' = xs"
        using get_head [OF \<open>invar s\<close> Cons] by blast
      then show ?thesis
        using Get Cons Cons.IH [of s'] Cons.prems by (simp add: case_prod_unfold Let_def)
    qed
  qed
qed

lemma drain_items:
  assumes "invar s" and "length (items s) \<le> k"
  shows "drain get k s = items s"
  using assms
proof (induction k arbitrary: s)
  case 0
  then show ?case by simp
next
  case (Suc k)
  then show ?case
    using get_empty [of s] get_head [of s] by (cases "items s") fastforce+
qed

text \<open>An element put behind \<open>length (items s)\<close> others comes out after exactly that many gets.\<close>

lemma drain_put:
  assumes "invar s" and "ok x s"
  shows "drain get (Suc (length (items s))) (put x s) = items s @ [x]"
  using drain_items [of "put x s" "Suc (length (items s))"] assms
  by (simp add: invar_put items_put)

end

end
