(* ===== verification/Ready.thy ===== *)
theory Ready
  imports Kstore Fifo
begin

text \<open>
  The 32-level ready queue (\<open>kcore/src/ready.rs\<close>): one intrusive list of threads per
  priority, threaded through \<open>tcb_qnext\<close>, and a presence bitmap. The notification wait
  queues thread the same link, so one invariant covers both:

  \<^item> \<open>sched_rep X s R W\<close>: the lists of level \<open>l\<close> and of notification \<open>n\<close> are \<open>R l\<close> and
    \<open>W n\<close>; outside the set \<open>X\<close> a thread is on the list of its priority exactly when it
    is \<open>Runnable\<close>, and on the list of a notification exactly when it is blocked on
    it; the bitmap marks the non-empty levels. A thread of \<open>X\<close> is in transit: it is on no
    list, whatever its state says.
  \<^item> \<open>sched_wf\<close>: there is such a representation with no thread in transit.

  Each operation is described by what it does to \<open>R\<close> and \<open>W\<close>: enqueue appends, dequeue
  takes the head, unqueue removes one element.
\<close>

section \<open>Operations\<close>

definition top_ready :: "kstore \<Rightarrow> nat option" where
  "top_ready s =
     (let bm = ready_bitmap s in
      if bm = 0 then None else Some (31 - leading_zeros bm))"

definition ready_enqueue :: "obj_id \<Rightarrow> kstore \<Rightarrow> kstore" where
  "ready_enqueue t s =
     (let prio = unat (tcb_priority (tcbs s t));
          s = set_tcb_state t Runnable s;
          s = set_tcb_qnext t None s;
          s = (case ready_tail s prio of
                 None \<Rightarrow> set_ready_head prio (Some t) s
               | Some tail \<Rightarrow> set_tcb_qnext tail (Some t) s);
          s = set_ready_tail prio (Some t) s
      in set_ready_bitmap (ready_bitmap s OR push_bit prio 1) s)"

definition ready_dequeue :: "nat \<Rightarrow> kstore \<Rightarrow> obj_id option \<times> kstore" where
  "ready_dequeue level s =
     (case ready_head s level of
        None \<Rightarrow> (None, s)
      | Some t \<Rightarrow>
          (let next = tcb_qnext (tcbs s t);
               s = set_ready_head level next s;
               s = (case next of
                      None \<Rightarrow>
                        set_ready_bitmap (ready_bitmap s AND NOT (push_bit level 1))
                          (set_ready_tail level None s)
                    | Some _ \<Rightarrow> s)
           in (Some t, set_tcb_qnext t None s)))"

text \<open>
  \<open>ready_unqueue\<close> walks the list of the thread's level with the running predecessor; the
  body at the found element is \<open>ready_splice\<close>. A thread that is not on the list is left
  alone.
\<close>

definition ready_splice :: "obj_id \<Rightarrow> nat \<Rightarrow> obj_id option \<Rightarrow> kstore \<Rightarrow> kstore" where
  "ready_splice t lvl prev s =
     (let next = tcb_qnext (tcbs s t);
          s = (case prev of
                 None \<Rightarrow> set_ready_head lvl next s
               | Some p \<Rightarrow> set_tcb_qnext p next s);
          s = (if ready_tail s lvl = Some t then set_ready_tail lvl prev s else s);
          s = set_tcb_qnext t None s
      in if ready_head s lvl = None
         then set_ready_bitmap (ready_bitmap s AND NOT (push_bit lvl 1)) s else s)"

definition ready_unqueue :: "obj_id \<Rightarrow> kstore \<Rightarrow> kstore option" where
  "ready_unqueue t s =
     (let lvl = unat (tcb_priority (tcbs s t)) in
      do { found \<leftarrow> find_link (\<lambda>x. tcb_qnext (tcbs s x)) t None (ready_head s lvl);
           Some (case found of None \<Rightarrow> s | Some prev \<Rightarrow> ready_splice t lvl prev s) })"

text \<open>The seam methods \<open>make_runnable\<close> and \<open>unqueue_ready\<close> of the store are these two.\<close>

definition make_runnable :: "obj_id \<Rightarrow> kstore \<Rightarrow> kstore" where
  "make_runnable t s = ready_enqueue t s"

definition unqueue_ready :: "obj_id \<Rightarrow> kstore \<Rightarrow> kstore option" where
  "unqueue_ready t s = ready_unqueue t s"

section \<open>The queue invariant\<close>

abbreviation qnext_of :: "kstore \<Rightarrow> obj_id \<Rightarrow> obj_id option" where
  "qnext_of s \<equiv> (\<lambda>t. tcb_qnext (tcbs s t))"

definition ready_q :: "kstore \<Rightarrow> nat \<Rightarrow> obj_id list \<Rightarrow> bool" where
  "ready_q s l xs \<longleftrightarrow> chain (qnext_of s) (ready_head s l) xs \<and> ready_tail s l = last_opt xs"

definition wait_q :: "kstore \<Rightarrow> obj_id \<Rightarrow> obj_id list \<Rightarrow> bool" where
  "wait_q s n xs \<longleftrightarrow>
     chain (qnext_of s) (notif_wait_head (notifs s n)) xs \<and>
     notif_wait_tail (notifs s n) = last_opt xs"

definition sched_rep ::
    "obj_id set \<Rightarrow> kstore \<Rightarrow> (nat \<Rightarrow> obj_id list) \<Rightarrow> (obj_id \<Rightarrow> obj_id list) \<Rightarrow> bool" where
  "sched_rep X s R W \<longleftrightarrow>
     (\<forall>l < NUM_PRIOS. ready_q s l (R l)) \<and>
     (\<forall>n. wait_q s n (W n)) \<and>
     (\<forall>l < NUM_PRIOS. \<forall>t. t \<in> set (R l) \<longleftrightarrow>
        t \<notin> X \<and> tcb_state (tcbs s t) = Runnable \<and> unat (tcb_priority (tcbs s t)) = l) \<and>
     (\<forall>n t. t \<in> set (W n) \<longleftrightarrow>
        t \<notin> X \<and> tcb_state (tcbs s t) = BlockedNotif \<and> tcb_wait_notif (tcbs s t) = Some n) \<and>
     (\<forall>l < NUM_PRIOS. bit (ready_bitmap s) l \<longleftrightarrow> R l \<noteq> []) \<and>
     (\<forall>t. t \<notin> X \<longrightarrow> tcb_state (tcbs s t) = Runnable \<or> tcb_state (tcbs s t) = BlockedNotif \<longrightarrow>
        unat (tcb_priority (tcbs s t)) < NUM_PRIOS) \<and>
     (\<forall>t. t \<notin> X \<longrightarrow> tcb_state (tcbs s t) = BlockedNotif \<longrightarrow> tcb_wait_notif (tcbs s t) \<noteq> None)"

definition sched_wf :: "kstore \<Rightarrow> bool" where
  "sched_wf s \<longleftrightarrow> (\<exists>R W. sched_rep {} s R W)"

section \<open>Reading the invariant\<close>

lemma sched_repD:
  assumes "sched_rep X s R W"
  shows "l < NUM_PRIOS \<Longrightarrow> ready_q s l (R l)"
    and "wait_q s n (W n)"
    and "l < NUM_PRIOS \<Longrightarrow> t \<in> set (R l) \<longleftrightarrow>
          t \<notin> X \<and> tcb_state (tcbs s t) = Runnable \<and> unat (tcb_priority (tcbs s t)) = l"
    and "t \<in> set (W n) \<longleftrightarrow>
          t \<notin> X \<and> tcb_state (tcbs s t) = BlockedNotif \<and> tcb_wait_notif (tcbs s t) = Some n"
    and "l < NUM_PRIOS \<Longrightarrow> bit (ready_bitmap s) l \<longleftrightarrow> R l \<noteq> []"
    and "t \<notin> X \<Longrightarrow> tcb_state (tcbs s t) = Runnable \<or> tcb_state (tcbs s t) = BlockedNotif \<Longrightarrow>
          unat (tcb_priority (tcbs s t)) < NUM_PRIOS"
    and "t \<notin> X \<Longrightarrow> tcb_state (tcbs s t) = BlockedNotif \<Longrightarrow> tcb_wait_notif (tcbs s t) \<noteq> None"
  using assms unfolding sched_rep_def by blast+

lemma sched_repI:
  assumes "\<And>l. l < NUM_PRIOS \<Longrightarrow> ready_q s l (R l)"
    and "\<And>n. wait_q s n (W n)"
    and "\<And>l t. l < NUM_PRIOS \<Longrightarrow> t \<in> set (R l) \<longleftrightarrow>
          t \<notin> X \<and> tcb_state (tcbs s t) = Runnable \<and> unat (tcb_priority (tcbs s t)) = l"
    and "\<And>n t. t \<in> set (W n) \<longleftrightarrow>
          t \<notin> X \<and> tcb_state (tcbs s t) = BlockedNotif \<and> tcb_wait_notif (tcbs s t) = Some n"
    and "\<And>l. l < NUM_PRIOS \<Longrightarrow> bit (ready_bitmap s) l \<longleftrightarrow> R l \<noteq> []"
    and "\<And>t. t \<notin> X \<Longrightarrow> tcb_state (tcbs s t) = Runnable \<or> tcb_state (tcbs s t) = BlockedNotif \<Longrightarrow>
          unat (tcb_priority (tcbs s t)) < NUM_PRIOS"
    and "\<And>t. t \<notin> X \<Longrightarrow> tcb_state (tcbs s t) = BlockedNotif \<Longrightarrow> tcb_wait_notif (tcbs s t) \<noteq> None"
  shows "sched_rep X s R W"
  using assms unfolding sched_rep_def by blast

text \<open>The lists are determined by the store, and a thread is on at most one of them.\<close>

lemma sched_rep_unique:
  assumes "sched_rep X s R W" and "sched_rep X' s R' W'"
  shows "l < NUM_PRIOS \<Longrightarrow> R' l = R l" and "W' n = W n"
  using sched_repD(1,2) [OF assms(1)] sched_repD(1,2) [OF assms(2)]
  unfolding ready_q_def wait_q_def by (metis chain_unique)+

lemma sched_rep_off:
  assumes "sched_rep X s R W" and "t \<in> X"
  shows "l < NUM_PRIOS \<Longrightarrow> t \<notin> set (R l)" and "t \<notin> set (W n)"
  using sched_repD(3,4) [OF assms(1)] assms(2) by blast+

lemma sched_rep_idle_off:
  assumes "sched_rep X s R W"
    and "tcb_state (tcbs s t) \<noteq> Runnable" and "tcb_state (tcbs s t) \<noteq> BlockedNotif"
  shows "sched_rep (insert t X) s R W"
  using assms unfolding sched_rep_def by auto

lemma sched_rep_idle_on:
  assumes "sched_rep X s R W"
    and "tcb_state (tcbs s t) \<noteq> Runnable" and "tcb_state (tcbs s t) \<noteq> BlockedNotif"
  shows "sched_rep (X - {t}) s R W"
  using assms unfolding sched_rep_def by auto

text \<open>At boot nothing is queued.\<close>

lemma sched_rep_init:
  assumes "\<And>t. tcb_state (ts t) \<noteq> Runnable \<and> tcb_state (ts t) \<noteq> BlockedNotif"
  shows "sched_rep {} (store_init css chs ts ass) (\<lambda>_. []) (\<lambda>_. [])"
  using assms by (auto simp: sched_rep_def ready_q_def wait_q_def store_init_def notif_init_def)

lemma sched_rep_blank: "sched_rep {} blank_store (\<lambda>_. []) (\<lambda>_. [])"
  unfolding blank_store_def by (rule sched_rep_init) (simp add: tcb_empty_def)

text \<open>Stores that agree on the queues and on what the threads say.\<close>

lemma sched_rep_frame:
  assumes "sched_rep X s R W"
    and "tcbs s' = tcbs s" and "ready_head s' = ready_head s" and "ready_tail s' = ready_tail s"
    and "ready_bitmap s' = ready_bitmap s"
    and "\<And>n. notif_wait_head (notifs s' n) = notif_wait_head (notifs s n)"
    and "\<And>n. notif_wait_tail (notifs s' n) = notif_wait_tail (notifs s n)"
  shows "sched_rep X s' R W"
  using assms unfolding sched_rep_def ready_q_def wait_q_def by simp

text \<open>Setters the queues do not depend on.\<close>

lemma sched_rep_setters [simp]:
  "sched_rep X (set_obj_refs c r s) R W = sched_rep X s R W"
  "sched_rep X (set_notif_word n w s) R W = sched_rep X s R W"
  "sched_rep X (set_slot k v s) R W = sched_rep X s R W"
  "sched_rep X (upd_chan c fc s) R W = sched_rep X s R W"
  "sched_rep X (upd_timer c ft s) R W = sched_rep X s R W"
  "sched_rep X (upd_irq c fi s) R W = sched_rep X s R W"
  "sched_rep X (set_timer_armed_head h s) R W = sched_rep X s R W"
  "sched_rep X (aspace_unmap a va pages s) R W = sched_rep X s R W"
  "sched_rep X (s\<lparr>slots := m\<rparr>) R W = sched_rep X s R W"
  by (auto simp: sched_rep_def ready_q_def wait_q_def store_defs)

text \<open>A thread in transit may be rewritten freely.\<close>

lemma sched_rep_transit:
  assumes "sched_rep X s R W" and "t \<in> X"
  shows "sched_rep X (upd_tcb t f s) R W"
proof -
  note off = sched_rep_off [OF assms]
  have c: "lseg (\<lambda>x. tcb_qnext (if x = t then f (tcbs s t) else tcbs s x)) h xs q =
      lseg (qnext_of s) h xs q"
    if "t \<notin> set xs" for h xs q
    using that by (intro lseg_cong) auto
  show ?thesis
    using assms unfolding sched_rep_def ready_q_def wait_q_def upd_tcb_def
    by (simp add: c off)
qed

text \<open>Fields of a thread that no queue depends on.\<close>

lemma sched_rep_tcb_other:
  assumes "sched_rep X s R W"
    and "\<And>x. tcb_qnext (f x) = tcb_qnext x" and "\<And>x. tcb_state (f x) = tcb_state x"
    and "\<And>x. tcb_priority (f x) = tcb_priority x"
    and "\<And>x. tcb_wait_notif (f x) = tcb_wait_notif x"
  shows "sched_rep X (upd_tcb t f s) R W"
proof -
  have "qnext_of (upd_tcb t f s) = qnext_of s"
    using assms(2) by (auto simp: upd_tcb_def)
  moreover have "tcb_state (tcbs (upd_tcb t f s) x) = tcb_state (tcbs s x)"
    "tcb_priority (tcbs (upd_tcb t f s) x) = tcb_priority (tcbs s x)"
    "tcb_wait_notif (tcbs (upd_tcb t f s) x) = tcb_wait_notif (tcbs s x)" for x
    using assms(3-5) by (auto simp: upd_tcb_def)
  moreover have "ready_head (upd_tcb t f s) = ready_head s" "ready_tail (upd_tcb t f s) = ready_tail s"
    "ready_bitmap (upd_tcb t f s) = ready_bitmap s" "notifs (upd_tcb t f s) = notifs s"
    by (simp_all add: upd_tcb_def)
  ultimately show ?thesis
    using assms(1) unfolding sched_rep_def ready_q_def wait_q_def by simp
qed

section \<open>What the operations do to the lists\<close>

text \<open>Lists of different keys share no thread.\<close>

lemma queues_disjoint:
  assumes "sched_rep X s R W"
  shows "l < NUM_PRIOS \<Longrightarrow> l' < NUM_PRIOS \<Longrightarrow> l \<noteq> l' \<Longrightarrow> t \<in> set (R l) \<Longrightarrow> t \<notin> set (R l')"
    and "l < NUM_PRIOS \<Longrightarrow> t \<in> set (R l) \<Longrightarrow> t \<notin> set (W n)"
    and "n \<noteq> n' \<Longrightarrow> t \<in> set (W n) \<Longrightarrow> t \<notin> set (W n')"
  using sched_repD(3,4) [OF assms] by auto

lemma ready_last_in:
  assumes "sched_rep X s R W" and "l < NUM_PRIOS" and "ready_tail s l = Some u"
  shows "u \<in> set (R l)"
  using sched_repD(1) [OF assms(1,2)] assms(3) by (auto simp: ready_q_def intro: last_opt_in)

lemma bit_set_level:
  "l < NUM_PRIOS \<Longrightarrow> bit (bm OR 2 ^ p) l \<longleftrightarrow> bit bm l \<or> l = p" for bm :: u32
  by (auto simp: bit_simps NUM_PRIOS_def)

lemma bit_clear_level:
  "l < NUM_PRIOS \<Longrightarrow> bit (bm AND NOT (2 ^ p)) l \<longleftrightarrow> bit bm l \<and> l \<noteq> p" for bm :: u32
  by (auto simp: bit_simps NUM_PRIOS_def)

text \<open>The store after an enqueue, field by field.\<close>

lemma ready_enqueue_fields:
  fixes t s
  defines "p \<equiv> unat (tcb_priority (tcbs s t))"
  assumes "ready_tail s p \<noteq> Some t"
  shows "tcb_qnext (tcbs (ready_enqueue t s) x) =
      (if x = t then None else if ready_tail s p = Some x then Some t else tcb_qnext (tcbs s x))"
    and "ready_head (ready_enqueue t s) =
      (case ready_tail s p of None \<Rightarrow> (ready_head s)(p := Some t) | Some _ \<Rightarrow> ready_head s)"
    and "ready_tail (ready_enqueue t s) = (ready_tail s)(p := Some t)"
    and "ready_bitmap (ready_enqueue t s) = ready_bitmap s OR push_bit p 1"
  using assms(2) unfolding p_def
  by (auto simp: ready_enqueue_def Let_def store_defs fun_eq_iff split: option.splits)

lemma ready_enqueue_frame [simp, frame_simps]:
  "slots (ready_enqueue t s) = slots s" "refs (ready_enqueue t s) = refs s"
  "cspaces (ready_enqueue t s) = cspaces s" "chans (ready_enqueue t s) = chans s"
  "notifs (ready_enqueue t s) = notifs s" "timers (ready_enqueue t s) = timers s"
  "irqs (ready_enqueue t s) = irqs s" "aspaces (ready_enqueue t s) = aspaces s"
  "armed_head (ready_enqueue t s) = armed_head s" "current (ready_enqueue t s) = current s"
  by (auto simp: ready_enqueue_def Let_def store_defs split: option.splits)

lemma ready_enqueue_tcb [simp]:
  "tcb_state (tcbs (ready_enqueue t s) x) = (if x = t then Runnable else tcb_state (tcbs s x))"
  "tcb_priority (tcbs (ready_enqueue t s) x) = tcb_priority (tcbs s x)"
  "tcb_wait_notif (tcbs (ready_enqueue t s) x) = tcb_wait_notif (tcbs s x)"
  "tcb_frame (tcbs (ready_enqueue t s) x) = tcb_frame (tcbs s x)"
  "tcb_report (tcbs (ready_enqueue t s) x) = tcb_report (tcbs s x)"
  "tcb_cspace (tcbs (ready_enqueue t s) x) = tcb_cspace (tcbs s x)"
  "tcb_aspace (tcbs (ready_enqueue t s) x) = tcb_aspace (tcbs s x)"
  "tcb_bind_slot (tcbs (ready_enqueue t s) x) = tcb_bind_slot (tcbs s x)"
  "tcb_bind_bits (tcbs (ready_enqueue t s) x) = tcb_bind_bits (tcbs s x)"
  by (auto simp: ready_enqueue_def Let_def store_defs split: option.splits)

lemma ready_enqueue_rep:
  fixes t s
  defines "p \<equiv> unat (tcb_priority (tcbs s t))"
  assumes rep: "sched_rep X s R W" and t: "t \<in> X" and p: "p < NUM_PRIOS"
  shows "sched_rep (X - {t}) (ready_enqueue t s) (R(p := R p @ [t])) W"
proof -
  note off = sched_rep_off [OF rep t] and dis = queues_disjoint [OF rep]
  have q: "chain (qnext_of s) (ready_head s p) (R p)" "ready_tail s p = last_opt (R p)"
    using sched_repD(1) [OF rep p] by (auto simp: ready_q_def)
  have tl: "ready_tail s p \<noteq> Some t" using ready_last_in [OF rep p] off p by blast
  note fld = ready_enqueue_fields [where t = t and s = s, folded p_def, OF tl]
  have tail_in: "u \<in> set (R p)" if "last_opt (R p) = Some u" for u
    using that by (auto simp: last_opt_Some)
  have other: "lseg (qnext_of (ready_enqueue t s)) h xs None = lseg (qnext_of s) h xs None"
    if "t \<notin> set xs" "\<And>u. last_opt (R p) = Some u \<Longrightarrow> u \<notin> set xs" for h xs
    using that by (intro lseg_cong) (auto simp: fld q split: option.splits)
  have here: "chain (qnext_of (ready_enqueue t s)) (if R p = [] then Some t else ready_head s p) (R p @ [t])"
    by (rule chain_append_tail [OF q(1) off(1) [OF p]])
       (use tl off(1) [OF p] tail_in in \<open>auto simp: fld q split: option.splits\<close>)
  show ?thesis
  proof (rule sched_repI)
    fix l assume l: "l < NUM_PRIOS"
    show "ready_q (ready_enqueue t s) l ((R(p := R p @ [t])) l)"
    proof (cases "l = p")
      case True
      then show ?thesis
        using here q by (auto simp: ready_q_def fld split: option.splits if_splits)
    next
      case False
      have "chain (qnext_of (ready_enqueue t s)) (ready_head s l) (R l)"
        using sched_repD(1) [OF rep l] dis(1) [OF p l] False off(1) [OF l] tail_in
        by (subst other) (auto simp: ready_q_def)
      then show ?thesis
        using sched_repD(1) [OF rep l] False by (auto simp: ready_q_def fld split: option.splits)
    qed
  next
    fix n
    have "chain (qnext_of (ready_enqueue t s)) (notif_wait_head (notifs s n)) (W n)"
      using sched_repD(2) [OF rep] dis(2) [OF p] off(2) tail_in
      by (subst other) (auto simp: wait_q_def)
    then show "wait_q (ready_enqueue t s) n (W n)"
      using sched_repD(2) [OF rep] by (auto simp: wait_q_def)
  next
    fix l u assume l: "l < NUM_PRIOS"
    show "u \<in> set ((R(p := R p @ [t])) l) \<longleftrightarrow> u \<notin> X - {t} \<and>
        tcb_state (tcbs (ready_enqueue t s) u) = Runnable \<and>
        unat (tcb_priority (tcbs (ready_enqueue t s) u)) = l"
      using sched_repD(3) [OF rep l, of u] sched_repD(3) [OF rep p, of u] off(1) [OF l]
      by (cases "u = t"; cases "l = p") (simp_all add: fld p_def)
    show "bit (ready_bitmap (ready_enqueue t s)) l \<longleftrightarrow> (R(p := R p @ [t])) l \<noteq> []"
      using sched_repD(5) [OF rep l] by (simp add: fld bit_set_level [OF l])
  next
    fix n u
    show "u \<in> set (W n) \<longleftrightarrow> u \<notin> X - {t} \<and>
        tcb_state (tcbs (ready_enqueue t s) u) = BlockedNotif \<and>
        tcb_wait_notif (tcbs (ready_enqueue t s) u) = Some n"
      using sched_repD(4) [OF rep, of u n] off(2) by (cases "u = t") (simp_all add: fld)
  next
    fix u assume "u \<notin> X - {t}"
      "tcb_state (tcbs (ready_enqueue t s) u) = Runnable \<or>
       tcb_state (tcbs (ready_enqueue t s) u) = BlockedNotif"
    then show "unat (tcb_priority (tcbs (ready_enqueue t s) u)) < NUM_PRIOS"
      using sched_repD(6) [OF rep, of u] p by (cases "u = t") (simp_all add: fld p_def)
  next
    fix u assume "u \<notin> X - {t}" "tcb_state (tcbs (ready_enqueue t s) u) = BlockedNotif"
    then show "tcb_wait_notif (tcbs (ready_enqueue t s) u) \<noteq> None"
      using sched_repD(7) [OF rep, of u] by (cases "u = t") (simp_all add: fld)
  qed
qed

text \<open>The store after a thread is cut out of its level.\<close>

lemma ready_splice_fields:
  fixes t s
  defines "nx \<equiv> tcb_qnext (tcbs s t)"
  assumes "prev \<noteq> Some t"
  shows "tcb_qnext (tcbs (ready_splice t l prev s) x) =
      (if x = t then None else if prev = Some x then nx else tcb_qnext (tcbs s x))"
    and "ready_head (ready_splice t l prev s) =
      (case prev of None \<Rightarrow> (ready_head s)(l := nx) | Some _ \<Rightarrow> ready_head s)"
    and "ready_tail (ready_splice t l prev s) =
      (if ready_tail s l = Some t then (ready_tail s)(l := prev) else ready_tail s)"
    and "ready_bitmap (ready_splice t l prev s) =
      (if ready_head (ready_splice t l prev s) l = None
       then ready_bitmap s AND NOT (push_bit l 1) else ready_bitmap s)"
  using assms(2) unfolding nx_def
  by (auto simp: ready_splice_def Let_def store_defs fun_eq_iff split: option.splits)

lemma ready_splice_frame [simp, frame_simps]:
  "slots (ready_splice t l prev s) = slots s" "refs (ready_splice t l prev s) = refs s"
  "cspaces (ready_splice t l prev s) = cspaces s" "chans (ready_splice t l prev s) = chans s"
  "notifs (ready_splice t l prev s) = notifs s" "timers (ready_splice t l prev s) = timers s"
  "irqs (ready_splice t l prev s) = irqs s" "aspaces (ready_splice t l prev s) = aspaces s"
  "armed_head (ready_splice t l prev s) = armed_head s"
  "current (ready_splice t l prev s) = current s"
  by (auto simp: ready_splice_def Let_def store_defs split: option.splits)

lemma ready_splice_tcb [simp]:
  "tcb_state (tcbs (ready_splice t l prev s) x) = tcb_state (tcbs s x)"
  "tcb_priority (tcbs (ready_splice t l prev s) x) = tcb_priority (tcbs s x)"
  "tcb_wait_notif (tcbs (ready_splice t l prev s) x) = tcb_wait_notif (tcbs s x)"
  "tcb_frame (tcbs (ready_splice t l prev s) x) = tcb_frame (tcbs s x)"
  "tcb_report (tcbs (ready_splice t l prev s) x) = tcb_report (tcbs s x)"
  "tcb_cspace (tcbs (ready_splice t l prev s) x) = tcb_cspace (tcbs s x)"
  "tcb_aspace (tcbs (ready_splice t l prev s) x) = tcb_aspace (tcbs s x)"
  "tcb_bind_slot (tcbs (ready_splice t l prev s) x) = tcb_bind_slot (tcbs s x)"
  "tcb_bind_bits (tcbs (ready_splice t l prev s) x) = tcb_bind_bits (tcbs s x)"
  by (auto simp: ready_splice_def Let_def store_defs split: option.splits)

lemma ready_splice_rep:
  assumes rep: "sched_rep X s R W" and l: "l < NUM_PRIOS" and R: "R l = xs @ t # ys"
  shows "sched_rep (insert t X) (ready_splice t l (last_opt xs) s) (R(l := xs @ ys)) W"
proof -
  let ?s = "ready_splice t l (last_opt xs) s"
  note dis = queues_disjoint [OF rep]
  have q: "chain (qnext_of s) (ready_head s l) (xs @ t # ys)" "ready_tail s l = last_opt (xs @ t # ys)"
    using sched_repD(1) [OF rep l] R by (auto simp: ready_q_def)
  have d: "distinct (xs @ t # ys)" using q(1) by (rule chain_distinct)
  have prev: "last_opt xs \<noteq> Some t" using d by (auto simp: last_opt_Some)
  note fld = ready_splice_fields [OF prev]
  have prev_in: "u \<in> set (R l)" if "last_opt xs = Some u" for u
    using that R by (auto simp: last_opt_Some)
  have t_in: "t \<in> set (R l)" using R by simp
  have other: "lseg (qnext_of ?s) h zs None = lseg (qnext_of s) h zs None"
    if "t \<notin> set zs" "\<And>u. last_opt xs = Some u \<Longrightarrow> u \<notin> set zs" for h zs
    using that by (intro lseg_cong) (auto simp: fld split: option.splits)
  have here: "chain (qnext_of ?s)
      (if xs = [] then tcb_qnext (tcbs s t) else ready_head s l) (xs @ ys)"
    by (rule chain_remove [OF q(1)]) (use d prev in \<open>auto simp: ready_splice_fields\<close>)
  have hd: "ready_head ?s l = (if xs = [] then tcb_qnext (tcbs s t) else ready_head s l)"
    by (auto simp: fld split: option.splits)
  have hd_None: "ready_head ?s l = None \<longleftrightarrow> xs @ ys = []"
    using chain_head [OF here] unfolding hd [symmetric] by simp
  have tl: "ready_tail ?s l = last_opt (xs @ ys)"
    using q(2) d by (auto simp: fld last_opt_remove [of xs ys t] last_opt_Some split: if_splits)
  show ?thesis
  proof (rule sched_repI)
    fix k assume k: "k < NUM_PRIOS"
    show "ready_q ?s k ((R(l := xs @ ys)) k)"
    proof (cases "k = l")
      case True
      then show ?thesis using here hd tl by (simp add: ready_q_def)
    next
      case False
      have "chain (qnext_of ?s) (ready_head s k) (R k)"
        using sched_repD(1) [OF rep k] dis(1) [OF l k] False prev_in t_in
        by (subst other) (auto simp: ready_q_def)
      then show ?thesis
        using sched_repD(1) [OF rep k] False by (auto simp: ready_q_def fld split: option.splits)
    qed
    show "bit (ready_bitmap ?s) k \<longleftrightarrow> (R(l := xs @ ys)) k \<noteq> []"
      using sched_repD(5) [OF rep k] R hd_None
      by (auto simp: fld(4) bit_clear_level [OF k])
  next
    fix n
    have "chain (qnext_of ?s) (notif_wait_head (notifs s n)) (W n)"
      using sched_repD(2) [OF rep] dis(2) [OF l] prev_in t_in
      by (subst other) (auto simp: wait_q_def)
    then show "wait_q ?s n (W n)"
      using sched_repD(2) [OF rep] by (auto simp: wait_q_def)
  next
    fix k u assume k: "k < NUM_PRIOS"
    have "u \<in> set (xs @ ys) \<longleftrightarrow> u \<in> set (R l) \<and> u \<noteq> t" using R d by auto
    then show "u \<in> set ((R(l := xs @ ys)) k) \<longleftrightarrow> u \<notin> insert t X \<and>
        tcb_state (tcbs ?s u) = Runnable \<and> unat (tcb_priority (tcbs ?s u)) = k"
      using sched_repD(3) [OF rep k] sched_repD(3) [OF rep l] t_in by (auto simp: fld)
  next
    fix n u
    show "u \<in> set (W n) \<longleftrightarrow> u \<notin> insert t X \<and>
        tcb_state (tcbs ?s u) = BlockedNotif \<and> tcb_wait_notif (tcbs ?s u) = Some n"
      using sched_repD(4) [OF rep] dis(2) [OF l t_in] by (auto simp: fld)
  qed (use sched_repD(6-7) [OF rep] in \<open>auto simp: fld\<close>)
qed

lemma ready_dequeue_empty:
  assumes "sched_rep X s R W" and "l < NUM_PRIOS" and "R l = []"
  shows "ready_dequeue l s = (None, s)"
  using sched_repD(1) [OF assms(1,2)] assms(3) by (simp add: ready_q_def ready_dequeue_def)

text \<open>Dequeuing is cutting out the head.\<close>

lemma ready_dequeue_splice:
  assumes "sched_rep X s R W" and "l < NUM_PRIOS" and "R l = t # ys"
  shows "ready_dequeue l s = (Some t, ready_splice t l None s)"
proof -
  have q: "ready_head s l = Some t" "chain (qnext_of s) (tcb_qnext (tcbs s t)) ys"
    "ready_tail s l = last_opt (t # ys)" "distinct (t # ys)"
    using sched_repD(1) [OF assms(1,2)] assms(3) chain_distinct [of "qnext_of s" "ready_head s l" "t # ys"]
    by (auto simp: ready_q_def)
  show ?thesis
  proof (cases ys)
    case Nil
    then show ?thesis
      using q by (simp add: ready_dequeue_def ready_splice_def Let_def store_defs)
  next
    case (Cons y zs)
    then have "last_opt (t # ys) \<noteq> Some t" using q(4) by (auto dest: last_opt_in)
    then show ?thesis
      using q Cons by (simp add: ready_dequeue_def ready_splice_def Let_def store_defs)
  qed
qed

lemma ready_dequeue_rep:
  assumes "sched_rep X s R W" and "l < NUM_PRIOS" and "R l = t # ys"
  shows "sched_rep (insert t X) (snd (ready_dequeue l s)) (R(l := ys)) W"
  using ready_splice_rep [OF assms(1,2), of "[]" t ys] assms(3)
  by (simp add: ready_dequeue_splice [OF assms])

lemma ready_unqueue_rep:
  fixes t s
  defines "p \<equiv> unat (tcb_priority (tcbs s t))"
  assumes "sched_rep X s R W" and "t \<notin> X" and "tcb_state (tcbs s t) = Runnable"
  shows "\<exists>s'. ready_unqueue t s = Some s' \<and> sched_rep (insert t X) s' (R(p := remove1 t (R p))) W \<and>
    (\<exists>prev. s' = ready_splice t p prev s \<and> prev \<noteq> Some t)"
proof -
  have p: "p < NUM_PRIOS" using sched_repD(6) [OF assms(2,3)] assms(4) by (simp add: p_def)
  then have "t \<in> set (R p)" using sched_repD(3) [OF assms(2) p, of t] assms(3,4) by (simp add: p_def)
  then obtain xs ys where R: "R p = xs @ t # ys" by (meson split_list)
  have c: "chain (qnext_of s) (ready_head s p) (xs @ t # ys)"
    using sched_repD(1) [OF assms(2) p] R by (simp add: ready_q_def)
  have t: "t \<notin> set xs" using chain_distinct [OF c] by simp
  have "remove1 t (R p) = xs @ ys" using R t by (simp add: remove1_append)
  then have "sched_rep (insert t X) (ready_splice t p (last_opt xs) s) (R(p := remove1 t (R p))) W"
    using ready_splice_rep [OF assms(2) p R] by simp
  moreover have "ready_unqueue t s = Some (ready_splice t p (last_opt xs) s)"
    using find_link_found [OF c] by (simp add: ready_unqueue_def p_def)
  moreover have "last_opt xs \<noteq> Some t" using t by (auto dest: last_opt_in)
  ultimately show ?thesis by blast
qed

lemma ready_unqueue_missing:
  fixes t s
  defines "p \<equiv> unat (tcb_priority (tcbs s t))"
  assumes "sched_rep X s R W" and "p < NUM_PRIOS" and "t \<notin> set (R p)"
  shows "ready_unqueue t s = Some s"
proof -
  have "find_link (qnext_of s) t None (ready_head s p) = Some None"
    using sched_repD(1) [OF assms(2,3)] assms(4) unfolding ready_q_def
    by (blast intro: find_link_missing)
  then show ?thesis by (simp add: ready_unqueue_def p_def)
qed

text \<open>The scan of the bitmap: the highest non-empty level.\<close>

lemma bit_u32_level: "bit bm i \<Longrightarrow> i < NUM_PRIOS" for bm :: u32
  using bit_imp_le_length [of bm i] by (simp add: NUM_PRIOS_def)

lemma top_ready_None:
  assumes "sched_rep X s R W"
  shows "top_ready s = None \<longleftrightarrow> (\<forall>l < NUM_PRIOS. R l = [])"
proof -
  have "ready_bitmap s = 0 \<longleftrightarrow> (\<forall>l < NUM_PRIOS. \<not> bit (ready_bitmap s) l)"
    by (auto simp: bit_eq_iff NUM_PRIOS_def)
  then show ?thesis using sched_repD(5) [OF assms] by (simp add: top_ready_def)
qed

lemma top_ready_Some:
  assumes "sched_rep X s R W"
  shows "top_ready s = Some l \<longleftrightarrow>
    l < NUM_PRIOS \<and> R l \<noteq> [] \<and> (\<forall>k < NUM_PRIOS. l < k \<longrightarrow> R k = [])"
    (is "?L \<longleftrightarrow> ?R")
proof -
  have hi: "bit (ready_bitmap s) m \<and> (\<forall>k. m < k \<longrightarrow> \<not> bit (ready_bitmap s) k)"
    if "top_ready s = Some m" for m
    using that leading_zeros_highest [of "ready_bitmap s"]
    by (auto simp: top_ready_def Let_def split: if_splits)
  note b = sched_repD(5) [OF assms]
  show ?thesis
  proof
    assume ?L
    then show ?R using hi [of l] b bit_u32_level by blast
  next
    assume R: ?R
    then have "top_ready s \<noteq> None" using top_ready_None [OF assms] by blast
    then obtain m where m: "top_ready s = Some m" by blast
    have "m = l"
    proof (rule ccontr)
      assume "m \<noteq> l"
      then consider "m < l" | "l < m" by linarith
      then show False using R b hi [OF m] bit_u32_level by (cases; blast)
    qed
    with m show ?L by simp
  qed
qed

section \<open>A ready level is a first-in first-out queue\<close>

text \<open>
  The scheduler takes a thread off a level and marks it \<open>Running\<close>; a thread is put on a
  level when it is neither runnable nor blocked.
\<close>

definition ready_take :: "nat \<Rightarrow> kstore \<Rightarrow> (obj_id \<times> kstore) option" where
  "ready_take l s =
     (case ready_dequeue l s of
        (None, _) \<Rightarrow> None
      | (Some t, s') \<Rightarrow> Some (t, set_tcb_state t Running s'))"

definition ready_items :: "nat \<Rightarrow> kstore \<Rightarrow> obj_id list" where
  "ready_items l s = the (collect (qnext_of s) (ready_head s l))"

definition ready_ok :: "nat \<Rightarrow> obj_id \<Rightarrow> kstore \<Rightarrow> bool" where
  "ready_ok l t s \<longleftrightarrow>
     tcb_state (tcbs s t) \<noteq> Runnable \<and> tcb_state (tcbs s t) \<noteq> BlockedNotif \<and>
     unat (tcb_priority (tcbs s t)) = l"

definition level_wf :: "nat \<Rightarrow> kstore \<Rightarrow> bool" where
  "level_wf l s \<longleftrightarrow> l < NUM_PRIOS \<and> sched_wf s"

lemma ready_items_rep:
  assumes "sched_rep X s R W" and "l < NUM_PRIOS"
  shows "ready_items l s = R l"
  using sched_repD(1) [OF assms] by (auto simp: ready_q_def ready_items_def dest: collect_chain)

lemma make_runnable_rep:
  assumes "sched_rep {} s R W" and "ready_ok l t s" and "l < NUM_PRIOS"
  shows "sched_rep {} (make_runnable t s) (R(l := R l @ [t])) W"
  using ready_enqueue_rep [OF sched_rep_idle_off [OF assms(1)], of t t] assms(2,3)
  by (simp add: ready_ok_def make_runnable_def)

lemma set_state_idle_rep:
  assumes "sched_rep (insert t X) s R W" and "v \<noteq> Runnable" and "v \<noteq> BlockedNotif" and "t \<notin> X"
  shows "sched_rep X (set_tcb_state t v s) R W"
proof -
  have "sched_rep (insert t X) (set_tcb_state t v s) R W"
    unfolding set_tcb_state_def by (rule sched_rep_transit [OF assms(1)]) simp
  then have "sched_rep (insert t X - {t}) (set_tcb_state t v s) R W"
    by (rule sched_rep_idle_on) (use assms(2,3) in \<open>simp_all add: store_defs\<close>)
  then show ?thesis using assms(4) by simp
qed

lemma ready_take_rep:
  assumes "sched_rep {} s R W" and "l < NUM_PRIOS" and "R l = t # ys"
  shows "\<exists>s'. ready_take l s = Some (t, s') \<and> sched_rep {} s' (R(l := ys)) W \<and>
    tcb_state (tcbs s' t) = Running"
  using set_state_idle_rep [OF ready_dequeue_rep [OF assms], of Running]
  by (simp add: ready_take_def ready_dequeue_splice [OF assms] store_defs)

interpretation level: fifo "level_wf l" "ready_items l" "ready_ok l" make_runnable "ready_take l"
  for l
proof
  fix s t
  assume "level_wf l s" and ok: "ready_ok l t s"
  then obtain R W where rep: "sched_rep {} s R W" and l: "l < NUM_PRIOS"
    by (auto simp: level_wf_def sched_wf_def)
  note mr = make_runnable_rep [OF rep ok l]
  show "level_wf l (make_runnable t s)"
    using mr l by (auto simp: level_wf_def sched_wf_def)
  show "ready_items l (make_runnable t s) = ready_items l s @ [t]"
    by (simp add: ready_items_rep [OF rep l] ready_items_rep [OF mr l])
next
  fix s
  assume "level_wf l s" and "ready_items l s = []"
  then obtain R W where rep: "sched_rep {} s R W" and l: "l < NUM_PRIOS" and "R l = []"
    by (auto simp: level_wf_def sched_wf_def ready_items_rep)
  then show "ready_take l s = None"
    by (simp add: ready_take_def ready_dequeue_empty [OF rep])
next
  fix s t ts
  assume "level_wf l s" and "ready_items l s = t # ts"
  then obtain R W where rep: "sched_rep {} s R W" and l: "l < NUM_PRIOS" and R: "R l = t # ts"
    by (auto simp: level_wf_def sched_wf_def ready_items_rep)
  obtain s' where s': "ready_take l s = Some (t, s')" "sched_rep {} s' (R(l := ts)) W"
    using ready_take_rep [OF rep l R] by blast
  then have "level_wf l s'" "ready_items l s' = ts"
    using l by (auto simp: level_wf_def sched_wf_def ready_items_rep [OF s'(2) l])
  with s'(1) show "\<exists>s'. ready_take l s = Some (t, s') \<and> level_wf l s' \<and> ready_items l s' = ts"
    by blast
qed

end
