(* ===== verification/Notifs.thy ===== *)
theory Notifs
  imports Ready
begin

text \<open>
  Notifications (\<open>kcore/src/notification.rs\<close>): a word of event bits and a queue of blocked
  threads. A signal accumulates bits, or delivers the whole word to the first waiter; a
  wait takes the word, or appends the caller to the queue. Every waiter holds one reference
  on the notification.
\<close>

section \<open>Operations\<close>

definition signal :: "obj_id \<Rightarrow> u64 \<Rightarrow> kstore \<Rightarrow> kstore" where
  "signal n bits s =
     (let word = notif_word (notifs s n) OR bits;
          s = set_notif_word n word s
      in case notif_wait_head (notifs s n) of
           None \<Rightarrow> s
         | Some t \<Rightarrow>
             if word = 0 then s
             else let next = tcb_qnext (tcbs s t);
                      s = set_notif_wait_head n next s;
                      s = (if next = None then set_notif_wait_tail n None s else s);
                      s = set_tcb_qnext t None s;
                      s = set_tcb_wait_notif t None s;
                      s = set_tcb_retval t word s;
                      s = set_notif_word n 0 s;
                      s = set_obj_refs n (refs s n - 1) s
                  in make_runnable t s)"

definition notif_wait :: "obj_id \<Rightarrow> obj_id \<Rightarrow> kstore \<Rightarrow> u64 option \<times> kstore" where
  "notif_wait n cur s =
     (let word = notif_word (notifs s n) in
      if word \<noteq> 0 then (Some word, set_notif_word n 0 s)
      else let s = set_tcb_state cur BlockedNotif s;
               s = set_tcb_wait_notif cur (Some n) s;
               s = set_tcb_qnext cur None s;
               s = (case notif_wait_tail (notifs s n) of
                      None \<Rightarrow> set_notif_wait_head n (Some cur) s
                    | Some tail \<Rightarrow> set_tcb_qnext tail (Some cur) s);
               s = set_notif_wait_tail n (Some cur) s
           in (None, set_obj_refs n (refs s n + 1) s))"

definition destroy_notif :: "obj_id \<Rightarrow> kstore \<Rightarrow> kstore" where
  "destroy_notif n s = s"

text \<open>
  \<open>remove_waiter\<close> walks the queue with the running predecessor; \<open>wait_splice\<close> is the part
  of its body that cuts the found thread out of the queue.
\<close>

definition wait_splice :: "obj_id \<Rightarrow> obj_id \<Rightarrow> obj_id option \<Rightarrow> kstore \<Rightarrow> kstore" where
  "wait_splice n t prev s =
     (let next = tcb_qnext (tcbs s t);
          s = (case prev of
                 None \<Rightarrow> set_notif_wait_head n next s
               | Some p \<Rightarrow> set_tcb_qnext p next s);
          s = (if notif_wait_tail (notifs s n) = Some t then set_notif_wait_tail n prev s else s)
      in set_tcb_qnext t None s)"

definition remove_waiter :: "obj_id \<Rightarrow> obj_id \<Rightarrow> kstore \<Rightarrow> kstore option" where
  "remove_waiter n t s =
     do { found \<leftarrow> find_link (\<lambda>x. tcb_qnext (tcbs s x)) t None (notif_wait_head (notifs s n));
          Some (case found of
                  None \<Rightarrow> s
                | Some prev \<Rightarrow>
                    let s = wait_splice n t prev s;
                        s = set_tcb_wait_notif t None s
                    in set_obj_refs n (refs s n - 1) s) }"

section \<open>The wait queues\<close>

lemma wait_splice_fields:
  fixes t s
  defines "nx \<equiv> tcb_qnext (tcbs s t)"
  assumes "prev \<noteq> Some t"
  shows "tcb_qnext (tcbs (wait_splice n t prev s) x) =
      (if x = t then None else if prev = Some x then nx else tcb_qnext (tcbs s x))"
    and "notif_wait_head (notifs (wait_splice n t prev s) m) =
      (if m = n \<and> prev = None then nx else notif_wait_head (notifs s m))"
    and "notif_wait_tail (notifs (wait_splice n t prev s) m) =
      (if m = n \<and> notif_wait_tail (notifs s n) = Some t then prev else notif_wait_tail (notifs s m))"
    and "notif_word (notifs (wait_splice n t prev s) m) = notif_word (notifs s m)"
  using assms(2) unfolding nx_def
  by (auto simp: wait_splice_def Let_def store_defs split: option.splits)

lemma wait_splice_frame [simp, frame_simps]:
  "slots (wait_splice n t prev s) = slots s" "refs (wait_splice n t prev s) = refs s"
  "cspaces (wait_splice n t prev s) = cspaces s" "chans (wait_splice n t prev s) = chans s"
  "timers (wait_splice n t prev s) = timers s" "irqs (wait_splice n t prev s) = irqs s"
  "aspaces (wait_splice n t prev s) = aspaces s" "armed_head (wait_splice n t prev s) = armed_head s"
  "ready_head (wait_splice n t prev s) = ready_head s"
  "ready_tail (wait_splice n t prev s) = ready_tail s"
  "ready_bitmap (wait_splice n t prev s) = ready_bitmap s"
  "current (wait_splice n t prev s) = current s"
  by (auto simp: wait_splice_def Let_def store_defs split: option.splits)

lemma wait_splice_tcb [simp]:
  "tcb_state (tcbs (wait_splice n t prev s) x) = tcb_state (tcbs s x)"
  "tcb_priority (tcbs (wait_splice n t prev s) x) = tcb_priority (tcbs s x)"
  "tcb_wait_notif (tcbs (wait_splice n t prev s) x) = tcb_wait_notif (tcbs s x)"
  "tcb_frame (tcbs (wait_splice n t prev s) x) = tcb_frame (tcbs s x)"
  "tcb_report (tcbs (wait_splice n t prev s) x) = tcb_report (tcbs s x)"
  "tcb_cspace (tcbs (wait_splice n t prev s) x) = tcb_cspace (tcbs s x)"
  "tcb_aspace (tcbs (wait_splice n t prev s) x) = tcb_aspace (tcbs s x)"
  "tcb_bind_slot (tcbs (wait_splice n t prev s) x) = tcb_bind_slot (tcbs s x)"
  "tcb_bind_bits (tcbs (wait_splice n t prev s) x) = tcb_bind_bits (tcbs s x)"
  by (auto simp: wait_splice_def Let_def store_defs split: option.splits)

lemma wait_splice_rep:
  assumes rep: "sched_rep X s R W" and W: "W n = xs @ t # ys"
  shows "sched_rep (insert t X) (wait_splice n t (last_opt xs) s) R (W(n := xs @ ys))"
proof -
  let ?s = "wait_splice n t (last_opt xs) s"
  note dis = queues_disjoint [OF rep]
  have q: "chain (qnext_of s) (notif_wait_head (notifs s n)) (xs @ t # ys)"
    "notif_wait_tail (notifs s n) = last_opt (xs @ t # ys)"
    using sched_repD(2) [OF rep, of n] W by (auto simp: wait_q_def)
  have d: "distinct (xs @ t # ys)" using q(1) by (rule chain_distinct)
  have prev: "last_opt xs \<noteq> Some t" using d by (auto simp: last_opt_Some)
  note fld = wait_splice_fields [OF prev]
  have prev_in: "u \<in> set (W n)" if "last_opt xs = Some u" for u
    using that W by (auto simp: last_opt_Some)
  have t_in: "t \<in> set (W n)" using W by simp
  have other: "lseg (qnext_of ?s) h zs None = lseg (qnext_of s) h zs None"
    if "t \<notin> set zs" "\<And>u. last_opt xs = Some u \<Longrightarrow> u \<notin> set zs" for h zs
    using that by (intro lseg_cong) (auto simp: fld)
  have here: "chain (qnext_of ?s)
      (if xs = [] then tcb_qnext (tcbs s t) else notif_wait_head (notifs s n)) (xs @ ys)"
    by (rule chain_remove [OF q(1)]) (use d prev in \<open>auto simp: wait_splice_fields\<close>)
  have tl: "notif_wait_tail (notifs ?s n) = last_opt (xs @ ys)"
    using q(2) d by (auto simp: fld last_opt_remove [of xs ys t] last_opt_Some split: if_splits)
  show ?thesis
  proof (rule sched_repI)
    fix k assume k: "k < NUM_PRIOS"
    have "chain (qnext_of ?s) (ready_head s k) (R k)"
      using sched_repD(1) [OF rep k] dis(2) [OF k] prev_in t_in
      by (subst other) (auto simp: ready_q_def)
    then show "ready_q ?s k (R k)"
      using sched_repD(1) [OF rep k] by (auto simp: ready_q_def)
    show "bit (ready_bitmap ?s) k \<longleftrightarrow> R k \<noteq> []"
      using sched_repD(5) [OF rep k] by simp
  next
    fix m
    show "wait_q ?s m ((W(n := xs @ ys)) m)"
    proof (cases "m = n")
      case True
      then show ?thesis using here tl by (simp add: wait_q_def fld)
    next
      case False
      have "chain (qnext_of ?s) (notif_wait_head (notifs s m)) (W m)"
        using sched_repD(2) [OF rep, of m] dis(3) [of n m] False prev_in t_in
        by (subst other) (auto simp: wait_q_def)
      then show ?thesis
        using sched_repD(2) [OF rep, of m] False by (auto simp: wait_q_def fld)
    qed
  next
    fix k u assume k: "k < NUM_PRIOS"
    show "u \<in> set (R k) \<longleftrightarrow> u \<notin> insert t X \<and>
        tcb_state (tcbs ?s u) = Runnable \<and> unat (tcb_priority (tcbs ?s u)) = k"
      using sched_repD(3) [OF rep k, of u] dis(2) [OF k, of t n] t_in by auto
  next
    fix m u
    have "u \<in> set (xs @ ys) \<longleftrightarrow> u \<in> set (W n) \<and> u \<noteq> t" using W d by auto
    then show "u \<in> set ((W(n := xs @ ys)) m) \<longleftrightarrow> u \<notin> insert t X \<and>
        tcb_state (tcbs ?s u) = BlockedNotif \<and> tcb_wait_notif (tcbs ?s u) = Some m"
      using sched_repD(4) [OF rep, of u m] sched_repD(4) [OF rep, of t] t_in by auto
  qed (use sched_repD(6-7) [OF rep] in auto)
qed

section \<open>Signal\<close>

lemma signal_no_waiter:
  assumes "sched_rep X s R W" and "W n = [] \<or> notif_word (notifs s n) OR bits = 0"
  shows "signal n bits s = set_notif_word n (notif_word (notifs s n) OR bits) s"
proof -
  have "notif_wait_head (notifs s n) = head_opt (W n)"
    using sched_repD(2) [OF assms(1), of n] chain_head by (auto simp: wait_q_def)
  then show ?thesis using assms(2)
    by (auto simp: signal_def Let_def store_defs split: option.splits)
qed

text \<open>The store after a delivery: the waiter leaves the queue, gets the word and is enqueued.\<close>

definition delivered :: "obj_id \<Rightarrow> obj_id \<Rightarrow> u64 \<Rightarrow> kstore \<Rightarrow> kstore" where
  "delivered n t word s =
     set_obj_refs n (refs s n - 1) (set_notif_word n 0
       (set_tcb_retval t word (set_tcb_wait_notif t None (wait_splice n t None s))))"

lemma signal_delivers:
  assumes "sched_rep X s R W" and "W n = t # ys" and "notif_word (notifs s n) OR bits \<noteq> 0"
  shows "signal n bits s = make_runnable t (delivered n t (notif_word (notifs s n) OR bits) s)"
proof -
  have q: "notif_wait_head (notifs s n) = Some t" "chain (qnext_of s) (tcb_qnext (tcbs s t)) ys"
    "notif_wait_tail (notifs s n) = last_opt (t # ys)" "distinct (t # ys)"
    using sched_repD(2) [OF assms(1), of n] assms(2)
      chain_distinct [of "qnext_of s" "notif_wait_head (notifs s n)" "t # ys"]
    by (auto simp: wait_q_def)
  have "tcb_qnext (tcbs s t) = head_opt ys" using q(2) by (rule chain_head)
  then have "notif_wait_tail (notifs s n) = Some t \<longleftrightarrow> tcb_qnext (tcbs s t) = None"
    using q(3,4) by (cases ys) (auto dest: last_opt_in)
  then show ?thesis
    using q(1) assms(3)
    by (cases "tcb_qnext (tcbs s t)")
       (simp_all add: signal_def delivered_def wait_splice_def Let_def store_defs)
qed

lemma delivered_rep:
  assumes "sched_rep X s R W" and "W n = t # ys"
  shows "sched_rep (insert t X) (delivered n t word s) R (W(n := ys))"
  using wait_splice_rep [OF assms(1), of n "[]" t ys] assms(2)
  by (simp add: delivered_def set_tcb_retval_def set_tcb_wait_notif_def sched_rep_transit)

lemma delivered_priority [simp]:
  "tcb_priority (tcbs (delivered n t word s) x) = tcb_priority (tcbs s x)"
  by (simp add: delivered_def store_defs)

lemma signal_delivers_rep:
  assumes "sched_rep X s R W" and "W n = t # ys" and "notif_word (notifs s n) OR bits \<noteq> 0"
  shows "\<exists>p < NUM_PRIOS. p = unat (tcb_priority (tcbs s t)) \<and>
    sched_rep X (signal n bits s) (R(p := R p @ [t])) (W(n := ys))"
proof -
  have t: "t \<notin> X" "tcb_state (tcbs s t) = BlockedNotif"
    using sched_repD(4) [OF assms(1), of t n] assms(2) by auto
  let ?p = "unat (tcb_priority (tcbs s t))"
  have p: "?p < NUM_PRIOS" using sched_repD(6) [OF assms(1) t(1)] t(2) by simp
  have "sched_rep (insert t X - {t}) (signal n bits s) (R(?p := R ?p @ [t])) (W(n := ys))"
    using ready_enqueue_rep [OF delivered_rep [OF assms(1,2)], of t "notif_word (notifs s n) OR bits"] p
    by (simp add: signal_delivers [OF assms] make_runnable_def)
  then show ?thesis using p t(1) by simp
qed

lemma signal_rep:
  assumes "sched_rep X s R W"
  shows "\<exists>R' W'. sched_rep X (signal n bits s) R' W'"
proof (cases "W n = [] \<or> notif_word (notifs s n) OR bits = 0")
  case True
  then show ?thesis using assms signal_no_waiter [OF assms] by auto
next
  case False
  then obtain t ys where "W n = t # ys" by (cases "W n") auto
  then show ?thesis using signal_delivers_rep [OF assms] False by blast
qed

lemma signal_frame [simp, frame_simps]:
  "slots (signal n bits s) = slots s" "cspaces (signal n bits s) = cspaces s"
  "chans (signal n bits s) = chans s" "timers (signal n bits s) = timers s"
  "irqs (signal n bits s) = irqs s" "aspaces (signal n bits s) = aspaces s"
  "armed_head (signal n bits s) = armed_head s" "current (signal n bits s) = current s"
  by (auto simp: signal_def make_runnable_def Let_def store_defs split: option.splits)

lemma signal_tcb [simp]:
  "tcb_priority (tcbs (signal n bits s) x) = tcb_priority (tcbs s x)"
  "tcb_report (tcbs (signal n bits s) x) = tcb_report (tcbs s x)"
  "tcb_cspace (tcbs (signal n bits s) x) = tcb_cspace (tcbs s x)"
  "tcb_aspace (tcbs (signal n bits s) x) = tcb_aspace (tcbs s x)"
  "tcb_bind_slot (tcbs (signal n bits s) x) = tcb_bind_slot (tcbs s x)"
  "tcb_bind_bits (tcbs (signal n bits s) x) = tcb_bind_bits (tcbs s x)"
  by (auto simp: signal_def make_runnable_def Let_def store_defs split: option.splits)

lemma signal_refs_other: "m \<noteq> n \<Longrightarrow> refs (signal n bits s) m = refs s m"
  by (auto simp: signal_def make_runnable_def Let_def store_defs split: option.splits)

section \<open>Wait\<close>

lemma notif_wait_fields:
  fixes n s
  assumes "notif_word (notifs s n) = 0" and "notif_wait_tail (notifs s n) \<noteq> Some t"
  defines "s' \<equiv> snd (notif_wait n t s)"
  shows "fst (notif_wait n t s) = None"
    and "tcb_qnext (tcbs s' x) =
      (if x = t then None else if notif_wait_tail (notifs s n) = Some x then Some t
       else tcb_qnext (tcbs s x))"
    and "notif_wait_head (notifs s' m) =
      (if m = n \<and> notif_wait_tail (notifs s n) = None then Some t else notif_wait_head (notifs s m))"
    and "notif_wait_tail (notifs s' m) = (if m = n then Some t else notif_wait_tail (notifs s m))"
    and "notif_word (notifs s' m) = notif_word (notifs s m)"
    and "refs s' = (refs s)(n := refs s n + 1)"
    and "tcb_state (tcbs s' x) = (if x = t then BlockedNotif else tcb_state (tcbs s x))"
    and "tcb_wait_notif (tcbs s' x) = (if x = t then Some n else tcb_wait_notif (tcbs s x))"
    and "tcb_priority (tcbs s' x) = tcb_priority (tcbs s x)"
    and "ready_head s' = ready_head s" and "ready_tail s' = ready_tail s"
    and "ready_bitmap s' = ready_bitmap s"
  using assms(1,2) unfolding s'_def
  by (auto simp: notif_wait_def Let_def store_defs fun_eq_iff split: option.splits)

lemma notif_wait_rep:
  fixes n t s
  defines "s' \<equiv> snd (notif_wait n t s)"
  assumes rep: "sched_rep X s R W" and t: "t \<in> X" and w: "notif_word (notifs s n) = 0"
    and p: "unat (tcb_priority (tcbs s t)) < NUM_PRIOS"
  shows "sched_rep (X - {t}) s' R (W(n := W n @ [t]))"
proof -
  note off = sched_rep_off [OF rep t] and dis = queues_disjoint [OF rep]
  have q: "chain (qnext_of s) (notif_wait_head (notifs s n)) (W n)"
    "notif_wait_tail (notifs s n) = last_opt (W n)"
    using sched_repD(2) [OF rep, of n] by (auto simp: wait_q_def)
  have tl: "notif_wait_tail (notifs s n) \<noteq> Some t" using q(2) off(2) last_opt_in by metis
  note fld = notif_wait_fields [OF w tl, folded s'_def]
  have tail_in: "u \<in> set (W n)" if "last_opt (W n) = Some u" for u
    using that by (rule last_opt_in)
  have other: "lseg (qnext_of s') h xs None = lseg (qnext_of s) h xs None"
    if "t \<notin> set xs" "\<And>u. last_opt (W n) = Some u \<Longrightarrow> u \<notin> set xs" for h xs
    using that by (intro lseg_cong) (auto simp: fld q)
  have here: "chain (qnext_of s') (if W n = [] then Some t else notif_wait_head (notifs s n)) (W n @ [t])"
    by (rule chain_append_tail [OF q(1) off(2)]) (use tl off(2) tail_in in \<open>auto simp: fld q\<close>)
  show ?thesis
  proof (rule sched_repI)
    fix k assume k: "k < NUM_PRIOS"
    have "chain (qnext_of s') (ready_head s k) (R k)"
      using sched_repD(1) [OF rep k] dis(2) [OF k] off(1) [OF k] tail_in
      by (subst other) (auto simp: ready_q_def)
    then show "ready_q s' k (R k)"
      using sched_repD(1) [OF rep k] by (auto simp: ready_q_def fld)
    show "bit (ready_bitmap s') k \<longleftrightarrow> R k \<noteq> []"
      using sched_repD(5) [OF rep k] by (simp add: fld)
  next
    fix m
    show "wait_q s' m ((W(n := W n @ [t])) m)"
    proof (cases "m = n")
      case True
      then show ?thesis using here q by (auto simp: wait_q_def fld split: if_splits)
    next
      case False
      have "chain (qnext_of s') (notif_wait_head (notifs s m)) (W m)"
        using sched_repD(2) [OF rep, of m] dis(3) [of n m] False off(2) tail_in
        by (subst other) (auto simp: wait_q_def)
      then show ?thesis
        using sched_repD(2) [OF rep, of m] False by (auto simp: wait_q_def fld)
    qed
  next
    fix k u assume k: "k < NUM_PRIOS"
    show "u \<in> set (R k) \<longleftrightarrow> u \<notin> X - {t} \<and>
        tcb_state (tcbs s' u) = Runnable \<and> unat (tcb_priority (tcbs s' u)) = k"
      using sched_repD(3) [OF rep k, of u] off(1) [OF k] by (cases "u = t") (simp_all add: fld)
  next
    fix m u
    show "u \<in> set ((W(n := W n @ [t])) m) \<longleftrightarrow> u \<notin> X - {t} \<and>
        tcb_state (tcbs s' u) = BlockedNotif \<and> tcb_wait_notif (tcbs s' u) = Some m"
      using sched_repD(4) [OF rep, of u m] off(2) by (cases "u = t"; cases "m = n") (simp_all add: fld)
  next
    fix u assume "u \<notin> X - {t}"
      "tcb_state (tcbs s' u) = Runnable \<or> tcb_state (tcbs s' u) = BlockedNotif"
    then show "unat (tcb_priority (tcbs s' u)) < NUM_PRIOS"
      using sched_repD(6) [OF rep, of u] p by (cases "u = t") (simp_all add: fld)
  next
    fix u assume "u \<notin> X - {t}" "tcb_state (tcbs s' u) = BlockedNotif"
    then show "tcb_wait_notif (tcbs s' u) \<noteq> None"
      using sched_repD(7) [OF rep, of u] by (cases "u = t") (simp_all add: fld)
  qed
qed

section \<open>Removing a waiter\<close>

lemma remove_waiter_rep:
  assumes "sched_rep X s R W" and "t \<in> set (W n)"
  shows "\<exists>prev. prev \<noteq> Some t \<and> remove_waiter n t s =
      Some (set_obj_refs n (refs s n - 1) (set_tcb_wait_notif t None (wait_splice n t prev s))) \<and>
    sched_rep (insert t X) (set_tcb_wait_notif t None (wait_splice n t prev s)) R
      (W(n := remove1 t (W n)))"
proof -
  obtain xs ys where W: "W n = xs @ t # ys" using assms(2) by (meson split_list)
  have c: "chain (qnext_of s) (notif_wait_head (notifs s n)) (xs @ t # ys)"
    using sched_repD(2) [OF assms(1), of n] W by (simp add: wait_q_def)
  have t: "t \<notin> set xs" using chain_distinct [OF c] by simp
  have "remove1 t (W n) = xs @ ys" using W t by (simp add: remove1_append)
  then have "sched_rep (insert t X) (set_tcb_wait_notif t None (wait_splice n t (last_opt xs) s)) R
      (W(n := remove1 t (W n)))"
    using wait_splice_rep [OF assms(1) W] by (simp add: set_tcb_wait_notif_def sched_rep_transit)
  moreover have "last_opt xs \<noteq> Some t" using t by (auto dest: last_opt_in)
  ultimately show ?thesis
    using find_link_found [OF c]
    by (intro exI [of _ "last_opt xs"]) (simp add: remove_waiter_def Let_def store_defs)
qed

lemma remove_waiter_missing:
  assumes "sched_rep X s R W" and "t \<notin> set (W n)"
  shows "remove_waiter n t s = Some s"
proof -
  have "find_link (qnext_of s) t None (notif_wait_head (notifs s n)) = Some None"
    using sched_repD(2) [OF assms(1), of n] assms(2) unfolding wait_q_def
    by (blast intro: find_link_missing)
  then show ?thesis by (simp add: remove_waiter_def)
qed

section \<open>A wait queue is a first-in first-out queue\<close>

text \<open>
  While the word is zero, each wait blocks its caller and each signal of a non-zero value
  serves one waiter: the queue laws with \<open>notif_wait\<close> as put and \<open>signal\<close> as get.
\<close>

definition wait_items :: "obj_id \<Rightarrow> kstore \<Rightarrow> obj_id list" where
  "wait_items n s = the (collect (qnext_of s) (notif_wait_head (notifs s n)))"

definition wait_wf :: "obj_id \<Rightarrow> kstore \<Rightarrow> bool" where
  "wait_wf n s \<longleftrightarrow> sched_wf s \<and> notif_word (notifs s n) = 0"

definition wait_ok :: "obj_id \<Rightarrow> kstore \<Rightarrow> bool" where
  "wait_ok t s \<longleftrightarrow>
     tcb_state (tcbs s t) \<noteq> Runnable \<and> tcb_state (tcbs s t) \<noteq> BlockedNotif \<and>
     unat (tcb_priority (tcbs s t)) < NUM_PRIOS"

definition wait_put :: "obj_id \<Rightarrow> obj_id \<Rightarrow> kstore \<Rightarrow> kstore" where
  "wait_put n t s = snd (notif_wait n t s)"

definition wait_serve :: "obj_id \<Rightarrow> u64 \<Rightarrow> kstore \<Rightarrow> (obj_id \<times> kstore) option" where
  "wait_serve n bits s =
     (case notif_wait_head (notifs s n) of
        None \<Rightarrow> None
      | Some t \<Rightarrow> Some (t, signal n (bits OR 1) s))"

lemma wait_items_rep:
  assumes "sched_rep X s R W"
  shows "wait_items n s = W n"
  using sched_repD(2) [OF assms, of n] by (auto simp: wait_q_def wait_items_def dest: collect_chain)

lemma wait_head_rep:
  assumes "sched_rep X s R W"
  shows "notif_wait_head (notifs s n) = head_opt (W n)"
  using sched_repD(2) [OF assms, of n] by (auto simp: wait_q_def dest: chain_head)

lemma notif_wait_put_rep:
  assumes "sched_rep {} s R W" and "wait_ok t s" and "notif_word (notifs s n) = 0"
  shows "sched_rep {} (wait_put n t s) R (W(n := W n @ [t]))"
    and "notif_word (notifs (wait_put n t s) n) = 0"
proof -
  have off: "sched_rep (insert t {}) s R W"
    by (rule sched_rep_idle_off [OF assms(1)]) (use assms(2) in \<open>auto simp: wait_ok_def\<close>)
  then show "sched_rep {} (wait_put n t s) R (W(n := W n @ [t]))"
    using notif_wait_rep [OF off _ assms(3)] assms(2) by (simp add: wait_put_def wait_ok_def)
  show "notif_word (notifs (wait_put n t s) n) = 0"
    using assms(3) by (auto simp: wait_put_def notif_wait_def Let_def store_defs split: option.splits)
qed

lemma or_one_nonzero: "(w OR (b OR 1)) \<noteq> (0 :: u64)"
proof
  assume "w OR (b OR 1) = 0"
  then have "bit (w OR (b OR 1)) 0 = bit (0 :: u64) 0" by simp
  then show False by (simp add: bit_simps)
qed

lemma signal_delivers_word:
  assumes "sched_rep X s R W" and "W n = t # ys" and "notif_word (notifs s n) OR bits \<noteq> 0"
  shows "notif_word (notifs (signal n bits s) n) = 0"
    and "tf_x (tcb_frame (tcbs (signal n bits s) t)) 0 = notif_word (notifs s n) OR bits"
    and "refs (signal n bits s) n = refs s n - 1"
    and "tcb_state (tcbs (signal n bits s) t) = Runnable"
  by (simp_all add: signal_delivers [OF assms] make_runnable_def delivered_def store_defs)

interpretation waitq: fifo "wait_wf n" "wait_items n" wait_ok "wait_put n" "wait_serve n bits"
  for n bits
proof
  fix s t
  assume "wait_wf n s" and ok: "wait_ok t s"
  then obtain R W where rep: "sched_rep {} s R W" and w: "notif_word (notifs s n) = 0"
    by (auto simp: wait_wf_def sched_wf_def)
  note put = notif_wait_put_rep [OF rep ok w]
  show "wait_wf n (wait_put n t s)"
    using put by (auto simp: wait_wf_def sched_wf_def)
  show "wait_items n (wait_put n t s) = wait_items n s @ [t]"
    by (simp add: wait_items_rep [OF rep] wait_items_rep [OF put(1)])
next
  fix s
  assume "wait_wf n s" and "wait_items n s = []"
  then obtain R W where "sched_rep {} s R W" and "W n = []"
    by (auto simp: wait_wf_def sched_wf_def wait_items_rep)
  then show "wait_serve n bits s = None"
    by (simp add: wait_serve_def wait_head_rep)
next
  fix s t ts
  assume "wait_wf n s" and "wait_items n s = t # ts"
  then obtain R W where rep: "sched_rep {} s R W" and W: "W n = t # ts"
    by (auto simp: wait_wf_def sched_wf_def wait_items_rep)
  obtain R' where s': "sched_rep {} (signal n (bits OR 1) s) R' (W(n := ts))"
    using signal_delivers_rep [OF rep W or_one_nonzero] by blast
  have "notif_word (notifs (signal n (bits OR 1) s) n) = 0"
    by (rule signal_delivers_word [OF rep W or_one_nonzero])
  then have "wait_wf n (signal n (bits OR 1) s)" "wait_items n (signal n (bits OR 1) s) = ts"
    using s' by (auto simp: wait_wf_def sched_wf_def wait_items_rep)
  then show "\<exists>s'. wait_serve n bits s = Some (t, s') \<and> wait_wf n s' \<and> wait_items n s' = ts"
    using W by (simp add: wait_serve_def wait_head_rep [OF rep])
qed

end
