(* ===== verification/Timers.thy ===== *)
theory Timers
  imports Notifs
begin

text \<open>
  Timers (\<open>kcore/src/timer.rs\<close>): an intrusive list of the armed timers, each holding one
  reference on the notification it will signal. \<open>timer_rep s T\<close> says that the list is \<open>T\<close>, a
  timer is on it exactly when it is armed, and armed timers name a notification. The main
  result is about \<open>check_expired\<close>: the walk returns, disarms exactly the timers whose
  deadline has passed, keeps the others in order, and signals each expired timer once.
\<close>

section \<open>Operations\<close>

definition timer_splice :: "obj_id \<Rightarrow> obj_id option \<Rightarrow> kstore \<Rightarrow> kstore" where
  "timer_splice t prev s =
     (let cnext = timer_next (timers s t);
          s = (case prev of
                 None \<Rightarrow> set_timer_armed_head cnext s
               | Some p \<Rightarrow> set_timer_next p cnext s);
          s = (case timer_notif (timers s t) of
                 None \<Rightarrow> s
               | Some n \<Rightarrow> set_obj_refs n (refs s n - 1) s);
          s = set_timer_notif t None s;
          s = set_timer_armed t False s
      in set_timer_next t None s)"

definition disarm :: "obj_id \<Rightarrow> kstore \<Rightarrow> kstore option" where
  "disarm t s =
     (if \<not> timer_armed (timers s t) then Some s
      else do { found \<leftarrow> find_link (\<lambda>x. timer_next (timers s x)) t None (armed_head s);
                Some (case found of None \<Rightarrow> s | Some prev \<Rightarrow> timer_splice t prev s) })"

definition arm :: "obj_id \<Rightarrow> obj_id \<Rightarrow> u64 \<Rightarrow> u64 \<Rightarrow> kstore \<Rightarrow> kstore option" where
  "arm t notif bits deadline s =
     do { s \<leftarrow> disarm t s;
          let s = set_obj_refs notif (refs s notif + 1) s;
              s = set_timer_notif t (Some notif) s;
              s = set_timer_bits t bits s;
              s = set_timer_deadline t deadline s;
              s = set_timer_armed t True s;
              h = armed_head s;
              s = set_timer_next t h s
          in Some (set_timer_armed_head (Some t) s) }"

definition destroy_timer :: "obj_id \<Rightarrow> kstore \<Rightarrow> kstore option" where
  "destroy_timer t s = disarm t s"

partial_function (option) expire_loop :: "u64 \<Rightarrow> obj_id option \<Rightarrow> kstore \<Rightarrow> kstore option" where
  "expire_loop now cur s =
     (case cur of
        None \<Rightarrow> Some s
      | Some c \<Rightarrow>
          (let next = timer_next (timers s c) in
           if timer_deadline (timers s c) \<le> now
           then let notif = timer_notif (timers s c);
                    bits = timer_bits (timers s c)
                in do { s \<leftarrow> disarm c s;
                        expire_loop now next
                          (case notif of None \<Rightarrow> s | Some nn \<Rightarrow> signal nn bits s) }
           else expire_loop now next s))"

definition check_expired :: "u64 \<Rightarrow> kstore \<Rightarrow> kstore option" where
  "check_expired now s = expire_loop now (armed_head s) s"

section \<open>The armed list\<close>

abbreviation tnext_of :: "kstore \<Rightarrow> obj_id \<Rightarrow> obj_id option" where
  "tnext_of s \<equiv> (\<lambda>t. timer_next (timers s t))"

definition timer_rep :: "kstore \<Rightarrow> obj_id list \<Rightarrow> bool" where
  "timer_rep s T \<longleftrightarrow>
     chain (tnext_of s) (armed_head s) T \<and>
     (\<forall>t. timer_armed (timers s t) \<longleftrightarrow> t \<in> set T) \<and>
     (\<forall>t. timer_armed (timers s t) \<longleftrightarrow> timer_notif (timers s t) \<noteq> None)"

definition timer_wf :: "kstore \<Rightarrow> bool" where
  "timer_wf s \<longleftrightarrow> (\<exists>T. timer_rep s T)"

lemma timer_repD:
  assumes "timer_rep s T"
  shows "chain (tnext_of s) (armed_head s) T"
    and "timer_armed (timers s t) \<longleftrightarrow> t \<in> set T"
    and "timer_notif (timers s t) \<noteq> None \<longleftrightarrow> t \<in> set T"
    and "distinct T"
  using assms unfolding timer_rep_def by (auto intro: chain_distinct)

lemma timer_rep_frame:
  "timers s' = timers s \<Longrightarrow> armed_head s' = armed_head s \<Longrightarrow> timer_rep s' T = timer_rep s T"
  by (simp add: timer_rep_def)

lemma timer_rep_signal [simp]: "timer_rep (signal n bits s) T = timer_rep s T"
  by (rule timer_rep_frame) simp_all

lemma timer_splice_fields:
  fixes t s
  assumes "prev \<noteq> Some t"
  shows "timer_next (timers (timer_splice t prev s) x) =
      (if x = t then None else if prev = Some x then timer_next (timers s t)
       else timer_next (timers s x))"
    and "armed_head (timer_splice t prev s) =
      (if prev = None then timer_next (timers s t) else armed_head s)"
    and "timer_armed (timers (timer_splice t prev s) x) = (x \<noteq> t \<and> timer_armed (timers s x))"
    and "timer_notif (timers (timer_splice t prev s) x) =
      (if x = t then None else timer_notif (timers s x))"
    and "timer_deadline (timers (timer_splice t prev s) x) = timer_deadline (timers s x)"
    and "timer_bits (timers (timer_splice t prev s) x) = timer_bits (timers s x)"
    and "refs (timer_splice t prev s) =
      (case timer_notif (timers s t) of None \<Rightarrow> refs s | Some n \<Rightarrow> (refs s)(n := refs s n - 1))"
  using assms by (auto simp: timer_splice_def Let_def store_defs split: option.splits)

lemma timer_splice_frame [simp, frame_simps]:
  "slots (timer_splice t prev s) = slots s" "cspaces (timer_splice t prev s) = cspaces s"
  "chans (timer_splice t prev s) = chans s" "notifs (timer_splice t prev s) = notifs s"
  "tcbs (timer_splice t prev s) = tcbs s" "irqs (timer_splice t prev s) = irqs s"
  "aspaces (timer_splice t prev s) = aspaces s" "ready_head (timer_splice t prev s) = ready_head s"
  "ready_tail (timer_splice t prev s) = ready_tail s"
  "ready_bitmap (timer_splice t prev s) = ready_bitmap s"
  "current (timer_splice t prev s) = current s"
  by (auto simp: timer_splice_def Let_def store_defs split: option.splits)

lemma timer_splice_rep:
  assumes "timer_rep s (xs @ t # ys)"
  shows "timer_rep (timer_splice t (last_opt xs) s) (xs @ ys)"
proof -
  note c = timer_repD(1) [OF assms] and d = timer_repD(4) [OF assms]
  have prev: "last_opt xs \<noteq> Some t" using d by (auto dest: last_opt_in)
  note fld = timer_splice_fields [OF prev]
  have "chain (tnext_of (timer_splice t (last_opt xs) s))
      (if xs = [] then timer_next (timers s t) else armed_head s) (xs @ ys)"
    by (rule chain_remove [OF c]) (use d prev in \<open>auto simp: timer_splice_fields\<close>)
  moreover have "armed_head (timer_splice t (last_opt xs) s) =
      (if xs = [] then timer_next (timers s t) else armed_head s)"
    by (simp add: fld)
  moreover have "timer_armed (timers (timer_splice t (last_opt xs) s) x) \<longleftrightarrow> x \<in> set (xs @ ys)" for x
    using d timer_repD(2) [OF assms] by (auto simp: fld)
  moreover have "timer_notif (timers (timer_splice t (last_opt xs) s) x) \<noteq> None \<longleftrightarrow> x \<in> set (xs @ ys)"
    for x
    using d timer_repD(3) [OF assms, of x] by (auto simp: fld)
  ultimately show ?thesis by (simp add: timer_rep_def)
qed

lemma disarm_armed:
  assumes "timer_rep s (xs @ t # ys)"
  shows "disarm t s = Some (timer_splice t (last_opt xs) s)"
  using find_link_found [OF timer_repD(1) [OF assms]] timer_repD(2) [OF assms, of t]
  by (simp add: disarm_def)

lemma disarm_off:
  assumes "timer_rep s T" and "t \<notin> set T"
  shows "disarm t s = Some s"
  using timer_repD(2) [OF assms(1), of t] assms(2) by (simp add: disarm_def)

lemma disarm_rep:
  assumes "timer_rep s T"
  shows "\<exists>s'. disarm t s = Some s' \<and> timer_rep s' (remove1 t T) \<and> \<not> timer_armed (timers s' t)"
proof (cases "t \<in> set T")
  case True
  then obtain xs ys where T: "T = xs @ t # ys" by (meson split_list)
  then have "t \<notin> set xs" using timer_repD(4) [OF assms] by simp
  then have "remove1 t T = xs @ ys" "last_opt xs \<noteq> Some t"
    using T by (auto simp: remove1_append dest: last_opt_in)
  then show ?thesis
    using disarm_armed timer_splice_rep assms T by (auto simp: timer_splice_fields)
next
  case False
  then show ?thesis
    using disarm_off [OF assms] assms timer_repD(2) [OF assms] by (simp add: remove1_idem)
qed

lemma disarm_frame:
  assumes "disarm t s = Some s'"
  shows "slots s' = slots s" "cspaces s' = cspaces s" "chans s' = chans s" "notifs s' = notifs s"
    "tcbs s' = tcbs s" "irqs s' = irqs s" "aspaces s' = aspaces s" "ready_head s' = ready_head s"
    "ready_tail s' = ready_tail s" "ready_bitmap s' = ready_bitmap s" "current s' = current s"
  using assms by (auto simp: disarm_def bind_eq_Some_conv split: if_splits option.splits)

lemma disarm_sched: "disarm t s = Some s' \<Longrightarrow> sched_rep X s' R W = sched_rep X s R W"
  by (simp add: sched_rep_def ready_q_def wait_q_def disarm_frame)

lemma arm_rep:
  assumes "timer_rep s T"
  shows "\<exists>s'. arm t n bits deadline s = Some s' \<and> timer_rep s' (t # remove1 t T) \<and>
    timer_deadline (timers s' t) = deadline \<and> timer_bits (timers s' t) = bits \<and>
    timer_notif (timers s' t) = Some n"
proof -
  obtain s1 where s1: "disarm t s = Some s1" "timer_rep s1 (remove1 t T)"
    using disarm_rep [OF assms] by blast
  have t: "t \<notin> set (remove1 t T)" using timer_repD(4) [OF assms] by simp
  obtain s' where s': "arm t n bits deadline s = Some s'" by (simp add: arm_def s1 Let_def)
  have f: "timer_next (timers s' x) = (if x = t then armed_head s1 else timer_next (timers s1 x))"
    "armed_head s' = Some t" "timer_armed (timers s' x) = (x = t \<or> timer_armed (timers s1 x))"
    "timer_notif (timers s' x) = (if x = t then Some n else timer_notif (timers s1 x))"
    "timer_deadline (timers s' t) = deadline" "timer_bits (timers s' t) = bits" for x
    using s' by (auto simp: arm_def s1 Let_def store_defs split: if_splits)
  have "chain (tnext_of s') (armed_head s1) (remove1 t T)"
    using timer_repD(1) [OF s1(2)] t by (subst lseg_cong [where nx' = "tnext_of s1"]) (auto simp: f)
  then have "timer_rep s' (t # remove1 t T)"
    using timer_repD(2,3) [OF s1(2)] unfolding timer_rep_def by (auto simp: f)
  then show ?thesis using s' f by auto
qed

section \<open>Expiry\<close>

text \<open>The timers of a list, one after the other: the reference for the in-place walk.\<close>

fun expire_all :: "u64 \<Rightarrow> obj_id list \<Rightarrow> kstore \<Rightarrow> kstore" where
  "expire_all now [] s = s"
| "expire_all now (c # cs) s =
     expire_all now cs
       (if timer_deadline (timers s c) \<le> now
        then (case timer_notif (timers s c) of
                None \<Rightarrow> the (disarm c s)
              | Some n \<Rightarrow> signal n (timer_bits (timers s c)) (the (disarm c s)))
        else s)"

lemma expire_loop_all:
  assumes "timer_rep s (xs @ ys)"
  shows "expire_loop now (head_opt ys) s = Some (expire_all now ys s) \<and>
    timer_rep (expire_all now ys s)
      (xs @ filter (\<lambda>t. now < timer_deadline (timers s t)) ys)"
  using assms
proof (induction ys arbitrary: xs s)
  case Nil
  then show ?case by (simp add: expire_loop.simps)
next
  case (Cons c ys)
  have next_c: "timer_next (timers s c) = head_opt ys"
    using timer_repD(1) [OF Cons.prems] by (rule chain_mid)
  show ?case
  proof (cases "timer_deadline (timers s c) \<le> now")
    case False
    then have "(timer_deadline (timers s c) \<le> now) = False" "now < timer_deadline (timers s c)"
      by auto
    then show ?thesis
      using Cons.IH [of s "xs @ [c]"] Cons.prems next_c
      by (subst expire_loop.simps) (simp add: Let_def del: linorder_not_le)
  next
    case True
    let ?s1 = "timer_splice c (last_opt xs) s"
    define s2 where "s2 = (case timer_notif (timers s c) of None \<Rightarrow> ?s1
        | Some n \<Rightarrow> signal n (timer_bits (timers s c)) ?s1)"
    have dis: "disarm c s = Some ?s1" using disarm_armed [OF Cons.prems] .
    have rep2: "timer_rep s2 (xs @ ys)"
      using timer_splice_rep [OF Cons.prems] by (simp add: s2_def split: option.split)
    have "last_opt xs \<noteq> Some c"
      using timer_repD(4) [OF Cons.prems] by (auto dest: last_opt_in)
    then have dl: "timer_deadline (timers s2 x) = timer_deadline (timers s x)" for x
      by (simp add: s2_def timer_splice_fields split: option.split)
    have "expire_loop now (head_opt (c # ys)) s = expire_loop now (head_opt ys) s2"
      using True dis next_c by (subst expire_loop.simps) (simp add: Let_def s2_def)
    moreover have "expire_all now (c # ys) s = expire_all now ys s2"
      using True by (cases "timer_notif (timers s c)") (simp_all add: s2_def dis)
    moreover have "(now < timer_deadline (timers s c)) = False" using True by auto
    ultimately show ?thesis
      using Cons.IH [OF rep2] by (simp add: dl del: expire_all.simps linorder_not_less)
  qed
qed

lemma check_expired_all:
  assumes "timer_rep s T"
  shows "check_expired now s = Some (expire_all now T s)"
    and "timer_rep (expire_all now T s) (filter (\<lambda>t. now < timer_deadline (timers s t)) T)"
  using expire_loop_all [of s "[]" T now] assms chain_head [OF timer_repD(1) [OF assms]]
  by (simp_all add: check_expired_def)

lemma expire_all_sched:
  assumes "timer_rep s T" and "sched_wf s"
  shows "sched_wf (expire_all now T s)"
proof -
  have "sched_wf (expire_all now ys s)" if "timer_rep s (xs @ ys)" "sched_wf s" for xs ys s
    using that
  proof (induction ys arbitrary: xs s)
    case Nil
    then show ?case by simp
  next
    case (Cons c ys)
    let ?s1 = "timer_splice c (last_opt xs) s"
    have dis: "disarm c s = Some ?s1" using disarm_armed [OF Cons.prems(1)] .
    have s1: "timer_rep ?s1 (xs @ ys)" "sched_wf ?s1"
      using timer_splice_rep [OF Cons.prems(1)] Cons.prems(2) disarm_sched [OF dis]
      by (auto simp: sched_wf_def)
    then have "timer_rep (signal n b ?s1) (xs @ ys)" "sched_wf (signal n b ?s1)" for n b
      using signal_rep by (auto simp: sched_wf_def)
    then show ?case
      using Cons.IH [of s "xs @ [c]"] Cons.IH [of _ xs] Cons.prems dis s1
      by (simp split: option.split)
  qed
  from this [of s "[]" T] assms show ?thesis by simp
qed

text \<open>
  C9: The expiry walk of the timer tick always returns. The armed list afterwards is the
  old one without the timers whose deadline has passed, in the same order; every timer
  that passed is disarmed, no other timer changes its armed state, and the thread queues stay
  well formed through the signals it sends.
\<close>

theorem check_expired_exact:
  assumes "timer_rep s T" and "sched_wf s"
  shows "\<exists>s'. check_expired now s = Some s' \<and>
    timer_rep s' (filter (\<lambda>t. now < timer_deadline (timers s t)) T) \<and>
    (\<forall>t. timer_armed (timers s' t) \<longleftrightarrow>
        timer_armed (timers s t) \<and> now < timer_deadline (timers s t)) \<and>
    sched_wf s'"
  using check_expired_all [OF assms(1), of now] expire_all_sched [OF assms, of now]
    timer_repD(2) [OF assms(1)] timer_repD(2) [OF check_expired_all(2) [OF assms(1), of now]]
  by auto

lemma timer_rep_blank: "timer_rep blank_store []"
  by (simp add: timer_rep_def blank_store_def store_init_def timer_init_def)

theorem check_expired_exact_witness:
  "\<exists>s1 s'. arm (ObjId 2) (ObjId 3) 1 10 blank_store = Some s1 \<and> check_expired 10 s1 = Some s' \<and>
     timer_armed (timers s1 (ObjId 2)) \<and> \<not> timer_armed (timers s' (ObjId 2))"
proof -
  obtain s1 where s1: "arm (ObjId 2) (ObjId 3) 1 10 blank_store = Some s1"
    "timer_rep s1 [ObjId 2]" "timer_deadline (timers s1 (ObjId 2)) = 10"
    using arm_rep [OF timer_rep_blank, of "ObjId 2" "ObjId 3" 1 10] by auto
  have "sched_rep {} s1 (\<lambda>_. []) (\<lambda>_. [])"
    using s1(1) sched_rep_blank
    by (auto simp: arm_def Let_def bind_eq_Some_conv disarm_sched set_timer_notif_def
        set_timer_bits_def set_timer_deadline_def set_timer_armed_def set_timer_next_def)
  then have "sched_wf s1" by (auto simp: sched_wf_def)
  from check_expired_exact [OF s1(2) this, of 10] s1 timer_repD(2) [OF s1(2), of "ObjId 2"]
  show ?thesis by auto
qed

end
