(* ===== verification/Irqs.thy ===== *)
theory Irqs
  imports Notifs
begin

text \<open>
  IRQ objects (\<open>kcore/src/irq.rs\<close>, and the delivery and acknowledgement of
  \<open>kernel/src/irq.rs\<close>): a bound interrupt line holds one reference on the notification it
  signals.
\<close>

definition irq_unbind :: "obj_id \<Rightarrow> kstore \<Rightarrow> kstore" where
  "irq_unbind i s =
     (if \<not> irq_bound (irqs s i) then s
      else let s = (case irq_notif (irqs s i) of
                      None \<Rightarrow> s
                    | Some n \<Rightarrow> set_obj_refs n (refs s n - 1) s);
               s = set_irq_notif i None s
           in set_irq_bound i False s)"

definition irq_bind :: "obj_id \<Rightarrow> obj_id \<Rightarrow> u64 \<Rightarrow> kstore \<Rightarrow> kstore" where
  "irq_bind i notif bits s =
     (let s = irq_unbind i s;
          s = set_obj_refs notif (refs s notif + 1) s;
          s = set_irq_notif i (Some notif) s;
          s = set_irq_bits i bits s
      in set_irq_bound i True s)"

definition destroy_irq :: "obj_id \<Rightarrow> kstore \<Rightarrow> kstore" where
  "destroy_irq i s = irq_unbind i s"

text \<open>
  Delivery and acknowledgement. The boot-static table of IRQ objects is the list of their
  handles; the writes to the interrupt controller are returned as a log. A bound object
  without a notification would be a panic of \<open>unwrap\<close>: the value \<open>None\<close>.
\<close>

datatype gic_op = GicEnable u32 | GicDisable u32

definition irq_for_intid :: "obj_id list \<Rightarrow> u32 \<Rightarrow> kstore \<Rightarrow> obj_id option" where
  "irq_for_intid tbl intid s = find (\<lambda>p. irq_intid (irqs s p) = intid) tbl"

definition deliver :: "obj_id list \<Rightarrow> u32 \<Rightarrow> kstore \<Rightarrow> (bool \<times> gic_op list \<times> kstore) option" where
  "deliver tbl intid s =
     (case irq_for_intid tbl intid s of
        None \<Rightarrow> Some (False, [], s)
      | Some p \<Rightarrow>
          if irq_bound (irqs s p)
          then do { notif \<leftarrow> irq_notif (irqs s p);
                    let bits = irq_bits (irqs s p);
                        s = set_irq_masked p True s
                    in Some (True, [GicDisable intid], signal notif bits s) }
          else Some (False, [], s))"

definition irq_ack :: "obj_id \<Rightarrow> kstore \<Rightarrow> gic_op list \<times> kstore" where
  "irq_ack i s = ([GicEnable (irq_intid (irqs s i))], set_irq_masked i False s)"

text \<open>A bound object is exactly one that names a notification.\<close>

definition irq_wf :: "kstore \<Rightarrow> bool" where
  "irq_wf s \<longleftrightarrow> (\<forall>i. irq_bound (irqs s i) \<longleftrightarrow> irq_notif (irqs s i) \<noteq> None)"

lemma irq_unbind_frame [simp, frame_simps]:
  "slots (irq_unbind i s) = slots s" "cspaces (irq_unbind i s) = cspaces s"
  "chans (irq_unbind i s) = chans s" "notifs (irq_unbind i s) = notifs s"
  "tcbs (irq_unbind i s) = tcbs s" "timers (irq_unbind i s) = timers s"
  "aspaces (irq_unbind i s) = aspaces s" "armed_head (irq_unbind i s) = armed_head s"
  "ready_head (irq_unbind i s) = ready_head s" "ready_tail (irq_unbind i s) = ready_tail s"
  "ready_bitmap (irq_unbind i s) = ready_bitmap s" "current (irq_unbind i s) = current s"
  by (auto simp: irq_unbind_def Let_def store_defs split: option.splits)

lemma irq_unbind_sched [simp]: "sched_rep X (irq_unbind i s) R W = sched_rep X s R W"
  by (simp add: sched_rep_def ready_q_def wait_q_def)

lemma irq_unbind_wf: "irq_wf s \<Longrightarrow> irq_wf (irq_unbind i s)"
  by (auto simp: irq_wf_def irq_unbind_def Let_def store_defs split: option.splits)

lemma irq_bind_wf: "irq_wf s \<Longrightarrow> irq_wf (irq_bind i n bits s)"
  using irq_unbind_wf [of s i] by (auto simp: irq_wf_def irq_bind_def Let_def store_defs)

end
