(* ===== verification/Cdt.thy ===== *)
theory Cdt
  imports Kstore
begin

text \<open>
  The capability derivation tree (\<open>kcore/src/cspace.rs\<close>). The links of a slot (parent, first
  child, next and previous sibling) span cspaces, channel rings and binding slots, so the
  operations here are functions on the slot map alone; \<open>Channels\<close> and \<open>Cascade\<close> lift them to
  the whole store.

  \<open>cdt_wf\<close> is the structural invariant: sibling links are inverse to each other and stay
  under one parent, the first child of a parent is its only child without a previous
  sibling, an empty slot is detached, and both the sibling and the parent chains end.
  Deleting a root leaves its children as a parentless sibling chain, which the invariant
  allows.

  What the operations do to the tree is stated with \<open>desc\<close>, the strict descendant relation:
  inserting adds one leaf, unlinking removes one node and hangs its children in its place,
  moving renames one node.
\<close>

section \<open>Operations\<close>

definition cdt_insert_child :: "slot_id \<Rightarrow> slot_id \<Rightarrow> slot_map \<Rightarrow> slot_map" where
  "cdt_insert_child p c m =
     (let old_first = first_child (m p);
          m = m(c := (m c)\<lparr>parent := Some p, prev_sib := None, next_sib := old_first\<rparr>);
          m = upd_opt old_first (\<lambda>v. v\<lparr>prev_sib := Some c\<rparr>) m
      in m(p := (m p)\<lparr>first_child := Some c\<rparr>))"

partial_function (option) ancestor_or_self_revoking :: "slot_map \<Rightarrow> slot_id \<Rightarrow> bool option" where
  "ancestor_or_self_revoking m cur =
     (if revoking (m cur) then Some True
      else case parent (m cur) of
             None \<Rightarrow> Some False
           | Some p \<Rightarrow> ancestor_or_self_revoking m p)"

text \<open>
  The walk over a child list that rewrites the parent of every child, shared by
  \<open>cdt_unlink\<close> and \<open>slot_move\<close>; it returns the last child it visited.
\<close>

partial_function (option) reparent ::
    "slot_id option \<Rightarrow> slot_id option \<Rightarrow> slot_id option \<Rightarrow> slot_map \<Rightarrow>
     (slot_id option \<times> slot_map) option" where
  "reparent p c lst m =
     (case c of
        None \<Rightarrow> Some (lst, m)
      | Some cur \<Rightarrow>
          reparent p (next_sib (m cur)) (Some cur) (m(cur := (m cur)\<lparr>parent := p\<rparr>)))"

definition cdt_unlink :: "slot_id \<Rightarrow> slot_map \<Rightarrow> slot_map option" where
  "cdt_unlink k m =
     (let pa = parent (m k); prv = prev_sib (m k); nxt = next_sib (m k); fc = first_child (m k)
      in do {
        (lst, m) \<leftarrow> reparent pa fc None m;
        let hd' = (if fc = None then nxt else fc);
            m = upd_opt prv (\<lambda>v. v\<lparr>next_sib := hd'\<rparr>) m;
            m = upd_opt (if prv = None then pa else None) (\<lambda>v. v\<lparr>first_child := hd'\<rparr>) m;
            m = upd_opt hd' (\<lambda>v. v\<lparr>prev_sib := prv\<rparr>) m
        in do {
          m \<leftarrow> (if fc = None then Some m
                else do { l \<leftarrow> lst;
                          let m = m(l := (m l)\<lparr>next_sib := nxt\<rparr>)
                          in Some (upd_opt nxt (\<lambda>v. v\<lparr>prev_sib := lst\<rparr>) m) });
          Some (m(k := (m k)\<lparr>parent := None, first_child := None, next_sib := None,
                             prev_sib := None\<rparr>)) } })"

definition slot_move :: "slot_id \<Rightarrow> slot_id \<Rightarrow> slot_map \<Rightarrow> slot_map option" where
  "slot_move src dst m =
     (let s = m src;
          d = (m dst)\<lparr>cap := cap s, parent := parent s, first_child := first_child s,
                      next_sib := next_sib s, prev_sib := prev_sib s, revoking := revoking s\<rparr>;
          m = m(dst := d);
          m = upd_opt (parent d)
                (\<lambda>v. if first_child v = Some src then v\<lparr>first_child := Some dst\<rparr> else v) m;
          m = upd_opt (prev_sib d) (\<lambda>v. v\<lparr>next_sib := Some dst\<rparr>) m;
          m = upd_opt (next_sib d) (\<lambda>v. v\<lparr>prev_sib := Some dst\<rparr>) m
      in do {
        (_, m) \<leftarrow> reparent (Some dst) (first_child d) None m;
        Some (m(src := slot_empty)) })"

partial_function (option) descend_to_leaf :: "slot_map \<Rightarrow> slot_id \<Rightarrow> slot_id option" where
  "descend_to_leaf m leaf =
     (case first_child (m leaf) of
        None \<Rightarrow> Some leaf
      | Some c \<Rightarrow> descend_to_leaf m c)"

section \<open>The structural invariant\<close>

abbreviation next_of :: "slot_map \<Rightarrow> slot_id \<Rightarrow> slot_id option" where
  "next_of m \<equiv> (\<lambda>k. next_sib (m k))"

abbreviation parent_of :: "slot_map \<Rightarrow> slot_id \<Rightarrow> slot_id option" where
  "parent_of m \<equiv> (\<lambda>k. parent (m k))"

abbreviation empty_slot :: "slot_map \<Rightarrow> slot_id \<Rightarrow> bool" where
  "empty_slot m k \<equiv> cap_is_empty (cap (m k))"

definition detached :: "cap_slot \<Rightarrow> bool" where
  "detached v \<longleftrightarrow>
     parent v = None \<and> first_child v = None \<and> next_sib v = None \<and> prev_sib v = None"

definition cdt_wf :: "slot_map \<Rightarrow> bool" where
  "cdt_wf m \<longleftrightarrow>
     (\<forall>a b. next_sib (m a) = Some b \<longleftrightarrow> prev_sib (m b) = Some a) \<and>
     (\<forall>a b. next_sib (m a) = Some b \<longrightarrow> parent (m b) = parent (m a)) \<and>
     (\<forall>p c. first_child (m p) = Some c \<longleftrightarrow> parent (m c) = Some p \<and> prev_sib (m c) = None) \<and>
     (\<forall>k. empty_slot m k \<longrightarrow> detached (m k)) \<and>
     (\<forall>k. \<exists>xs. chain (next_of m) (Some k) xs) \<and>
     (\<forall>k. \<exists>xs. chain (parent_of m) (Some k) xs)"

text \<open>Strict descendants: \<open>k\<close> lies below \<open>r\<close>.\<close>

definition desc :: "slot_map \<Rightarrow> slot_id \<Rightarrow> slot_id \<Rightarrow> bool" where
  "desc m r k \<longleftrightarrow> (\<lambda>x y. parent (m x) = Some y)\<^sup>+\<^sup>+ k r"

definition children :: "slot_map \<Rightarrow> slot_id \<Rightarrow> slot_id list" where
  "children m p = the (collect (next_of m) (first_child (m p)))"

lemma cdt_wfD:
  assumes "cdt_wf m"
  shows "next_sib (m a) = Some b \<longleftrightarrow> prev_sib (m b) = Some a"
    and "next_sib (m a) = Some b \<Longrightarrow> parent (m b) = parent (m a)"
    and "first_child (m p) = Some c \<longleftrightarrow> parent (m c) = Some p \<and> prev_sib (m c) = None"
    and "empty_slot m k \<Longrightarrow> detached (m k)"
    and "\<exists>xs. chain (next_of m) (Some k) xs"
    and "\<exists>xs. chain (parent_of m) (Some k) xs"
  using assms unfolding cdt_wf_def by blast+

lemma cdt_wfI:
  assumes "\<And>a b. next_sib (m a) = Some b \<longleftrightarrow> prev_sib (m b) = Some a"
    and "\<And>a b. next_sib (m a) = Some b \<Longrightarrow> parent (m b) = parent (m a)"
    and "\<And>p c. first_child (m p) = Some c \<longleftrightarrow> parent (m c) = Some p \<and> prev_sib (m c) = None"
    and "\<And>k. empty_slot m k \<Longrightarrow> detached (m k)"
    and "\<And>k. \<exists>xs. chain (next_of m) (Some k) xs"
    and "\<And>k. \<exists>xs. chain (parent_of m) (Some k) xs"
  shows "cdt_wf m"
  using assms unfolding cdt_wf_def by blast

text \<open>A link that reaches the end from everywhere has no cycle.\<close>

lemma ends_wfp:
  assumes "\<And>k. \<exists>xs. chain nx (Some k) xs"
  shows "wfp (\<lambda>y x. nx x = Some y)"
proof -
  define len where "len k = length (SOME xs. chain nx (Some k) xs)" for k
  have len: "chain nx (Some k) xs \<Longrightarrow> len k = length xs" for k xs
    unfolding len_def by (rule arg_cong [of _ _ length], rule some_equality) (auto intro: chain_unique)
  show ?thesis
  proof (rule wfp_if_convertible_to_nat [where f = len])
    fix y x assume "nx x = Some y"
    moreover obtain ys where "chain nx (Some y) ys" using assms by blast
    ultimately have "chain nx (Some x) (x # ys)" by simp
    then show "len y < len x"
      using len [of x "x # ys"] len [OF \<open>chain nx (Some y) ys\<close>] by simp
  qed
qed

lemma ends_acyclic:
  assumes "\<And>k. \<exists>xs. chain nx (Some k) xs"
  shows "\<not> (\<lambda>x y. nx x = Some y)\<^sup>+\<^sup>+ k k"
proof
  assume loop: "(\<lambda>x y. nx x = Some y)\<^sup>+\<^sup>+ k k"
  obtain xs where "chain nx (Some k) xs" using assms by blast
  moreover have "(\<lambda>x y. nx x = Some y)\<^sup>+\<^sup>+ a b \<Longrightarrow> chain nx (Some a) xs \<Longrightarrow>
      \<exists>ys. chain nx (Some b) ys \<and> length ys < length xs" for a b xs
  proof (induction arbitrary: xs rule: tranclp_induct)
    case (base b)
    then show ?case by (cases xs) auto
  next
    case (step b c)
    then obtain ys where "chain nx (Some b) ys" "length ys < length xs" by blast
    with step.hyps(2) show ?case by (cases ys) auto
  qed
  ultimately show False using loop chain_unique by (metis less_irrefl)
qed

lemma desc_irrefl: "cdt_wf m \<Longrightarrow> \<not> desc m k k"
  unfolding desc_def by (rule ends_acyclic) (rule cdt_wfD(6))

lemma desc_parent: "parent (m k) = Some p \<Longrightarrow> desc m p k"
  unfolding desc_def by (rule tranclp.r_into_trancl)

lemma desc_trans: "desc m r k \<Longrightarrow> desc m k j \<Longrightarrow> desc m r j"
  unfolding desc_def by (rule tranclp_trans)

lemma desc_step: "desc m r k \<longleftrightarrow> (\<exists>p. parent (m k) = Some p \<and> (p = r \<or> desc m r p))"
  unfolding desc_def
  by (auto intro: tranclp_into_tranclp2 elim: converse_tranclpE)

section \<open>Child lists\<close>

lemma chain_same_parent:
  assumes "cdt_wf m" and "chain (next_of m) (Some c) xs" and "x \<in> set xs"
  shows "parent (m x) = parent (m c)"
  using assms(2,3)
proof (induction xs arbitrary: c)
  case Nil
  then show ?case by simp
next
  case (Cons a as)
  show ?case
  proof (cases as)
    case Nil
    then show ?thesis using Cons.prems by simp
  next
    case (Cons b bs)
    then show ?thesis
      using Cons.IH [of b] Cons.prems cdt_wfD(2) [OF assms(1), of a b] by auto
  qed
qed

lemma children_ex:
  assumes "cdt_wf m"
  shows "\<exists>cs. chain (next_of m) (first_child (m p)) cs"
  using cdt_wfD(5) [OF assms] by (cases "first_child (m p)") (metis lseg_None, metis)

text \<open>Walking back to the first sibling.\<close>

lemma first_sibling:
  assumes "cdt_wf m" and "parent (m k) = Some p"
  shows "\<exists>f ys. first_child (m p) = Some f \<and> chain (next_of m) (Some f) ys \<and> k \<in> set ys"
proof -
  have wf: "wfp (\<lambda>y x. next_sib (m x) = Some y)"
    by (rule ends_wfp) (rule cdt_wfD(5) [OF assms(1)])
  let ?r = "{(y, x). next_sib (m x) = Some y}"
  have "wf ?r" using wf by (simp add: wfp_def)
  then have "acyclic ?r" by (rule wf_acyclic)
  then have "wf (?r\<inverse>)" by (intro finite_acyclic_wf_converse) (rule finite)
  from this assms(2) show ?thesis
  proof (induction k)
    case (less k)
    show ?case
    proof (cases "prev_sib (m k)")
      case None
      then have "first_child (m p) = Some k" using cdt_wfD(3) [OF assms(1)] less.prems by blast
      moreover obtain ys where ys: "chain (next_of m) (Some k) ys"
        using cdt_wfD(5) [OF assms(1)] by blast
      moreover have "k \<in> set ys" using ys by (cases ys) auto
      ultimately show ?thesis by blast
    next
      case (Some j)
      then have j: "next_sib (m j) = Some k" using cdt_wfD(1) [OF assms(1)] by blast
      then have "parent (m j) = Some p" using cdt_wfD(2) [OF assms(1) j] less.prems by simp
      then obtain f ys where f: "first_child (m p) = Some f" "chain (next_of m) (Some f) ys" "j \<in> set ys"
        using less.IH j by blast
      moreover have "k \<in> set ys" using chain_succ [OF f(2,3) j] .
      ultimately show ?thesis by blast
    qed
  qed
qed

lemma children_set:
  assumes "cdt_wf m" and "chain (next_of m) (first_child (m p)) cs"
  shows "set cs = {k. parent (m k) = Some p}"
proof (cases "first_child (m p)")
  case None
  then have "cs = []" using assms(2) by simp
  then show ?thesis using first_sibling [OF assms(1), of _ p] None by auto
next
  case (Some f)
  then have f: "parent (m f) = Some p" using cdt_wfD(3) [OF assms(1)] by blast
  then have "parent (m k) = Some p" if "k \<in> set cs" for k
    using chain_same_parent [OF assms(1)] assms(2) Some that by metis
  moreover have "k \<in> set cs" if "parent (m k) = Some p" for k
    using first_sibling [OF assms(1) that] assms(2) Some chain_unique
    by (metis option.inject)
  ultimately show ?thesis by blast
qed

lemma parent_nonempty:
  assumes "cdt_wf m" and "parent (m k) = Some p"
  shows "\<not> empty_slot m p" and "\<not> empty_slot m k"
  using first_sibling [OF assms] cdt_wfD(4) [OF assms(1)] assms(2) by (auto simp: detached_def)

lemma no_parent_of_childless:
  assumes "cdt_wf m" and "first_child (m c) = None"
  shows "parent (m k) \<noteq> Some c"
  using first_sibling [OF assms(1)] assms(2) by fastforce

section \<open>Inserting a child\<close>

lemma cdt_insert_child_fields:
  assumes "c \<noteq> p" and "first_child (m p) \<noteq> Some c"
  shows "cap (cdt_insert_child p c m k) = cap (m k)"
    and "revoking (cdt_insert_child p c m k) = revoking (m k)"
    and "parent (cdt_insert_child p c m k) = (if k = c then Some p else parent (m k))"
    and "first_child (cdt_insert_child p c m k) = (if k = p then Some c else first_child (m k))"
    and "next_sib (cdt_insert_child p c m k) = (if k = c then first_child (m p) else next_sib (m k))"
    and "prev_sib (cdt_insert_child p c m k) =
      (if k = c then None else if first_child (m p) = Some k then Some c else prev_sib (m k))"
  using assms by (auto simp: cdt_insert_child_def Let_def upd_opt_apply)

text \<open>Chains that avoid the slots whose link changed.\<close>

lemma ends_avoid:
  assumes "\<And>k. \<exists>xs. chain nx (Some k) xs" and "\<And>k. k \<noteq> c \<Longrightarrow> nx' k = nx k"
    and "\<And>k. nx k \<noteq> Some c" and "nx' c \<noteq> Some c"
  shows "\<exists>xs. chain nx' (Some k) xs"
proof -
  have avoid: "c \<notin> set xs" if "chain nx (Some k) xs" "k \<noteq> c" for k xs
  proof
    assume "c \<in> set xs"
    then obtain ys zs where xs: "xs = ys @ c # zs" by (meson split_list)
    with that have "ys \<noteq> []" by auto
    then obtain us a where "ys = us @ [a]" by (meson rev_exhaust)
    then have "nx a = Some c" using that(1) xs chain_mid [of nx "Some k" us a "c # zs"] by simp
    then show False using assms(3) by blast
  qed
  have other: "\<exists>xs. chain nx' (Some k) xs" if "k \<noteq> c" for k
  proof -
    obtain xs where xs: "chain nx (Some k) xs" using assms(1) by blast
    have "chain nx' (Some k) xs = chain nx (Some k) xs"
      by (rule lseg_cong) (metis avoid [OF xs that] assms(2))
    then show ?thesis using xs by blast
  qed
  show ?thesis
  proof (cases "k = c")
    case True
    show ?thesis
    proof (cases "nx' c")
      case None
      then have "chain nx' (Some k) [c]" using True by simp
      then show ?thesis by blast
    next
      case (Some j)
      then have "j \<noteq> c" using assms(4) by auto
      then obtain xs where "chain nx' (Some j) xs" using other by blast
      then have "chain nx' (Some k) (c # xs)" using True Some by simp
      then show ?thesis by blast
    qed
  qed (rule other)
qed

lemma cdt_insert_child_wf:
  assumes wf: "cdt_wf m" and "c \<noteq> p" and d: "detached (m c)"
    and "\<not> empty_slot m c" and "\<not> empty_slot m p"
  shows "cdt_wf (cdt_insert_child p c m)"
proof -
  have fc: "first_child (m p) \<noteq> Some c"
    using cdt_wfD(3) [OF wf, of p c] d by (auto simp: detached_def)
  note fld = cdt_insert_child_fields [where m = m, OF assms(2) fc]
  have c: "parent (m c) = None" "first_child (m c) = None" "next_sib (m c) = None" "prev_sib (m c) = None"
    using d by (auto simp: detached_def)
  have nopar: "parent (m k) \<noteq> Some c" for k using no_parent_of_childless [OF wf c(2)] .
  have nonext: "next_sib (m k) \<noteq> Some c" for k using cdt_wfD(1) [OF wf, of k c] c by simp
  show ?thesis
  proof (rule cdt_wfI)
    fix a b
    show "next_sib (cdt_insert_child p c m a) = Some b \<longleftrightarrow> prev_sib (cdt_insert_child p c m b) = Some a"
      using cdt_wfD(1) [OF wf, of a b] cdt_wfD(3) [OF wf, of p b] c nonext fc by (auto simp: fld)
    show "parent (cdt_insert_child p c m b) = parent (cdt_insert_child p c m a)"
      if "next_sib (cdt_insert_child p c m a) = Some b"
      using that cdt_wfD(2) [OF wf, of a b] cdt_wfD(3) [OF wf, of p b] nonext fc
      by (auto simp: fld split: if_splits)
  next
    fix q k
    show "first_child (cdt_insert_child p c m q) = Some k \<longleftrightarrow>
        parent (cdt_insert_child p c m k) = Some q \<and> prev_sib (cdt_insert_child p c m k) = None"
      using cdt_wfD(3) [OF wf, of q k] cdt_wfD(3) [OF wf, of p k] c assms(2) fc nopar by (auto simp: fld)
  next
    fix k
    show "detached (cdt_insert_child p c m k)" if "empty_slot (cdt_insert_child p c m) k"
      using that assms(4,5) cdt_wfD(4) [OF wf, of k] cdt_wfD(3) [OF wf, of p k]
      by (auto simp: fld detached_def)
    show "\<exists>xs. chain (next_of (cdt_insert_child p c m)) (Some k) xs"
      by (rule ends_avoid [where c = c, OF cdt_wfD(5) [OF wf]]) (use nonext fc in \<open>auto simp: fld\<close>)
    show "\<exists>xs. chain (parent_of (cdt_insert_child p c m)) (Some k) xs"
      by (rule ends_avoid [where c = c, OF cdt_wfD(6) [OF wf]]) (use nopar assms(2) in \<open>auto simp: fld\<close>)
  qed
qed

section \<open>Unlinking a slot\<close>

lemma reparent_chain:
  "chain (next_of m) c cs \<Longrightarrow>
   reparent p c lst m =
     Some (if cs = [] then lst else last_opt cs,
           \<lambda>k. if k \<in> set cs then (m k)\<lparr>parent := p\<rparr> else m k)"
proof (induction cs arbitrary: c lst m)
  case Nil
  then show ?case by (simp add: reparent.simps)
next
  case (Cons x xs)
  let ?m = "m(x := (m x)\<lparr>parent := p\<rparr>)"
  have "next_of ?m = next_of m" by auto
  then have "chain (next_of ?m) (next_sib (m x)) xs" using Cons.prems by (simp only: lseg.simps)
  note IH = Cons.IH [OF this, of "Some x"]
  have "reparent p c lst m = reparent p (next_sib (m x)) (Some x) ?m"
    using Cons.prems by (subst reparent.simps) simp
  also have "\<dots> = Some (if xs = [] then Some x else last_opt xs,
       \<lambda>k. if k \<in> set xs then (?m k)\<lparr>parent := p\<rparr> else ?m k)"
    by (rule IH)
  finally show ?case by (cases xs) (auto simp: fun_eq_iff)
qed

text \<open>The neighbours of a slot are different from it and from its children.\<close>

lemma cdt_neighbours:
  assumes wf: "cdt_wf m" and cs: "chain (next_of m) (first_child (m k)) cs"
  shows "k \<notin> set cs"
    and "parent (m k) = Some q \<Longrightarrow> q \<noteq> k \<and> q \<notin> set cs"
    and "prev_sib (m k) = Some a \<Longrightarrow> a \<noteq> k \<and> a \<notin> set cs \<and> next_sib (m k) \<noteq> Some a"
    and "next_sib (m k) = Some b \<Longrightarrow> b \<noteq> k \<and> b \<notin> set cs"
proof -
  note set = children_set [OF wf cs]
  have acyc: "\<not> (\<lambda>x y. next_sib (m x) = Some y)\<^sup>+\<^sup>+ a a" for a
    by (rule ends_acyclic) (rule cdt_wfD(5) [OF wf])
  have self: "parent (m k) \<noteq> Some k" using desc_irrefl [OF wf] desc_parent by blast
  show "k \<notin> set cs" using self set by simp
  show "q \<noteq> k \<and> q \<notin> set cs" if "parent (m k) = Some q"
    using that self set desc_irrefl [OF wf] desc_trans desc_parent by blast
  show "b \<noteq> k \<and> b \<notin> set cs" if "next_sib (m k) = Some b"
    using that acyc [of k] cdt_wfD(2) [OF wf that] self set by auto
  show "a \<noteq> k \<and> a \<notin> set cs \<and> next_sib (m k) \<noteq> Some a" if "prev_sib (m k) = Some a"
  proof -
    have ak: "next_sib (m a) = Some k" using that cdt_wfD(1) [OF wf] by blast
    then have "next_sib (m k) \<noteq> Some a"
      using acyc [of k] by (meson tranclp.r_into_trancl tranclp.trancl_into_trancl)
    then show ?thesis using ak acyc [of k] cdt_wfD(2) [OF wf ak] self set by auto
  qed
qed

lemma cdt_unlink_fields:
  assumes wf: "cdt_wf m" and cs: "chain (next_of m) (first_child (m k)) cs"
  defines "hd' \<equiv> if cs = [] then next_sib (m k) else head_opt cs"
  shows "\<exists>m'. cdt_unlink k m = Some m' \<and>
    (\<forall>j. cap (m' j) = cap (m j) \<and> revoking (m' j) = revoking (m j) \<and>
      parent (m' j) =
        (if j = k then None else if j \<in> set cs then parent (m k) else parent (m j)) \<and>
      first_child (m' j) =
        (if j = k then None else if prev_sib (m k) = None \<and> parent (m k) = Some j then hd'
         else first_child (m j)) \<and>
      next_sib (m' j) =
        (if j = k then None else if prev_sib (m k) = Some j then hd'
         else if last_opt cs = Some j then next_sib (m k) else next_sib (m j)) \<and>
      prev_sib (m' j) =
        (if j = k then None else if head_opt cs = Some j then prev_sib (m k)
         else if next_sib (m k) = Some j then (if cs = [] then prev_sib (m k) else last_opt cs)
         else prev_sib (m j)))"
proof -
  note nb = cdt_neighbours [OF wf cs]
  have fc: "first_child (m k) = head_opt cs" using chain_head [OF cs] .
  have hin: "h \<in> set cs" if "head_opt cs = Some h" for h using that by (auto simp: head_opt_Some)
  have lin: "l \<in> set cs" if "last_opt cs = Some l" for l using that by (rule last_opt_in)
  define m1 where "m1 = (\<lambda>j. if j \<in> set cs then (m j)\<lparr>parent := parent (m k)\<rparr> else m j)"
  have red: "reparent (parent (m k)) (first_child (m k)) None m = Some (last_opt cs, m1)"
    using reparent_chain [OF cs, of "parent (m k)" None] by (simp add: m1_def)
  have m1: "cap (m1 j) = cap (m j)" "revoking (m1 j) = revoking (m j)"
    "parent (m1 j) = (if j \<in> set cs then parent (m k) else parent (m j))"
    "first_child (m1 j) = first_child (m j)" "next_sib (m1 j) = next_sib (m j)"
    "prev_sib (m1 j) = prev_sib (m j)" for j
    by (simp_all add: m1_def)
  define m2 where "m2 = upd_opt hd' (\<lambda>v. v\<lparr>prev_sib := prev_sib (m k)\<rparr>)
    (upd_opt (if prev_sib (m k) = None then parent (m k) else None) (\<lambda>v. v\<lparr>first_child := hd'\<rparr>)
      (upd_opt (prev_sib (m k)) (\<lambda>v. v\<lparr>next_sib := hd'\<rparr>) m1))"
  define m3 where "m3 = (if cs = [] then m2
    else upd_opt (next_sib (m k)) (\<lambda>v. v\<lparr>prev_sib := last_opt cs\<rparr>)
      (upd_opt (last_opt cs) (\<lambda>v. v\<lparr>next_sib := next_sib (m k)\<rparr>) m2))"
  have hd': "(if first_child (m k) = None then next_sib (m k) else first_child (m k)) = hd'"
    by (simp add: hd'_def fc)
  have run: "cdt_unlink k m = Some (m3(k := (m3 k)\<lparr>parent := None, first_child := None,
      next_sib := None, prev_sib := None\<rparr>))"
    unfolding cdt_unlink_def Let_def red hd'
    by (cases cs) (auto simp: m3_def m2_def fc upd_opt_def)
  note upd = m3_def m2_def upd_opt_apply m1
  have "cap (m3 j) = cap (m j)" "revoking (m3 j) = revoking (m j)"
    "parent (m3 j) = (if j \<in> set cs then parent (m k) else parent (m j))"
    "first_child (m3 j) = (if prev_sib (m k) = None \<and> parent (m k) = Some j then hd'
         else first_child (m j))" for j
    by (simp_all add: upd)
  moreover have "next_sib (m3 j) = (if prev_sib (m k) = Some j then hd'
      else if last_opt cs = Some j then next_sib (m k) else next_sib (m j))" for j
    using nb(3) lin by (auto simp: upd)
  moreover have "prev_sib (m3 j) = (if head_opt cs = Some j then prev_sib (m k)
      else if next_sib (m k) = Some j then (if cs = [] then prev_sib (m k) else last_opt cs)
      else prev_sib (m j))" for j
    using nb(4) hin by (auto simp: upd hd'_def)
  ultimately show ?thesis by (simp add: run)
qed

lemma desc_induct [consumes 1, case_names up]:
  assumes "cdt_wf m" and "\<And>j. (\<And>p. desc m p j \<Longrightarrow> P p) \<Longrightarrow> P j"
  shows "P j"
proof -
  have "wfp (\<lambda>y x. parent (m x) = Some y)"
    by (rule ends_wfp) (rule cdt_wfD(6) [OF assms(1)])
  then have "wf ({(y, x). parent (m x) = Some y}\<^sup>+)"
    by (simp add: wfp_def wf_trancl)
  moreover have "desc m p j \<Longrightarrow> (p, j) \<in> {(y, x). parent (m x) = Some y}\<^sup>+" for p j
    unfolding desc_def
  proof (induction rule: tranclp_induct)
    case (base y)
    then show ?case by auto
  next
    case (step y z)
    then show ?case by (meson case_prodI mem_Collect_eq trancl_into_trancl2)
  qed
  ultimately show ?thesis
    using assms(2) by (induction j rule: wf_induct_rule) blast
qed

text \<open>The slot map after an unlink, as the field equations describe it.\<close>

definition unlinked :: "slot_id \<Rightarrow> slot_id list \<Rightarrow> slot_map \<Rightarrow> slot_map \<Rightarrow> bool" where
  "unlinked k cs m m' \<longleftrightarrow>
    (\<forall>j. cap (m' j) = cap (m j) \<and> revoking (m' j) = revoking (m j) \<and>
      parent (m' j) =
        (if j = k then None else if j \<in> set cs then parent (m k) else parent (m j)) \<and>
      first_child (m' j) =
        (if j = k then None
         else if prev_sib (m k) = None \<and> parent (m k) = Some j
         then (if cs = [] then next_sib (m k) else head_opt cs)
         else first_child (m j)) \<and>
      next_sib (m' j) =
        (if j = k then None
         else if prev_sib (m k) = Some j then (if cs = [] then next_sib (m k) else head_opt cs)
         else if last_opt cs = Some j then next_sib (m k) else next_sib (m j)) \<and>
      prev_sib (m' j) =
        (if j = k then None else if head_opt cs = Some j then prev_sib (m k)
         else if next_sib (m k) = Some j then (if cs = [] then prev_sib (m k) else last_opt cs)
         else prev_sib (m j)))"

lemma cdt_unlink_unlinked:
  assumes "cdt_wf m" and "chain (next_of m) (first_child (m k)) cs"
  shows "\<exists>m'. cdt_unlink k m = Some m' \<and> unlinked k cs m m'"
  using cdt_unlink_fields [OF assms] unfolding unlinked_def .

lemma unlinkedD:
  assumes "unlinked k cs m m'"
  shows "cap (m' j) = cap (m j)" and "revoking (m' j) = revoking (m j)"
    and "parent (m' j) =
        (if j = k then None else if j \<in> set cs then parent (m k) else parent (m j))"
    and "first_child (m' j) =
        (if j = k then None
         else if prev_sib (m k) = None \<and> parent (m k) = Some j
         then (if cs = [] then next_sib (m k) else head_opt cs)
         else first_child (m j))"
    and "next_sib (m' j) =
        (if j = k then None
         else if prev_sib (m k) = Some j then (if cs = [] then next_sib (m k) else head_opt cs)
         else if last_opt cs = Some j then next_sib (m k) else next_sib (m j))"
    and "prev_sib (m' j) =
        (if j = k then None else if head_opt cs = Some j then prev_sib (m k)
         else if next_sib (m k) = Some j then (if cs = [] then prev_sib (m k) else last_opt cs)
         else prev_sib (m j))"
  using assms unfolding unlinked_def by blast+

lemma unlinked_parent_ends:
  assumes wf: "cdt_wf m" and cs: "chain (next_of m) (first_child (m k)) cs"
    and u: "unlinked k cs m m'"
  shows "\<exists>xs. chain (parent_of m') (Some j) xs"
proof -
  note fld = unlinkedD [OF u] and set = children_set [OF wf cs]
  obtain zs where zs: "chain (parent_of m) (Some j) zs" using cdt_wfD(6) [OF wf] by blast
  have d: "distinct zs" using zs by (rule chain_distinct)
  show ?thesis
  proof (cases "k \<in> set zs")
    case False
    have "parent (m x) \<noteq> Some k" if "x \<in> set zs" for x
      using chain_succ [OF zs that] False by blast
    then have "chain (parent_of m') (Some j) zs"
      using zs False by (subst lseg_cong [where nx' = "parent_of m"]) (auto simp: fld set)
    then show ?thesis by blast
  next
    case True
    then obtain xs ys where split: "zs = xs @ k # ys" by (meson split_list)
    have last: "parent (m p) = Some k" if "last_opt xs = Some p" for p
      using that zs split chain_mid [of "parent_of m" "Some j" _ p "k # ys"]
      by (auto simp: last_opt_Some)
    have other: "parent (m y) \<noteq> Some k" if "y \<in> set xs \<union> set ys" "last_opt xs \<noteq> Some y" for y
      using chain_pred [OF zs [unfolded split], of y] that by auto
    have ch: "chain (parent_of m') (if xs = [] then parent (m k) else Some j) (xs @ ys)"
      by (rule chain_remove [where t = k, OF zs [unfolded split]])
         (use last other d split in \<open>auto simp: fld set dest: last_opt_in\<close>)
    show ?thesis
    proof (cases "xs = []")
      case True
      then have "chain (parent_of m') (Some j) [k]" using zs split fld(3) [of k] by simp
      then show ?thesis by blast
    next
      case False
      then show ?thesis using ch by auto
    qed
  qed
qed

lemma unlinked_next_ends:
  assumes wf: "cdt_wf m" and cs: "chain (next_of m) (first_child (m k)) cs"
    and u: "unlinked k cs m m'"
  shows "\<exists>xs. chain (next_of m') (Some j) xs"
proof -
  note fld = unlinkedD [OF u] and set = children_set [OF wf cs] and nb = cdt_neighbours [OF wf cs]
  have self: "parent (m k) \<noteq> Some k" using nb(1) set by auto
  obtain ys where kys: "chain (next_of m) (Some k) (k # ys)"
    using cdt_wfD(5) [OF wf, of k] by (metis lseg.simps(1) lseg.simps(2) neq_Nil_conv option.distinct(1)
        option.inject)
  then have ys: "chain (next_of m) (next_sib (m k)) ys" by simp
  have kd: "k \<notin> set ys" using chain_distinct [OF kys] by simp
  have par: "parent (m x) = parent (m k)" if "x \<in> set (k # ys)" for x
    using chain_same_parent [OF wf kys that] .
  have prev_out: "prev_sib (m k) \<noteq> Some x" if "x \<in> set ys" for x
    using chain_succ [OF ys that] cdt_wfD(1) [OF wf, of x k] kd by blast
  have ys': "chain (next_of m') (next_sib (m k)) ys"
  proof -
    have "next_sib (m' x) = next_sib (m x)" if "x \<in> set ys" for x
      using that kd prev_out [OF that] par [of x] self last_opt_in [of cs x] set
      by (auto simp: fld)
    then show ?thesis using ys by (subst lseg_cong [where nx' = "next_of m"]) auto
  qed
  have suffix: "lseg (next_of m') (Some c) zs (next_sib (m k))"
    if z: "chain (next_of m) (Some c) zs" and c: "c \<in> set cs" for c zs
  proof -
    obtain us vs where uv: "cs = us @ c # vs" using c by (meson split_list)
    then have "chain (next_of m) (Some c) (c # vs)" using cs chain_suffix by metis
    then have zs: "zs = c # vs" using z chain_unique by metis
    have l: "last_opt cs = Some (last zs)" using uv zs by simp
    have "set zs \<subseteq> set cs" using uv zs by auto
    then have in_cs: "x \<in> set cs" if "x \<in> set zs" for x using that by blast
    have "prev_sib (m k) \<noteq> Some x" if "x \<in> set cs" for x using nb(3) that by blast
    then show ?thesis
      by (intro lseg_retarget [OF z])
         (use zs l in_cs nb(1) chain_distinct [OF z] in \<open>auto simp: fld(5)\<close>)
  qed
  have head: "chain (next_of m') (if cs = [] then next_sib (m k) else head_opt cs) (cs @ ys)"
  proof (cases cs)
    case Nil
    then show ?thesis using ys' by simp
  next
    case (Cons c cs')
    then have "lseg (next_of m') (Some c) cs (next_sib (m k))"
      using suffix [of c cs] cs by simp
    then show ?thesis using ys' Cons by (auto simp: lseg_append)
  qed
  obtain zs where zs: "chain (next_of m) (Some j) zs" using cdt_wfD(5) [OF wf] by blast
  consider "j = k" | "j \<noteq> k" "k \<in> set zs" | "k \<notin> set zs" "j \<in> set cs" | "k \<notin> set zs" "j \<notin> set cs"
    by blast
  then show ?thesis
  proof cases
    case 1
    then have "chain (next_of m') (Some j) [k]" by (simp add: fld)
    then show ?thesis by blast
  next
    case 2
    then obtain xs vs where xv: "zs = xs @ k # vs" by (meson split_list)
    then have vs: "vs = ys" using chain_suffix zs kys chain_unique by (metis list.inject)
    have "xs \<noteq> []" using 2 zs xv by auto
    then have l: "last_opt xs = Some (last xs)" by (cases xs) auto
    have "zs = butlast xs @ last xs # k # vs" using xv \<open>xs \<noteq> []\<close> by simp
    then have "next_sib (m (last xs)) = Some k"
      using chain_mid [of "next_of m" "Some j" "butlast xs" "last xs" "k # vs"] zs by simp
    then have pv: "prev_sib (m k) = Some (last xs)" using cdt_wfD(1) [OF wf] by blast
    have xs_par: "parent (m x) = parent (m k)" if "x \<in> set xs" for x
      using chain_same_parent [OF wf zs, of x] chain_same_parent [OF wf zs, of k] xv that by simp
    have seg: "lseg (next_of m) (Some j) xs (Some k)" using zs xv by (auto simp: lseg_append)
    have "x \<notin> set cs" if "x \<in> set xs" for x using xs_par [OF that] self set by simp
    then have "lseg (next_of m') (Some j) xs (if cs = [] then next_sib (m k) else head_opt cs)"
      by (intro lseg_retarget [OF seg \<open>xs \<noteq> []\<close>])
         (use chain_distinct [OF zs] xv pv nb(3) last_opt_in [of cs] in \<open>auto simp: fld(5)\<close>)
    then have "chain (next_of m') (Some j) (xs @ cs @ ys)" using head by (auto simp: lseg_append)
    then show ?thesis by blast
  next
    case 3
    then have "chain (next_of m') (Some j) (zs @ ys)"
      using suffix [OF zs] ys' by (auto simp: lseg_append)
    then show ?thesis by blast
  next
    case 4
    have "x \<notin> set cs" if "x \<in> set zs" for x
      using chain_same_parent [OF wf zs that] 4 set by simp
    moreover have "prev_sib (m k) \<noteq> Some x" if "x \<in> set zs" for x
      using chain_succ [OF zs that] cdt_wfD(1) [OF wf, of x k] 4 by blast
    ultimately have "next_sib (m' x) = next_sib (m x)" if "x \<in> set zs" for x
      using that 4 last_opt_in [of cs x] by (auto simp: fld(5))
    then have "chain (next_of m') (Some j) zs"
      using zs by (subst lseg_cong [where nx' = "next_of m"]) auto
    then show ?thesis by blast
  qed
qed

lemma unlinked_wf:
  assumes wf: "cdt_wf m" and cs: "chain (next_of m) (first_child (m k)) cs"
    and u: "unlinked k cs m m'"
  shows "cdt_wf m'"
proof -
  note fld = unlinkedD [OF u] and set = children_set [OF wf cs] and nb = cdt_neighbours [OF wf cs]
  have d: "distinct cs" using cs by (rule chain_distinct)
  have hd_prev: "prev_sib (m c) = None \<and> c \<in> set cs" if "head_opt cs = Some c" for c
    using that chain_head [OF cs] cdt_wfD(3) [OF wf, of k c] by (auto simp: head_opt_Some)
  have last_next: "next_sib (m c) = None \<and> c \<in> set cs" if "last_opt cs = Some c" for c
    using that chain_last_None cs by (auto simp: last_opt_Some)
  have hd_iff: "head_opt cs = Some c" if "c \<in> set cs" "prev_sib (m c) = None" for c
    using that set cdt_wfD(3) [OF wf, of k c] chain_head [OF cs] by simp
  have cs_par: "c \<in> set cs \<Longrightarrow> parent (m c) = Some k" for c using set by simp
  have cs_next: "next_sib (m a) = Some b \<Longrightarrow> a \<in> set cs \<longleftrightarrow> b \<in> set cs" for a b
    using cdt_wfD(2) [OF wf, of a b] set by simp
  note N = cdt_wfD(1) [OF wf] and P = cdt_wfD(2) [OF wf] and F = cdt_wfD(3) [OF wf]
  show ?thesis
  proof (rule cdt_wfI)
    fix a b
    show "next_sib (m' a) = Some b \<longleftrightarrow> prev_sib (m' b) = Some a"
    proof (cases "a = k \<or> b = k")
      case True
      have "next_sib (m' a) \<noteq> Some k"
        using nb(1,4) N [of a k] hd_prev [of k] by (auto simp: fld(5))
      moreover have "prev_sib (m' b) \<noteq> Some k"
        using nb(1,3) N [of k b] last_next [of k] by (auto simp: fld(6))
      ultimately show ?thesis using True fld(5) [of k] fld(6) [of k] by auto
    next
      case False
      consider "prev_sib (m k) = Some a" | "prev_sib (m k) \<noteq> Some a" "last_opt cs = Some a"
        | "prev_sib (m k) \<noteq> Some a" "last_opt cs \<noteq> Some a" by blast
      then show ?thesis
      proof cases
        case 1
        then show ?thesis
          using False nb N [of a b] N [of a k] hd_prev last_next by (auto simp: fld)
      next
        case 2
        then show ?thesis
          using False nb N [of a b] N [of k b] hd_prev [of b] last_next [of a] by (auto simp: fld)
      next
        case 3
        then show ?thesis
          using False nb N [of a b] N [of k b] hd_prev [of b] by (auto simp: fld)
      qed
    qed
  next
    fix a b
    assume "next_sib (m' a) = Some b"
    then show "parent (m' b) = parent (m' a)"
      using nb N [of a k] P [of a b] P [of k b] P [of a k] hd_prev last_next cs_next [of a b]
      by (auto simp: fld split: if_splits)
  next
    fix p c
    show "first_child (m' p) = Some c \<longleftrightarrow> parent (m' c) = Some p \<and> prev_sib (m' c) = None"
    proof (cases "p = k \<or> c = k")
      case True
      have "first_child (m' p) \<noteq> Some k"
        using nb(1,4) F [of p k] hd_prev [of k] by (auto simp: fld(4))
      moreover have "parent (m' c) \<noteq> Some k"
        using nb(2) set by (auto simp: fld(3))
      ultimately show ?thesis using True fld(3) [of k] fld(4) [of k] by auto
    next
      case False
      show ?thesis
      proof (cases "c \<in> set cs")
        case True
        then have "first_child (m p) \<noteq> Some c" "next_sib (m k) \<noteq> Some c"
          using cs_par F [of p c] False nb(4) by auto
        then show ?thesis
          using True False hd_prev [of c] hd_iff [of c] by (auto simp: fld(3,4,6))
      next
        case outside: False
        then have "head_opt cs \<noteq> Some c" using hd_prev by blast
        then show ?thesis
          using False outside N [of k c] P [of k c] F [of p c] F [of p k] last_next nb(3)
          by (cases "next_sib (m k) = Some c"; cases "cs = []") (auto simp: fld(3,4,6))
      qed
    qed
  next
    fix j
    show "detached (m' j)" if "empty_slot m' j"
      using that cdt_wfD(4) [OF wf, of j] nb N [of j k] N [of k j] F [of j k] cs_par [of j]
        hd_prev [of j] last_next [of j] parent_nonempty [OF wf, of k j]
      by (auto simp: fld detached_def)
  qed (rule unlinked_next_ends [OF wf cs u], rule unlinked_parent_ends [OF wf cs u])
qed

lemma unlinked_desc:
  assumes wf: "cdt_wf m" and cs: "chain (next_of m) (first_child (m k)) cs"
    and u: "unlinked k cs m m'" and "j \<noteq> k"
  shows "desc m' r j \<longleftrightarrow> desc m r j \<and> r \<noteq> k"
  using wf assms(4)
proof (induction j rule: desc_induct)
  case (up j)
  note fld = unlinkedD(3) [OF u] and set = children_set [OF wf cs]
  show ?case
  proof (cases "parent (m j) = Some k")
    case True
    have "desc m' r j \<longleftrightarrow> (\<exists>p. parent (m k) = Some p \<and> (p = r \<or> desc m' r p))"
      using True up.prems set by (subst desc_step) (simp add: fld)
    also have "\<dots> \<longleftrightarrow> (\<exists>p. parent (m k) = Some p \<and> r \<noteq> k \<and> (p = r \<or> desc m r p))"
    proof -
      have "desc m' r p \<longleftrightarrow> desc m r p \<and> r \<noteq> k" and "p \<noteq> k" if "parent (m k) = Some p" for p
      proof -
        show "p \<noteq> k" using cdt_neighbours(2) [OF wf cs that] by blast
        then show "desc m' r p \<longleftrightarrow> desc m r p \<and> r \<noteq> k"
          using up.IH [of p] desc_parent [of m j k] desc_parent [of m k p] True that desc_trans by blast
      qed
      then show ?thesis by blast
    qed
    also have "\<dots> \<longleftrightarrow> desc m r k \<and> r \<noteq> k" by (subst (2) desc_step) blast
    also have "\<dots> \<longleftrightarrow> desc m r j \<and> r \<noteq> k" using True by (subst (2) desc_step) auto
    finally show ?thesis .
  next
    case False
    then have "parent (m' j) = parent (m j)" using up.prems set by (simp add: fld)
    then show ?thesis
      using up.IH desc_parent [of m j] False desc_step [of m' r j] desc_step [of m r j]
      by (metis option.inject)
  qed
qed

section \<open>Emptying a slot\<close>

text \<open>The slot map after \<open>delete_prepare\<close>: unlinked, then overwritten with the empty slot.\<close>

lemma empty_detached_wf:
  assumes "cdt_wf m" and "detached (m k)"
  shows "cdt_wf (m(k := slot_empty))" and "desc (m(k := slot_empty)) = desc m"
proof -
  have links: "parent ((m(k := slot_empty)) j) = parent (m j)"
    "first_child ((m(k := slot_empty)) j) = first_child (m j)"
    "next_sib ((m(k := slot_empty)) j) = next_sib (m j)"
    "prev_sib ((m(k := slot_empty)) j) = prev_sib (m j)" for j
    using assms(2) by (auto simp: detached_def)
  show "desc (m(k := slot_empty)) = desc m" unfolding desc_def by (simp only: links)
  show "cdt_wf (m(k := slot_empty))"
    using assms(1) unfolding cdt_wf_def detached_def by (simp only: links) (use assms(2) in \<open>auto simp: detached_def\<close>)
qed

text \<open>What a step that only deletes may do to the slots.\<close>

definition shrinks :: "slot_map \<Rightarrow> slot_map \<Rightarrow> bool" where
  "shrinks m m' \<longleftrightarrow>
     (\<forall>j. empty_slot m' j \<or> cap (m' j) = cap (m j) \<and> revoking (m' j) = revoking (m j)) \<and>
     (\<forall>r j. \<not> empty_slot m' r \<longrightarrow> \<not> empty_slot m' j \<longrightarrow> desc m' r j = desc m r j)"

lemma shrinks_refl [simp]: "shrinks m m"
  by (simp add: shrinks_def)

lemma shrinks_nonempty: "shrinks m m' \<Longrightarrow> \<not> empty_slot m' j \<Longrightarrow> \<not> empty_slot m j"
  by (metis shrinks_def)

lemma shrinks_trans: "shrinks m m' \<Longrightarrow> shrinks m' m'' \<Longrightarrow> shrinks m m''"
  unfolding shrinks_def by metis

text \<open>
  \<open>cdt_unlink\<close> and the overwrite, as one step: it always returns on a well-formed tree,
  keeps it well formed, empties exactly this slot, and keeps every other derivation.
\<close>

lemma cdt_delete_slot:
  assumes "cdt_wf m"
  shows "\<exists>m'. cdt_unlink k m = Some m' \<and> cdt_wf (m'(k := slot_empty)) \<and>
    shrinks m (m'(k := slot_empty)) \<and>
    (\<forall>j. j \<noteq> k \<longrightarrow> cap (m' j) = cap (m j) \<and> revoking (m' j) = revoking (m j))"
proof -
  obtain cs where cs: "chain (next_of m) (first_child (m k)) cs" using children_ex [OF assms] by blast
  obtain m' where m': "cdt_unlink k m = Some m'" "unlinked k cs m m'"
    using cdt_unlink_unlinked [OF assms cs] by blast
  note fld = unlinkedD [OF m'(2)] and wf = unlinked_wf [OF assms cs m'(2)]
  have "detached (m' k)" by (simp add: detached_def fld)
  note e = empty_detached_wf [OF wf this]
  have "shrinks m (m'(k := slot_empty))"
    unfolding shrinks_def using unlinked_desc [OF assms cs m'(2)] by (auto simp: fld e(2))
  then show ?thesis using m'(1) e(1) fld by auto
qed

section \<open>Moving a slot\<close>

definition swap_slots :: "slot_id \<Rightarrow> slot_id \<Rightarrow> slot_id \<Rightarrow> slot_id" where
  "swap_slots a b j = (if j = a then b else if j = b then a else j)"

lemma swap_slots_simps [simp]:
  "swap_slots a b a = b" "swap_slots a b b = a" "j \<noteq> a \<Longrightarrow> j \<noteq> b \<Longrightarrow> swap_slots a b j = j"
  "swap_slots a b (swap_slots a b j) = j"
  by (auto simp: swap_slots_def)

lemma swap_slots_inject [simp]: "swap_slots a b i = swap_slots a b j \<longleftrightarrow> i = j"
  by (metis swap_slots_simps(4))

text \<open>\<open>m'\<close> has the links of \<open>m\<close> with two slots exchanged.\<close>

definition renamed :: "(slot_id \<Rightarrow> slot_id) \<Rightarrow> slot_map \<Rightarrow> slot_map \<Rightarrow> bool" where
  "renamed f m m' \<longleftrightarrow>
     (\<forall>j. parent (m' j) = map_option f (parent (m (f j))) \<and>
          first_child (m' j) = map_option f (first_child (m (f j))) \<and>
          next_sib (m' j) = map_option f (next_sib (m (f j))) \<and>
          prev_sib (m' j) = map_option f (prev_sib (m (f j))) \<and>
          empty_slot m' j = empty_slot m (f j))"

lemma map_option_inv_Some:
  "(\<And>j. f (f j) = j) \<Longrightarrow> map_option f x = Some y \<longleftrightarrow> x = Some (f y)"
  by (cases x) auto

lemma lseg_rename:
  assumes "\<And>j. f (f j) = j" and "\<And>j. nx' j = map_option f (nx (f j))"
  shows "lseg nx h xs q \<Longrightarrow> lseg nx' (map_option f h) (map f xs) (map_option f q)"
proof (induction xs arbitrary: h)
  case Nil
  then show ?case by simp
next
  case (Cons x xs)
  then show ?case using Cons.IH [of "nx x"] assms by simp
qed

lemma renamed_wf:
  assumes inv: "\<And>j. f (f j) = j" and wf: "cdt_wf m" and r: "renamed f m m'"
  shows "cdt_wf m'"
proof -
  note r = r [unfolded renamed_def, rule_format] and iff = map_option_inv_Some [of f, OF inv]
  have ends: "\<exists>xs. chain nx' (Some k) xs"
    if e: "\<And>k. \<exists>xs. chain nx (Some k) xs" and n: "\<And>j. nx' j = map_option f (nx (f j))" for nx nx' k
  proof -
    obtain xs where "chain nx (Some (f k)) xs" using e by blast
    from lseg_rename [of f nx', OF inv n this] show ?thesis using inv by auto
  qed
  show ?thesis
  proof (rule cdt_wfI)
    fix a b
    show "next_sib (m' a) = Some b \<longleftrightarrow> prev_sib (m' b) = Some a"
      using cdt_wfD(1) [OF wf, of "f a" "f b"] r [of a] r [of b] iff by simp
    show "parent (m' b) = parent (m' a)" if "next_sib (m' a) = Some b"
      using that cdt_wfD(2) [OF wf, of "f a" "f b"] r [of a] r [of b] iff by simp
  next
    fix p c
    show "first_child (m' p) = Some c \<longleftrightarrow> parent (m' c) = Some p \<and> prev_sib (m' c) = None"
      using cdt_wfD(3) [OF wf, of "f p" "f c"] r [of p] r [of c] iff by simp
  next
    fix k
    show "detached (m' k)" if "empty_slot m' k"
      using that cdt_wfD(4) [OF wf, of "f k"] r [of k] by (simp add: detached_def)
    show "\<exists>xs. chain (next_of m') (Some k) xs"
      by (rule ends [where nx = "next_of m", OF cdt_wfD(5) [OF wf]]) (simp only: r)
    show "\<exists>xs. chain (parent_of m') (Some k) xs"
      by (rule ends [where nx = "parent_of m", OF cdt_wfD(6) [OF wf]]) (simp only: r)
  qed
qed

lemma renamed_desc:
  assumes inv: "\<And>j. f (f j) = j" and r: "renamed f m m'"
  shows "desc m' r j \<longleftrightarrow> desc m (f r) (f j)"
proof -
  have up: "desc m2 (f r) (f j)"
    if "desc m1 r j" and "\<And>j. parent (m2 j) = map_option f (parent (m1 (f j)))" for m1 m2 r j
    using that(1) unfolding desc_def
  proof (induction rule: tranclp_induct)
    case (base y)
    then show ?case using that(2) [of "f j"] inv by (intro tranclp.r_into_trancl) simp
  next
    case (step y z)
    have "parent (m2 (f y)) = Some (f z)" using that(2) [of "f y"] inv step.hyps(2) by simp
    then show ?case using step.IH by (rule tranclp.trancl_into_trancl [rotated])
  qed
  have r': "parent (m' j) = map_option f (parent (m (f j)))" for j
    using r by (simp add: renamed_def)
  have "parent (m j) = map_option f (parent (m' (f j)))" for j
    using r' [of "f j"] inv by (simp add: option.map_comp comp_def option.map_ident)
  then show ?thesis using up [of m' r j m] up [of m "f r" "f j" m'] r' inv by auto
qed

lemma slot_move_renamed:
  assumes wf: "cdt_wf m" and "src \<noteq> dst" and "empty_slot m dst"
  shows "\<exists>m'. slot_move src dst m = Some m' \<and> renamed (swap_slots src dst) m m' \<and>
    m' src = slot_empty \<and> cap (m' dst) = cap (m src) \<and> revoking (m' dst) = revoking (m src) \<and>
    (\<forall>j. j \<noteq> src \<longrightarrow> j \<noteq> dst \<longrightarrow> cap (m' j) = cap (m j) \<and> revoking (m' j) = revoking (m j))"
proof -
  obtain cs where cs: "chain (next_of m) (first_child (m src)) cs" using children_ex [OF wf] by blast
  note set = children_set [OF wf cs] and nb = cdt_neighbours [OF wf cs]
  have d: "parent (m dst) = None" "first_child (m dst) = None" "next_sib (m dst) = None"
    "prev_sib (m dst) = None"
    using cdt_wfD(4) [OF wf assms(3)] by (auto simp: detached_def)
  have to_dst: "parent (m j) \<noteq> Some dst" "first_child (m j) \<noteq> Some dst" "next_sib (m j) \<noteq> Some dst"
    "prev_sib (m j) \<noteq> Some dst" for j
    using no_parent_of_childless [OF wf d(2)] cdt_wfD(3) [OF wf, of j dst] cdt_wfD(1) [OF wf, of j dst]
      cdt_wfD(1) [OF wf, of dst j] d by auto
  have to_src: "parent (m j) = Some src \<longleftrightarrow> j \<in> set cs"
    "first_child (m j) = Some src \<longleftrightarrow> parent (m src) = Some j \<and> prev_sib (m src) = None"
    "next_sib (m j) = Some src \<longleftrightarrow> prev_sib (m src) = Some j"
    "prev_sib (m j) = Some src \<longleftrightarrow> next_sib (m src) = Some j" for j
    using set cdt_wfD(3) [OF wf, of j src] cdt_wfD(1) [OF wf, of j src] cdt_wfD(1) [OF wf, of src j]
    by auto
  have dcs: "dst \<notin> set cs" using set d(1) by simp
  let ?v = "m src"
  define d' where "d' = (m dst)\<lparr>cap := cap ?v, parent := parent ?v, first_child := first_child ?v,
    next_sib := next_sib ?v, prev_sib := prev_sib ?v, revoking := revoking ?v\<rparr>"
  define m1 where "m1 = upd_opt (next_sib ?v) (\<lambda>v. v\<lparr>prev_sib := Some dst\<rparr>)
    (upd_opt (prev_sib ?v) (\<lambda>v. v\<lparr>next_sib := Some dst\<rparr>)
      (upd_opt (parent ?v)
        (\<lambda>v. if first_child v = Some src then v\<lparr>first_child := Some dst\<rparr> else v) (m(dst := d'))))"
  have m1: "cap (m1 j) = cap ((m(dst := d')) j)" "revoking (m1 j) = revoking ((m(dst := d')) j)"
    "parent (m1 j) = parent ((m(dst := d')) j)"
    "first_child (m1 j) = (if parent ?v = Some j \<and> first_child (m j) = Some src then Some dst
       else first_child ((m(dst := d')) j))"
    "next_sib (m1 j) = (if prev_sib ?v = Some j then Some dst else next_sib ((m(dst := d')) j))"
    "prev_sib (m1 j) = (if next_sib ?v = Some j then Some dst else prev_sib ((m(dst := d')) j))" for j
    using to_dst by (auto simp: m1_def upd_opt_apply)
  have "chain (next_of m1) (first_child ?v) cs"
    using cs nb(3) dcs by (subst lseg_cong [where nx' = "next_of m"]) (auto simp: m1)
  note red = reparent_chain [OF this, of "Some dst" None]
  define m2 where "m2 = (\<lambda>k. if k \<in> set cs then (m1 k)\<lparr>parent := Some dst\<rparr> else m1 k)"
  have run: "slot_move src dst m = Some (m2(src := slot_empty))"
  proof -
    have "slot_move src dst m =
        (reparent (Some dst) (first_child ?v) None m1 \<bind> (\<lambda>(_, m). Some (m(src := slot_empty))))"
      by (simp add: slot_move_def Let_def m1_def d'_def)
    then show ?thesis by (simp add: red m2_def)
  qed
  have m2: "cap (m2 j) = cap (m1 j)" "revoking (m2 j) = revoking (m1 j)"
    "parent (m2 j) = (if j \<in> set cs then Some dst else parent (m1 j))"
    "first_child (m2 j) = first_child (m1 j)" "next_sib (m2 j) = next_sib (m1 j)"
    "prev_sib (m2 j) = prev_sib (m1 j)" for j
    by (simp_all add: m2_def)
  have swap: "map_option (swap_slots src dst) x = (if x = Some src then Some dst else x)"
    if "x \<noteq> Some dst" for x
    using that by (cases x) (auto simp: swap_slots_def)
  have src: "parent ?v \<noteq> Some src" "first_child ?v \<noteq> Some src" "next_sib ?v \<noteq> Some src"
    "prev_sib ?v \<noteq> Some src"
    using nb(2-4) [of src] to_src(2) [of src] by blast+
  have "renamed (swap_slots src dst) m (m2(src := slot_empty))"
    unfolding renamed_def
  proof (intro allI)
    fix j
    consider "j = src" | "j = dst" | "j \<noteq> src" "j \<noteq> dst" by blast
    then show "parent ((m2(src := slot_empty)) j) = map_option (swap_slots src dst) (parent (m (swap_slots src dst j))) \<and>
      first_child ((m2(src := slot_empty)) j) = map_option (swap_slots src dst) (first_child (m (swap_slots src dst j))) \<and>
      next_sib ((m2(src := slot_empty)) j) = map_option (swap_slots src dst) (next_sib (m (swap_slots src dst j))) \<and>
      prev_sib ((m2(src := slot_empty)) j) = map_option (swap_slots src dst) (prev_sib (m (swap_slots src dst j))) \<and>
      empty_slot (m2(src := slot_empty)) j = empty_slot m (swap_slots src dst j)"
    proof cases
      case 1
      then show ?thesis using d assms(2,3) by simp
    next
      case 2
      then show ?thesis
        using assms(2) src to_dst dcs by (simp add: swap m2 m1 d'_def)
    next
      case 3
      then show ?thesis using to_dst to_src by (simp add: swap m2 m1)
    qed
  qed
  then show ?thesis using run assms(2) by (auto simp: m2 m1 d'_def)
qed

section \<open>Walking the tree\<close>

lemma desc_induct_down [consumes 1, case_names down]:
  assumes "cdt_wf m" and "\<And>p. (\<And>j. desc m p j \<Longrightarrow> P j) \<Longrightarrow> P p"
  shows "P p"
proof -
  let ?r = "{(j, p). desc m p j}"
  have "trans ?r" by (rule transI) (auto intro: desc_trans)
  then have "acyclic ?r" using desc_irrefl [OF assms(1)] by (simp add: acyclic_def trancl_id)
  then have "wf ?r" by (intro finite_acyclic_wf) (rule finite)
  then show ?thesis using assms(2) by (induction p rule: wf_induct_rule) blast
qed

lemma first_child_desc: "cdt_wf m \<Longrightarrow> first_child (m p) = Some c \<Longrightarrow> desc m p c"
  using cdt_wfD(3) desc_parent by blast

lemma descend_to_leaf_leaf:
  assumes "cdt_wf m"
  shows "\<exists>l. descend_to_leaf m k = Some l \<and> first_child (m l) = None \<and> (l = k \<or> desc m k l)"
  using assms
proof (induction k rule: desc_induct_down)
  case (down k)
  show ?case
  proof (cases "first_child (m k)")
    case None
    then show ?thesis by (simp add: descend_to_leaf.simps)
  next
    case (Some c)
    then have c: "desc m k c" using first_child_desc assms by blast
    then obtain l where "descend_to_leaf m c = Some l" "first_child (m l) = None" "l = c \<or> desc m c l"
      using down by blast
    then show ?thesis
      using Some c desc_trans by (subst descend_to_leaf.simps) auto
  qed
qed

lemma ancestor_or_self_revoking_iff:
  assumes "cdt_wf m"
  shows "ancestor_or_self_revoking m k =
    Some (\<exists>a. (a = k \<or> desc m a k) \<and> revoking (m a))"
  using assms
proof (induction k rule: desc_induct)
  case (up k)
  show ?case
  proof (cases "revoking (m k) \<or> parent (m k) = None")
    case True
    then show ?thesis using desc_step [of m _ k] by (subst ancestor_or_self_revoking.simps) auto
  next
    case False
    then obtain p where p: "parent (m k) = Some p" "\<not> revoking (m k)" by blast
    have "ancestor_or_self_revoking m k = ancestor_or_self_revoking m p"
      using p by (subst ancestor_or_self_revoking.simps) simp
    also have "\<dots> = Some (\<exists>a. (a = p \<or> desc m a p) \<and> revoking (m a))"
      using up desc_parent p by blast
    also have "(\<exists>a. (a = p \<or> desc m a p) \<and> revoking (m a)) \<longleftrightarrow>
        (\<exists>a. (a = k \<or> desc m a k) \<and> revoking (m a))"
      using p desc_step [of m _ k] by auto
    finally show ?thesis .
  qed
qed

lemma desc_last: "desc m r k \<Longrightarrow> \<exists>x. parent (m x) = Some r"
  unfolding desc_def by (erule tranclp.cases) blast+

lemma childless_no_desc: "cdt_wf m \<Longrightarrow> first_child (m r) = None \<Longrightarrow> \<not> desc m r j"
  using desc_last no_parent_of_childless by blast

lemma desc_nonempty: "cdt_wf m \<Longrightarrow> desc m r k \<Longrightarrow> \<not> empty_slot m r \<and> \<not> empty_slot m k"
  using desc_last [of m r k] desc_step [of m r k] parent_nonempty by blast

lemma insert_child_desc:
  assumes wf: "cdt_wf m" and "c \<noteq> p" and d: "detached (m c)"
  shows "desc (cdt_insert_child p c m) r j \<longleftrightarrow>
    desc m r j \<or> j = c \<and> (r = p \<or> desc m r p)"
proof -
  have fc: "first_child (m p) \<noteq> Some c"
    using cdt_wfD(3) [OF wf, of p c] d by (auto simp: detached_def)
  note fld = cdt_insert_child_fields(3) [where m = m, OF assms(2) fc]
  have nc: "parent (m k) \<noteq> Some c" for k
    using no_parent_of_childless [OF wf] d by (auto simp: detached_def)
  have other: "desc (cdt_insert_child p c m) r j \<longleftrightarrow> desc m r j" if "j \<noteq> c" for j
    using wf that
  proof (induction j rule: desc_induct)
    case (up j)
    then have "parent (cdt_insert_child p c m j) = parent (m j)" by (simp add: fld)
    then show ?case
      using up.IH desc_parent [of m j] nc [of j] desc_step [of "cdt_insert_child p c m" r j]
        desc_step [of m r j] by metis
  qed
  show ?thesis
  proof (cases "j = c")
    case True
    have "\<not> desc m r c" using desc_step [of m r c] d by (simp add: detached_def)
    then show ?thesis
      using True other [of p] assms(2) desc_step [of "cdt_insert_child p c m" r c] by (auto simp: fld)
  next
    case False
    then show ?thesis using other by blast
  qed
qed

section \<open>The capability space as a partial map\<close>

text \<open>
  What a slot holds. Each operation is a plain map update at this level; the links only
  decide what revocation reaches.
\<close>

definition slot_cap :: "slot_map \<Rightarrow> slot_id \<Rightarrow> capability option" where
  "slot_cap m k = (if empty_slot m k then None else Some (cap (m k)))"

lemma slot_cap_None [simp]: "slot_cap m k = None \<longleftrightarrow> empty_slot m k"
  by (simp add: slot_cap_def)

lemma slot_move_ok:
  assumes "cdt_wf m" and "src \<noteq> dst" and "empty_slot m dst"
  shows "\<exists>m'. slot_move src dst m = Some m' \<and> cdt_wf m' \<and>
    slot_cap m' = (slot_cap m)(dst := slot_cap m src, src := None) \<and>
    (\<forall>r j. desc m' r j = desc m (swap_slots src dst r) (swap_slots src dst j))"
proof -
  obtain m' where m': "slot_move src dst m = Some m'" "renamed (swap_slots src dst) m m'"
    "m' src = slot_empty" "cap (m' dst) = cap (m src)"
    "\<And>j. j \<noteq> src \<Longrightarrow> j \<noteq> dst \<Longrightarrow> cap (m' j) = cap (m j)"
    using slot_move_renamed [OF assms] by blast
  have "cdt_wf m'" by (rule renamed_wf [OF _ assms(1) m'(2)]) simp
  moreover have "slot_cap m' = (slot_cap m)(dst := slot_cap m src, src := None)"
    using m'(3-5) by (auto simp: fun_eq_iff slot_cap_def)
  moreover have "desc m' r j = desc m (swap_slots src dst r) (swap_slots src dst j)" for r j
    by (rule renamed_desc [OF _ m'(2)]) simp
  ultimately show ?thesis using m'(1) by blast
qed

lemma cdt_wf_empty: "cdt_wf (\<lambda>_. slot_empty)"
proof (rule cdt_wfI)
  show "\<exists>xs. chain (next_of (\<lambda>_. slot_empty)) (Some k) xs" for k
    by (rule exI [of _ "[k]"]) simp
  show "\<exists>xs. chain (parent_of (\<lambda>_. slot_empty)) (Some k) xs" for k
    by (rule exI [of _ "[k]"]) simp
qed (auto simp: detached_def)

lemma cdt_wf_cong:
  assumes "\<And>j. parent (m' j) = parent (m j) \<and> first_child (m' j) = first_child (m j) \<and>
      next_sib (m' j) = next_sib (m j) \<and> prev_sib (m' j) = prev_sib (m j)"
    and "\<And>j. empty_slot m' j \<Longrightarrow> detached (m j)"
    and "cdt_wf m"
  shows "cdt_wf m'" and "desc m' = desc m"
  using assms(3) unfolding cdt_wf_def desc_def detached_def by (simp_all add: assms(1))
    (use assms(2) in \<open>auto simp: detached_def\<close>)

end
