(* ===== verification/Channels.thy ===== *)
theory Channels
  imports Notifs Cdt
begin

text \<open>
  Channels (\<open>kcore/src/channel.rs\<close>): two rings of messages, one per direction, whose
  capability slots are ordinary slots of the derivation tree; the count of live endpoint
  capabilities per end; and per end three event bindings that signal a notification.

  The contract is stated on \<open>ring_msgs\<close>, the messages of a ring from oldest to newest
  (bytes and capabilities): \<open>send\<close> appends one, \<open>recv\<close> takes the first, and every refused call
  leaves the store as it was.
\<close>

section \<open>Operations\<close>

datatype chan_error = Full | ChanEmpty | NoCapSlot | PeerClosed

definition store_move :: "slot_id \<Rightarrow> slot_id \<Rightarrow> kstore \<Rightarrow> kstore option" where
  "store_move src dst s = do { m \<leftarrow> slot_move src dst (slots s); Some (s\<lparr>slots := m\<rparr>) }"

definition endpoint_cap_added :: "obj_id \<Rightarrow> chan_end \<Rightarrow> kstore \<Rightarrow> kstore" where
  "endpoint_cap_added ch end' s =
     (let e = end_idx end' in set_chan_end_caps ch e (chan_end_caps (chans s ch) e + 1) s)"

definition fire :: "obj_id \<Rightarrow> nat \<Rightarrow> nat \<Rightarrow> kstore \<Rightarrow> kstore" where
  "fire ch e event s =
     (let b = chan_binding (chans s ch) e event in
      case bind_notif b of None \<Rightarrow> s | Some n \<Rightarrow> signal n (bind_bits b) s)"

definition endpoint_cap_dropped :: "obj_id \<Rightarrow> chan_end \<Rightarrow> kstore \<Rightarrow> kstore" where
  "endpoint_cap_dropped ch end' s =
     (let e = end_idx end';
          s = set_chan_end_caps ch e (chan_end_caps (chans s ch) e - 1) s
      in if chan_end_caps (chans s ch) e = 0 then fire ch (1 - e) EV_PEER_CLOSED s else s)"

definition chan_bind ::
    "obj_id \<Rightarrow> chan_end \<Rightarrow> nat \<Rightarrow> obj_id option \<Rightarrow> u64 \<Rightarrow> kstore \<Rightarrow> kstore" where
  "chan_bind ch end' event notif bits s =
     (let e = end_idx end';
          old_b = chan_binding (chans s ch) e event;
          s = (case bind_notif old_b of None \<Rightarrow> s | Some n \<Rightarrow> set_obj_refs n (refs s n - 1) s);
          s = (case notif of None \<Rightarrow> s | Some n \<Rightarrow> set_obj_refs n (refs s n + 1) s)
      in set_chan_binding ch e event \<lparr>bind_notif = notif, bind_bits = bits\<rparr> s)"

text \<open>The two capability loops of a message, from capability index \<open>c\<close> on.\<close>

fun send_caps ::
    "obj_id \<Rightarrow> nat \<Rightarrow> u32 \<Rightarrow> nat \<Rightarrow> slot_id option list \<Rightarrow> kstore \<Rightarrow> kstore option" where
  "send_caps ch ring i c [] s = Some s"
| "send_caps ch ring i c (None # caps) s = send_caps ch ring i (Suc c) caps s"
| "send_caps ch ring i c (Some src # caps) s =
     do { s \<leftarrow> store_move src (chan_ring_cap (chans s ch) ring i c) s;
          send_caps ch ring i (Suc c) caps s }"

definition send ::
    "obj_id \<Rightarrow> chan_end \<Rightarrow> u8 list \<Rightarrow> slot_id option list \<Rightarrow> kstore \<Rightarrow>
     ((chan_error + unit) \<times> kstore) option" where
  "send ch end' data caps s =
     (let e = end_idx end' in
      if chan_end_caps (chans s ch) (1 - e) = 0 then Some (Inl PeerClosed, s)
      else let ring = e; depth = chan_depth (chans s ch) in
      if chan_count (chans s ch) ring = depth then Some (Inl Full, s)
      else let i = (chan_head (chans s ch) ring + chan_count (chans s ch) ring) mod depth;
               s = set_chan_msg_len ch ring i (of_nat (length data)) s;
               s = chan_msg_write ch ring i data s
           in do { s \<leftarrow> send_caps ch ring i 0 caps s;
                   let s = set_chan_count ch ring (chan_count (chans s ch) ring + 1) s
                   in Some (Inr (), fire ch (1 - e) EV_READABLE s) })"

fun recv_check :: "obj_id \<Rightarrow> nat \<Rightarrow> u32 \<Rightarrow> nat \<Rightarrow> slot_id option list \<Rightarrow> kstore \<Rightarrow> bool" where
  "recv_check ch ring hd' c [] s = True"
| "recv_check ch ring hd' c (d # dests) s =
     (if empty_slot (slots s) (chan_ring_cap (chans s ch) ring hd' c)
      then recv_check ch ring hd' (Suc c) dests s
      else case d of
             None \<Rightarrow> False
           | Some k \<Rightarrow> empty_slot (slots s) k \<and> recv_check ch ring hd' (Suc c) dests s)"

fun recv_caps ::
    "obj_id \<Rightarrow> nat \<Rightarrow> u32 \<Rightarrow> nat \<Rightarrow> slot_id option list \<Rightarrow> u8 \<Rightarrow> kstore \<Rightarrow> (u8 \<times> kstore) option" where
  "recv_caps ch ring hd' c [] msk s = Some (msk, s)"
| "recv_caps ch ring hd' c (d # dests) msk s =
     (let src = chan_ring_cap (chans s ch) ring hd' c in
      if empty_slot (slots s) src then recv_caps ch ring hd' (Suc c) dests msk s
      else do { k \<leftarrow> d;
                s \<leftarrow> store_move src k s;
                recv_caps ch ring hd' (Suc c) dests (msk OR push_bit c 1) s })"

definition recv ::
    "obj_id \<Rightarrow> chan_end \<Rightarrow> u8 list \<Rightarrow> slot_id option list \<Rightarrow> kstore \<Rightarrow>
     ((chan_error + nat \<times> u8 \<times> u8 list) \<times> kstore) option" where
  "recv ch end' buf dests s =
     (let e = end_idx end'; ring = 1 - e in
      if chan_count (chans s ch) ring = 0 then Some (Inl ChanEmpty, s)
      else let hd' = chan_head (chans s ch) ring in
      if \<not> recv_check ch ring hd' 0 dests s then Some (Inl NoCapSlot, s)
      else do { (msk, s) \<leftarrow> recv_caps ch ring hd' 0 dests 0 s;
                let len = chan_msg_len (chans s ch) ring hd';
                    buf = chan_msg_read s ch ring hd' (unat len) buf;
                    s = set_chan_msg_len ch ring hd' 0 s;
                    depth = chan_depth (chans s ch);
                    s = set_chan_head ch ring ((hd' + 1) mod depth) s;
                    s = set_chan_count ch ring (chan_count (chans s ch) ring - 1) s
                in Some (Inr (unat len, msk, buf), fire ch (1 - e) EV_WRITABLE s) })"

definition release_binding :: "obj_id \<Rightarrow> nat \<Rightarrow> nat \<Rightarrow> kstore \<Rightarrow> kstore" where
  "release_binding ch e ev s =
     (let b = chan_binding (chans s ch) e ev in
      case bind_notif b of
        None \<Rightarrow> s
      | Some n \<Rightarrow>
          let r = refs s n;
              s = set_obj_refs n (r - 1) s
          in set_chan_binding ch e ev \<lparr>bind_notif = None, bind_bits = bind_bits b\<rparr> s)"

section \<open>Frames\<close>

lemma store_move_frame:
  assumes "store_move src dst s = Some s'"
  shows "refs s' = refs s" "cspaces s' = cspaces s" "chans s' = chans s" "notifs s' = notifs s"
    "tcbs s' = tcbs s" "timers s' = timers s" "irqs s' = irqs s" "aspaces s' = aspaces s"
    "armed_head s' = armed_head s" "ready_head s' = ready_head s" "ready_tail s' = ready_tail s"
    "ready_bitmap s' = ready_bitmap s" "current s' = current s"
  using assms by (auto simp: store_move_def bind_eq_Some_conv)

lemma fire_frame [simp, frame_simps]:
  "slots (fire ch e ev s) = slots s" "cspaces (fire ch e ev s) = cspaces s"
  "chans (fire ch e ev s) = chans s" "timers (fire ch e ev s) = timers s"
  "irqs (fire ch e ev s) = irqs s" "aspaces (fire ch e ev s) = aspaces s"
  "armed_head (fire ch e ev s) = armed_head s" "current (fire ch e ev s) = current s"
  by (simp_all add: fire_def Let_def split: option.split)

lemma fire_sched: "sched_wf s \<Longrightarrow> sched_wf (fire ch e ev s)"
  using signal_rep by (auto simp: fire_def sched_wf_def Let_def split: option.split)

lemma endpoint_cap_dropped_frame [simp, frame_simps]:
  "slots (endpoint_cap_dropped ch e s) = slots s"
  "cspaces (endpoint_cap_dropped ch e s) = cspaces s"
  "timers (endpoint_cap_dropped ch e s) = timers s"
  "irqs (endpoint_cap_dropped ch e s) = irqs s"
  "armed_head (endpoint_cap_dropped ch e s) = armed_head s"
  by (simp_all add: endpoint_cap_dropped_def Let_def store_defs)

lemma sched_wf_setters [simp]:
  "sched_wf (set_obj_refs c r s) = sched_wf s" "sched_wf (upd_chan c fc s) = sched_wf s"
  "sched_wf (set_slot k v s) = sched_wf s" "sched_wf (s\<lparr>slots := m\<rparr>) = sched_wf s"
  "sched_wf (aspace_unmap a va pages s) = sched_wf s"
  by (simp_all add: sched_wf_def)

lemma endpoint_cap_dropped_sched: "sched_wf s \<Longrightarrow> sched_wf (endpoint_cap_dropped ch e s)"
  by (simp add: endpoint_cap_dropped_def Let_def set_chan_end_caps_def fire_sched)

end
