(* ===== verification/Cascade.thy ===== *)
theory Cascade
  imports Timers Irqs Channels
begin

text \<open>
  Deletion and revocation (\<open>kcore/src/cspace.rs\<close>, with the destructors of channels and
  threads). Deleting a capability may drop the last reference to an object, whose
  destructor deletes the capabilities the object homes, and so on: \<open>delete\<close> is one
  recursive function through \<open>obj_unref\<close>, \<open>destroy_cspace\<close>, \<open>destroy_channel\<close> and
  \<open>destroy_tcb\<close>. Here the destructors take the recursive call as the argument \<open>del\<close> and
  \<open>delete\<close> ties the knot, as a partial function: \<open>None\<close> is a call that does not return.

  The locale \<open>deleter\<close> is the contract of the recursive call for stores with at most
  \<open>bound\<close> occupied slots. It is proved for \<open>delete\<close> and every bound by induction, and gives that
  deletion returns, keeps the kernel invariant \<open>kinv\<close>, empties its slot, and changes no
  capability except by emptying slots. Revocation and its preemptible form rest on it.
\<close>

section \<open>Reference counts\<close>

definition obj_ref :: "capability \<Rightarrow> kstore \<Rightarrow> kstore" where
  "obj_ref c s =
     (case obj_of_kind (kind c) of None \<Rightarrow> s | Some o' \<Rightarrow> set_obj_refs o' (refs s o' + 1) s)"

definition dec_ref :: "obj_id \<Rightarrow> kstore \<Rightarrow> kstore" where
  "dec_ref o' s = set_obj_refs o' (refs s o' - 1) s"

definition unref_aspace :: "obj_id \<Rightarrow> kstore \<Rightarrow> kstore" where
  "unref_aspace a s =
     (let s = set_obj_refs a (refs s a - 1) s
      in if refs s a = 0 then aspace_destroy a s else s)"

definition ref_aspace :: "obj_id \<Rightarrow> kstore \<Rightarrow> kstore" where
  "ref_aspace a s = set_obj_refs a (refs s a + 1) s"

section \<open>Destructors, over the recursive call\<close>

definition delete_prepare :: "slot_id \<Rightarrow> kstore \<Rightarrow> (capability \<times> kstore) option" where
  "delete_prepare k s =
     do { m \<leftarrow> cdt_unlink k (slots s);
          Some (cap (slots s k), s\<lparr>slots := m(k := slot_empty)\<rparr>) }"

text \<open>\<open>if !cap_is_empty(slot.cap) { delete(slot) }\<close>\<close>

definition delete_if :: "(slot_id \<Rightarrow> kstore \<Rightarrow> kstore option) \<Rightarrow> slot_id \<Rightarrow> kstore \<Rightarrow> kstore option" where
  "delete_if del k s = (if empty_slot (slots s) k then Some s else del k s)"

fun cspace_loop ::
    "(slot_id \<Rightarrow> kstore \<Rightarrow> kstore option) \<Rightarrow> obj_id \<Rightarrow> u32 list \<Rightarrow> kstore \<Rightarrow> kstore option" where
  "cspace_loop del cs [] s = Some s"
| "cspace_loop del cs (i # is) s =
     do { s \<leftarrow> delete_if del (cspace_slot (cspaces s cs) i) s; cspace_loop del cs is s }"

definition destroy_cspace ::
    "(slot_id \<Rightarrow> kstore \<Rightarrow> kstore option) \<Rightarrow> obj_id \<Rightarrow> kstore \<Rightarrow> kstore option" where
  "destroy_cspace del cs s =
     cspace_loop del cs (map of_nat [0..<unat (cspace_num_slots (cspaces s cs))]) s"

definition unref_cspace ::
    "(slot_id \<Rightarrow> kstore \<Rightarrow> kstore option) \<Rightarrow> obj_id \<Rightarrow> kstore \<Rightarrow> kstore option" where
  "unref_cspace del cs s =
     (let s = dec_ref cs s in if refs s cs = 0 then destroy_cspace del cs s else Some s)"

fun ring_loop ::
    "(slot_id \<Rightarrow> kstore \<Rightarrow> kstore option) \<Rightarrow> obj_id \<Rightarrow> (nat \<times> u32 \<times> nat) list \<Rightarrow> kstore \<Rightarrow>
     kstore option" where
  "ring_loop del ch [] s = Some s"
| "ring_loop del ch ((ring, i, c) # is) s =
     do { s \<leftarrow> delete_if del (chan_ring_cap (chans s ch) ring i c) s; ring_loop del ch is s }"

definition ring_indices :: "u32 \<Rightarrow> (nat \<times> u32 \<times> nat) list" where
  "ring_indices depth =
     [(ring, i, c). ring \<leftarrow> [0..<2], i \<leftarrow> map of_nat [0..<unat depth], c \<leftarrow> [0..<MSG_CAPS]]"

definition destroy_channel ::
    "(slot_id \<Rightarrow> kstore \<Rightarrow> kstore option) \<Rightarrow> obj_id \<Rightarrow> kstore \<Rightarrow> kstore option" where
  "destroy_channel del ch s =
     do { s \<leftarrow> ring_loop del ch (ring_indices (chan_depth (chans s ch))) s;
          Some (fold (\<lambda>(e, ev) s. release_binding ch e ev s)
                 [(e, ev). e \<leftarrow> [0..<2], ev \<leftarrow> [0..<3]] s) }"

definition tcb_unqueue :: "obj_id \<Rightarrow> kstore \<Rightarrow> kstore option" where
  "tcb_unqueue t s =
     (case tcb_state (tcbs s t) of
        Runnable \<Rightarrow> unqueue_ready t s
      | BlockedNotif \<Rightarrow>
          (case tcb_wait_notif (tcbs s t) of Some wn \<Rightarrow> remove_waiter wn t s | None \<Rightarrow> Some s)
      | _ \<Rightarrow> Some s)"

definition destroy_tcb ::
    "(slot_id \<Rightarrow> kstore \<Rightarrow> kstore option) \<Rightarrow> obj_id \<Rightarrow> kstore \<Rightarrow> kstore option" where
  "destroy_tcb del t s =
     do { s \<leftarrow> tcb_unqueue t s;
          let s = set_tcb_qnext t None s;
              s = set_tcb_wait_notif t None s;
              s = set_tcb_state t Halted s
          in do {
            s \<leftarrow> delete_if del (tcb_bind_slot (tcbs s t) 0) s;
            s \<leftarrow> delete_if del (tcb_bind_slot (tcbs s t) 1) s;
            s \<leftarrow> (case tcb_cspace (tcbs s t) of
                   None \<Rightarrow> Some s
                 | Some cs \<Rightarrow> unref_cspace del cs (set_tcb_cspace t None s));
            Some (case tcb_aspace (tcbs s t) of
                    None \<Rightarrow> s
                  | Some a \<Rightarrow> unref_aspace a (set_tcb_aspace t None s)) } }"

definition obj_unref ::
    "(slot_id \<Rightarrow> kstore \<Rightarrow> kstore option) \<Rightarrow> capability \<Rightarrow> kstore \<Rightarrow> kstore option" where
  "obj_unref del c s =
     (case kind c of
        CSpace o' \<Rightarrow>
          (let s = dec_ref o' s in if refs s o' = 0 then destroy_cspace del o' s else Some s)
      | Thread o' _ \<Rightarrow>
          (let s = dec_ref o' s in if refs s o' = 0 then destroy_tcb del o' s else Some s)
      | Channel o' _ \<Rightarrow>
          (let s = dec_ref o' s in if refs s o' = 0 then destroy_channel del o' s else Some s)
      | Notification o' \<Rightarrow>
          (let s = dec_ref o' s in if refs s o' = 0 then Some (destroy_notif o' s) else Some s)
      | Timer o' \<Rightarrow>
          (let s = dec_ref o' s in if refs s o' = 0 then destroy_timer o' s else Some s)
      | Irq o' \<Rightarrow>
          (let s = dec_ref o' s in if refs s o' = 0 then Some (destroy_irq o' s) else Some s)
      | Aspace o' \<Rightarrow> Some (unref_aspace o' s)
      | Empty \<Rightarrow> Some s
      | Untyped _ _ _ \<Rightarrow> Some s
      | Frame _ _ _ \<Rightarrow> Some s)"

text \<open>What \<open>delete\<close> does between emptying the slot and dropping the reference.\<close>

definition delete_hooks :: "capability \<Rightarrow> kstore \<Rightarrow> kstore" where
  "delete_hooks c s =
     (case kind c of
        Channel ch e \<Rightarrow> endpoint_cap_dropped ch e s
      | Frame _ pages (Some (asp, va)) \<Rightarrow> unref_aspace asp (aspace_unmap asp va pages s)
      | _ \<Rightarrow> s)"

definition delete_with ::
    "(slot_id \<Rightarrow> kstore \<Rightarrow> kstore option) \<Rightarrow> slot_id \<Rightarrow> kstore \<Rightarrow> kstore option" where
  "delete_with del k s =
     do { (c, s) \<leftarrow> delete_prepare k s; obj_unref del c (delete_hooks c s) }"

section \<open>Tying the knot\<close>

text \<open>The destructors are monotone in the recursive call.\<close>

lemma case_option_mono [partial_function_mono]:
  assumes "mono_option (\<lambda>f. A f)" and "\<And>x. mono_option (\<lambda>f. B f x)"
  shows "mono_option (\<lambda>f. case o' of None \<Rightarrow> A f | Some x \<Rightarrow> B f x)"
  using assms by (cases o') simp_all

lemma case_prod_mono [partial_function_mono]:
  assumes "\<And>x y. mono_option (\<lambda>f. B f x y)"
  shows "mono_option (\<lambda>f. case z of (x, y) \<Rightarrow> B f x y)"
  using assms by (cases z) simp_all

lemma delete_if_mono [partial_function_mono]:
  assumes "\<And>k s. mono_option (\<lambda>f. D f k s)"
  shows "mono_option (\<lambda>f. delete_if (D f) k s)"
  unfolding delete_if_def by (intro partial_function_mono assms)

lemma cspace_loop_mono [partial_function_mono]:
  assumes "\<And>k s. mono_option (\<lambda>f. D f k s)"
  shows "mono_option (\<lambda>f. cspace_loop (D f) cs is s)"
  by (induction "is" arbitrary: s) (auto intro!: partial_function_mono assms)

lemma ring_loop_mono [partial_function_mono]:
  assumes "\<And>k s. mono_option (\<lambda>f. D f k s)"
  shows "mono_option (\<lambda>f. ring_loop (D f) ch is s)"
proof (induction "is" arbitrary: s)
  case Nil
  then show ?case by (auto intro!: partial_function_mono)
next
  case (Cons x "is")
  then show ?case by (cases x) (auto intro!: partial_function_mono assms)
qed

lemma destroy_cspace_mono [partial_function_mono]:
  assumes "\<And>k s. mono_option (\<lambda>f. D f k s)"
  shows "mono_option (\<lambda>f. destroy_cspace (D f) cs s)"
  unfolding destroy_cspace_def by (intro partial_function_mono assms)

lemma unref_cspace_mono [partial_function_mono]:
  assumes "\<And>k s. mono_option (\<lambda>f. D f k s)"
  shows "mono_option (\<lambda>f. unref_cspace (D f) cs s)"
  unfolding unref_cspace_def Let_def by (intro partial_function_mono assms)

lemma destroy_channel_mono [partial_function_mono]:
  assumes "\<And>k s. mono_option (\<lambda>f. D f k s)"
  shows "mono_option (\<lambda>f. destroy_channel (D f) ch s)"
  unfolding destroy_channel_def by (intro partial_function_mono assms)

lemma destroy_tcb_mono [partial_function_mono]:
  assumes "\<And>k s. mono_option (\<lambda>f. D f k s)"
  shows "mono_option (\<lambda>f. destroy_tcb (D f) t s)"
  unfolding destroy_tcb_def Let_def by (intro partial_function_mono assms)

lemma obj_unref_mono [partial_function_mono]:
  assumes "\<And>k s. mono_option (\<lambda>f. D f k s)"
  shows "mono_option (\<lambda>f. obj_unref (D f) c s)"
  unfolding obj_unref_def Let_def
  by (cases "kind c") (auto intro!: partial_function_mono assms)

lemma delete_with_mono [partial_function_mono]:
  assumes "\<And>k s. mono_option (\<lambda>f. D f k s)"
  shows "mono_option (\<lambda>f. delete_with (D f) k s)"
  unfolding delete_with_def by (intro partial_function_mono assms)

partial_function (option) delete :: "slot_id \<Rightarrow> kstore \<Rightarrow> kstore option" where
  "delete k s = delete_with delete k s"

section \<open>Revocation\<close>

partial_function (option) revoke :: "slot_id \<Rightarrow> kstore \<Rightarrow> kstore option" where
  "revoke k s =
     (case first_child (slots s k) of
        None \<Rightarrow> Some s
      | Some f \<Rightarrow> do { leaf \<leftarrow> descend_to_leaf (slots s) f; s \<leftarrow> delete leaf s; revoke k s })"

datatype revoke_status = Done | More

text \<open>The bounded loop of \<open>revoke_step\<close>: at most \<open>budget\<close> leaf deletions.\<close>

fun revoke_loop :: "nat \<Rightarrow> slot_id \<Rightarrow> kstore \<Rightarrow> kstore option" where
  "revoke_loop 0 k s = Some s"
| "revoke_loop (Suc budget) k s =
     (case first_child (slots s k) of
        None \<Rightarrow> Some s
      | Some f \<Rightarrow>
          do { leaf \<leftarrow> descend_to_leaf (slots s) f; s \<leftarrow> delete leaf s; revoke_loop budget k s })"

definition revoke_step :: "slot_id \<Rightarrow> nat \<Rightarrow> kstore \<Rightarrow> (revoke_status \<times> kstore) option" where
  "revoke_step k budget s =
     do { s \<leftarrow> revoke_loop budget k s;
          let root = slots s k in
          Some (if first_child root \<noteq> None
                then (More, set_slot k (root\<lparr>revoking := True\<rparr>) s)
                else (Done, set_slot k (root\<lparr>revoking := False\<rparr>) s)) }"

section \<open>The kernel invariant and what deletion may change\<close>

definition kinv :: "kstore \<Rightarrow> bool" where
  "kinv s \<longleftrightarrow> cdt_wf (slots s) \<and> sched_wf s \<and> timer_wf s \<and> irq_wf s"

definition occupied :: "kstore \<Rightarrow> nat" where
  "occupied s = fcount (\<lambda>k. \<not> empty_slot (slots s) k)"

text \<open>Where the embedded slots live, who runs, and the priorities: nothing here moves.\<close>

definition same_layout :: "kstore \<Rightarrow> kstore \<Rightarrow> bool" where
  "same_layout s s' \<longleftrightarrow>
     cspaces s' = cspaces s \<and> current s' = current s \<and>
     (\<forall>c. chan_depth (chans s' c) = chan_depth (chans s c) \<and>
          chan_ring_cap (chans s' c) = chan_ring_cap (chans s c)) \<and>
     (\<forall>t. tcb_bind_slot (tcbs s' t) = tcb_bind_slot (tcbs s t) \<and>
          tcb_priority (tcbs s' t) = tcb_priority (tcbs s t))"

definition shrunk :: "kstore \<Rightarrow> kstore \<Rightarrow> bool" where
  "shrunk s s' \<longleftrightarrow> kinv s' \<and> shrinks (slots s) (slots s') \<and> same_layout s s'"

lemma kinvD:
  assumes "kinv s"
  shows "cdt_wf (slots s)" and "sched_wf s" and "timer_wf s" and "irq_wf s"
  using assms by (auto simp: kinv_def)

lemma shrunk_refl: "kinv s \<Longrightarrow> shrunk s s"
  by (simp add: shrunk_def same_layout_def)

lemma shrunk_trans: "shrunk s s' \<Longrightarrow> shrunk s' s'' \<Longrightarrow> shrunk s s''"
  unfolding shrunk_def same_layout_def using shrinks_trans by auto

lemma shrunk_kinv: "shrunk s s' \<Longrightarrow> kinv s'"
  by (simp add: shrunk_def)

lemma shrunk_empty: "shrunk s s' \<Longrightarrow> empty_slot (slots s) k \<Longrightarrow> empty_slot (slots s') k"
  using shrinks_nonempty by (auto simp: shrunk_def)

lemma shrunk_occupied: "shrunk s s' \<Longrightarrow> occupied s' \<le> occupied s"
  unfolding occupied_def by (rule fcount_mono) (use shrunk_empty in blast)

lemma shrunk_occupied_less:
  assumes "shrunk s s'" and "\<not> empty_slot (slots s) k" and "empty_slot (slots s') k"
  shows "occupied s' < occupied s"
  unfolding occupied_def by (rule fcount_less [where a = k]) (use assms shrunk_empty in blast)+

text \<open>Steps that leave the slots alone.\<close>

lemma shrunk_same_slots:
  assumes "kinv s" and "slots s' = slots s" and "sched_wf s'" and "timer_wf s'" and "irq_wf s'"
    and "same_layout s s'"
  shows "shrunk s s'"
  using assms by (simp add: shrunk_def kinv_def)

lemma timer_wf_frame: "timers s' = timers s \<Longrightarrow> armed_head s' = armed_head s \<Longrightarrow> timer_wf s' = timer_wf s"
  by (simp add: timer_wf_def timer_rep_def)

lemma irq_wf_frame: "irqs s' = irqs s \<Longrightarrow> irq_wf s' = irq_wf s"
  by (simp add: irq_wf_def)

lemma sched_wf_frame:
  assumes "tcbs s' = tcbs s" and "ready_head s' = ready_head s" and "ready_tail s' = ready_tail s"
    and "ready_bitmap s' = ready_bitmap s" and "notifs s' = notifs s"
  shows "sched_wf s' = sched_wf s"
  using assms by (simp add: sched_wf_def sched_rep_def ready_q_def wait_q_def)

lemma timer_wf_setters [simp]:
  "timer_wf (set_obj_refs c r s) = timer_wf s" "timer_wf (upd_chan c fc s) = timer_wf s"
  "timer_wf (upd_tcb c ft s) = timer_wf s" "timer_wf (s\<lparr>slots := m\<rparr>) = timer_wf s"
  "timer_wf (set_slot k v s) = timer_wf s" "timer_wf (aspace_unmap a va pages s) = timer_wf s"
  "timer_wf (signal n bits s) = timer_wf s" "timer_wf (irq_unbind i s) = timer_wf s"
  by (rule timer_wf_frame; simp add: store_defs)+

lemma irq_wf_setters [simp]:
  "irq_wf (set_obj_refs c r s) = irq_wf s" "irq_wf (upd_chan c fc s) = irq_wf s"
  "irq_wf (upd_tcb c ft s) = irq_wf s" "irq_wf (s\<lparr>slots := m\<rparr>) = irq_wf s"
  "irq_wf (set_slot k v s) = irq_wf s" "irq_wf (aspace_unmap a va pages s) = irq_wf s"
  "irq_wf (signal n bits s) = irq_wf s"
  by (rule irq_wf_frame; simp add: store_defs)+

lemma set_refs_shrunk: "kinv s \<Longrightarrow> shrunk s (set_obj_refs o' r s)"
  by (rule shrunk_same_slots) (simp_all add: kinv_def, simp_all add: same_layout_def store_defs)

lemma dec_ref_shrunk: "kinv s \<Longrightarrow> shrunk s (dec_ref o' s)"
  unfolding dec_ref_def by (rule set_refs_shrunk)

lemma unref_aspace_shrunk: "kinv s \<Longrightarrow> shrunk s (unref_aspace a s)"
  using set_refs_shrunk by (simp add: unref_aspace_def Let_def aspace_destroy_def)

lemma aspace_unmap_shrunk: "kinv s \<Longrightarrow> shrunk s (aspace_unmap a va pages s)"
  by (rule shrunk_same_slots) (simp_all add: kinv_def same_layout_def)

lemma upd_chan_shrunk:
  assumes "kinv s" and "\<And>c. chan_depth (f c) = chan_depth c" and "\<And>c. chan_ring_cap (f c) = chan_ring_cap c"
  shows "shrunk s (upd_chan ch f s)"
  by (rule shrunk_same_slots [OF assms(1)])
     (use assms in \<open>simp_all add: kinv_def\<close>, use assms in \<open>simp_all add: same_layout_def upd_chan_def\<close>)

lemma signal_shrunk:
  assumes "kinv s"
  shows "shrunk s (signal n bits s)"
proof (rule shrunk_same_slots [OF assms])
  show "sched_wf (signal n bits s)" using kinvD(2) [OF assms] signal_rep by (auto simp: sched_wf_def)
qed (use assms in \<open>simp_all add: kinv_def same_layout_def\<close>)

lemma fire_shrunk: "kinv s \<Longrightarrow> shrunk s (fire ch e ev s)"
  using signal_shrunk shrunk_refl by (simp add: fire_def Let_def split: option.split)

lemma endpoint_cap_dropped_shrunk: "kinv s \<Longrightarrow> shrunk s (endpoint_cap_dropped ch e s)"
proof -
  assume k: "kinv s"
  let ?s1 = "set_chan_end_caps ch (end_idx e) (chan_end_caps (chans s ch) (end_idx e) - 1) s"
  have s1: "shrunk s ?s1"
    unfolding set_chan_end_caps_def by (rule upd_chan_shrunk [OF k]) simp_all
  then have "shrunk s (fire ch (1 - end_idx e) EV_PEER_CLOSED ?s1)"
    using fire_shrunk shrunk_kinv shrunk_trans by blast
  then show ?thesis using s1 by (simp add: endpoint_cap_dropped_def Let_def)
qed

lemma release_binding_shrunk: "kinv s \<Longrightarrow> shrunk s (release_binding ch e ev s)"
proof -
  assume k: "kinv s"
  have "shrunk s (set_chan_binding ch e ev b (set_obj_refs n r s))" for b n r
    unfolding set_chan_binding_def
    by (rule shrunk_trans [OF set_refs_shrunk [OF k]], rule upd_chan_shrunk)
       (simp_all add: shrunk_kinv [OF set_refs_shrunk [OF k]])
  then show ?thesis
    using shrunk_refl [OF k] by (simp add: release_binding_def Let_def split: option.split)
qed

lemma release_bindings_shrunk:
  "kinv s \<Longrightarrow> shrunk s (fold (\<lambda>(e, ev) s. release_binding ch e ev s) xs s)"
proof (induction xs arbitrary: s)
  case Nil
  then show ?case by (simp add: shrunk_refl)
next
  case (Cons x xs)
  obtain e ev where x: "x = (e, ev)" by (cases x)
  note r = release_binding_shrunk [OF Cons.prems, of ch e ev]
  show ?case using shrunk_trans [OF r Cons.IH [OF shrunk_kinv [OF r]]] by (simp add: x)
qed

lemma destroy_timer_shrunk:
  assumes "kinv s"
  shows "\<exists>s'. destroy_timer t s = Some s' \<and> shrunk s s'"
proof -
  obtain T where "timer_rep s T" using assms by (auto simp: kinv_def timer_wf_def)
  then obtain s' where s': "disarm t s = Some s'" "timer_rep s' (remove1 t T)"
    using disarm_rep by blast
  note f = disarm_frame [OF s'(1)]
  have "shrunk s s'"
  proof (rule shrunk_same_slots [OF assms])
    show "timer_wf s'" using s'(2) by (auto simp: timer_wf_def)
    show "sched_wf s'" using kinvD(2) [OF assms] by (simp add: f sched_wf_frame [of s' s])
    show "irq_wf s'" using kinvD(4) [OF assms] by (simp add: f irq_wf_frame [of s' s])
  qed (simp_all add: f same_layout_def)
  then show ?thesis using s'(1) by (simp add: destroy_timer_def)
qed

lemma destroy_irq_shrunk: "kinv s \<Longrightarrow> shrunk s (destroy_irq i s)"
  unfolding destroy_irq_def
  by (rule shrunk_same_slots) (simp_all add: kinv_def same_layout_def irq_unbind_wf sched_wf_def)

lemma delete_hooks_shrunk: "kinv s \<Longrightarrow> shrunk s (delete_hooks c s)"
proof -
  assume k: "kinv s"
  have "shrunk s (unref_aspace a (aspace_unmap b va pages s))" for a b va pages
    using aspace_unmap_shrunk [OF k] unref_aspace_shrunk shrunk_kinv shrunk_trans by blast
  then show ?thesis
    using k endpoint_cap_dropped_shrunk [OF k] shrunk_refl [OF k]
    by (auto simp: delete_hooks_def split: cap_kind.split option.split)
qed

lemma delete_prepare_shrunk:
  assumes "kinv s"
  shows "\<exists>s'. delete_prepare k s = Some (cap (slots s k), s') \<and> shrunk s s' \<and>
    empty_slot (slots s') k"
proof -
  obtain m where m: "cdt_unlink k (slots s) = Some m" "cdt_wf (m(k := slot_empty))"
    "shrinks (slots s) (m(k := slot_empty))"
    using cdt_delete_slot [of "slots s" k] assms by (auto simp: kinv_def)
  then have "shrunk s (s\<lparr>slots := m(k := slot_empty)\<rparr>)"
    using assms by (simp add: shrunk_def kinv_def same_layout_def)
  then show ?thesis using m(1) by (simp add: delete_prepare_def)
qed

text \<open>Taking a thread off its queue and halting it.\<close>

definition halted :: "obj_id \<Rightarrow> kstore \<Rightarrow> kstore" where
  "halted t s = set_tcb_state t Halted (set_tcb_wait_notif t None (set_tcb_qnext t None s))"

lemma halted_rep:
  assumes "sched_rep (insert t X) s R W" and "t \<notin> X"
  shows "sched_rep X (halted t s) R W"
  unfolding halted_def using assms
  by (intro set_state_idle_rep) (simp_all add: set_tcb_wait_notif_def set_tcb_qnext_def sched_rep_transit)

lemma halted_layout: "same_layout s s1 \<Longrightarrow> same_layout s (halted t s1)"
  by (auto simp: same_layout_def halted_def store_defs)

lemma halted_frame [simp]:
  "slots (halted t s) = slots s" "timers (halted t s) = timers s" "irqs (halted t s) = irqs s"
  "armed_head (halted t s) = armed_head s" "refs (halted t s) = refs s"
  "cspaces (halted t s) = cspaces s" "chans (halted t s) = chans s"
  by (simp_all add: halted_def store_defs)

lemma tcb_unqueue_halted:
  assumes "kinv s"
  shows "\<exists>s1. tcb_unqueue t s = Some s1 \<and> shrunk s (halted t s1)"
proof -
  obtain R W where rep: "sched_rep {} s R W" using assms by (auto simp: kinv_def sched_wf_def)
  have *: "shrunk s (halted t s1)"
    if "slots s1 = slots s" "timers s1 = timers s" "irqs s1 = irqs s" "armed_head s1 = armed_head s"
      "same_layout s s1" "sched_rep {t} s1 R' W'" for s1 R' W'
  proof (rule shrunk_same_slots [OF assms])
    show "sched_wf (halted t s1)" using halted_rep [of t "{}" s1 R' W'] that by (auto simp: sched_wf_def)
    show "timer_wf (halted t s1)"
      using kinvD(3) [OF assms] that by (simp add: timer_wf_frame [of "halted t s1" s])
    show "irq_wf (halted t s1)"
      using kinvD(4) [OF assms] that by (simp add: irq_wf_frame [of "halted t s1" s])
  qed (use that in \<open>simp_all add: halted_layout\<close>)
  show ?thesis
  proof (cases "tcb_state (tcbs s t)")
    case Runnable
    obtain s1 prev where s1: "ready_unqueue t s = Some s1"
      "sched_rep {t} s1 (R(unat (tcb_priority (tcbs s t)) :=
          remove1 t (R (unat (tcb_priority (tcbs s t)))))) W"
      "s1 = ready_splice t (unat (tcb_priority (tcbs s t))) prev s"
      using ready_unqueue_rep [OF rep _ Runnable] by auto
    have "shrunk s (halted t s1)"
      by (rule * [OF _ _ _ _ _ s1(2)]) (simp_all add: s1(3) same_layout_def)
    then show ?thesis using s1(1) Runnable by (simp add: tcb_unqueue_def unqueue_ready_def)
  next
    case BlockedNotif
    obtain n where n: "tcb_wait_notif (tcbs s t) = Some n"
      using sched_repD(7) [OF rep _ BlockedNotif] by auto
    then have "t \<in> set (W n)" using sched_repD(4) [OF rep] BlockedNotif by simp
    then obtain prev where p: "remove_waiter n t s =
        Some (set_obj_refs n (refs s n - 1) (set_tcb_wait_notif t None (wait_splice n t prev s)))"
      "sched_rep {t} (set_tcb_wait_notif t None (wait_splice n t prev s)) R (W(n := remove1 t (W n)))"
      using remove_waiter_rep [OF rep] by auto
    have "shrunk s (halted t (set_obj_refs n (refs s n - 1)
        (set_tcb_wait_notif t None (wait_splice n t prev s))))"
      by (rule * [where R' = R and W' = "W(n := remove1 t (W n))"])
         (simp_all add: p(2), simp_all add: same_layout_def store_defs)
    then show ?thesis using p(1) BlockedNotif n by (simp add: tcb_unqueue_def)
  qed (use * [of s R W] sched_rep_idle_off [OF rep, of t] in
       \<open>auto simp: tcb_unqueue_def same_layout_def\<close>)
qed

section \<open>The contract of the recursive call\<close>

locale deleter =
  fixes del :: "slot_id \<Rightarrow> kstore \<Rightarrow> kstore option" and bound :: nat
  assumes del_shrunk: "kinv s \<Longrightarrow> occupied s \<le> bound \<Longrightarrow> \<not> empty_slot (slots s) k \<Longrightarrow>
      \<exists>s'. del k s = Some s' \<and> shrunk s s' \<and> empty_slot (slots s') k"
begin

lemma delete_if_ok:
  assumes "kinv s" and "occupied s \<le> bound"
  shows "\<exists>s'. delete_if del k s = Some s' \<and> shrunk s s' \<and> empty_slot (slots s') k"
  using del_shrunk [OF assms, of k] shrunk_refl [OF assms(1)] by (auto simp: delete_if_def)

lemma cspace_loop_ok:
  assumes "kinv s" and "occupied s \<le> bound"
  shows "\<exists>s'. cspace_loop del cs is s = Some s' \<and> shrunk s s' \<and>
    (\<forall>i \<in> set is. empty_slot (slots s') (cspace_slot (cspaces s cs) i))"
  using assms
proof (induction "is" arbitrary: s)
  case Nil
  then show ?case by (simp add: shrunk_refl)
next
  case (Cons i "is")
  obtain s1 where s1: "delete_if del (cspace_slot (cspaces s cs) i) s = Some s1" "shrunk s s1"
    "empty_slot (slots s1) (cspace_slot (cspaces s cs) i)"
    using delete_if_ok [OF Cons.prems] by blast
  obtain s2 where s2: "cspace_loop del cs is s1 = Some s2" "shrunk s1 s2"
    "\<forall>i \<in> set is. empty_slot (slots s2) (cspace_slot (cspaces s1 cs) i)"
    using Cons.IH [OF shrunk_kinv [OF s1(2)]] shrunk_occupied [OF s1(2)] Cons.prems(2) by fastforce
  have "cspaces s1 = cspaces s" using s1(2) by (simp add: shrunk_def same_layout_def)
  then show ?case
    using s1 s2 shrunk_trans [OF s1(2) s2(2)] shrunk_empty [OF s2(2)] by auto
qed

lemma ring_loop_ok:
  assumes "kinv s" and "occupied s \<le> bound"
  shows "\<exists>s'. ring_loop del ch is s = Some s' \<and> shrunk s s' \<and>
    (\<forall>(r, i, c) \<in> set is. empty_slot (slots s') (chan_ring_cap (chans s ch) r i c))"
  using assms
proof (induction "is" arbitrary: s)
  case Nil
  then show ?case by (simp add: shrunk_refl)
next
  case (Cons x "is")
  obtain r i c where x: "x = (r, i, c)" by (cases x)
  obtain s1 where s1: "delete_if del (chan_ring_cap (chans s ch) r i c) s = Some s1" "shrunk s s1"
    "empty_slot (slots s1) (chan_ring_cap (chans s ch) r i c)"
    using delete_if_ok [OF Cons.prems] by blast
  obtain s2 where s2: "ring_loop del ch is s1 = Some s2" "shrunk s1 s2"
    "\<forall>(r, i, c) \<in> set is. empty_slot (slots s2) (chan_ring_cap (chans s1 ch) r i c)"
    using Cons.IH [OF shrunk_kinv [OF s1(2)]] shrunk_occupied [OF s1(2)] Cons.prems(2) by fastforce
  have "chan_ring_cap (chans s1 ch) = chan_ring_cap (chans s ch)"
    using s1(2) by (simp add: shrunk_def same_layout_def)
  then show ?case
    using s1 s2 shrunk_trans [OF s1(2) s2(2)] shrunk_empty [OF s2(2)] by (auto simp: x)
qed

lemma destroy_cspace_ok:
  assumes "kinv s" and "occupied s \<le> bound"
  shows "\<exists>s'. destroy_cspace del cs s = Some s' \<and> shrunk s s'"
  using cspace_loop_ok [OF assms] unfolding destroy_cspace_def by blast

lemma unref_cspace_ok:
  assumes "kinv s" and "occupied s \<le> bound"
  shows "\<exists>s'. unref_cspace del cs s = Some s' \<and> shrunk s s'"
proof -
  note d = dec_ref_shrunk [OF assms(1), of cs]
  obtain s' where "destroy_cspace del cs (dec_ref cs s) = Some s'" "shrunk (dec_ref cs s) s'"
    using destroy_cspace_ok [OF shrunk_kinv [OF d]] shrunk_occupied [OF d] assms(2) by fastforce
  then show ?thesis using d shrunk_trans [OF d] by (auto simp: unref_cspace_def Let_def)
qed

lemma destroy_channel_ok:
  assumes "kinv s" and "occupied s \<le> bound"
  shows "\<exists>s'. destroy_channel del ch s = Some s' \<and> shrunk s s'"
proof -
  obtain s1 where s1: "ring_loop del ch (ring_indices (chan_depth (chans s ch))) s = Some s1" "shrunk s s1"
    using ring_loop_ok [OF assms] by blast
  show ?thesis
    using s1 shrunk_trans [OF s1(2) release_bindings_shrunk [OF shrunk_kinv [OF s1(2)]]]
    by (auto simp: destroy_channel_def)
qed

lemma destroy_tcb_ok:
  assumes "kinv s" and "occupied s \<le> bound"
  shows "\<exists>s'. destroy_tcb del t s = Some s' \<and> shrunk s s'"
proof -
  have next_step: "kinv s2 \<and> occupied s2 \<le> bound" if "shrunk s s2" for s2
    using shrunk_kinv [OF that] shrunk_occupied [OF that] assms(2) by simp
  obtain s0 where s0: "tcb_unqueue t s = Some s0" "shrunk s (halted t s0)"
    using tcb_unqueue_halted [OF assms(1)] by blast
  let ?s = "halted t s0"
  obtain s1 where s1: "delete_if del (tcb_bind_slot (tcbs ?s t) 0) ?s = Some s1" "shrunk ?s s1"
    using delete_if_ok next_step [OF s0(2)] by blast
  note q1 = shrunk_trans [OF s0(2) s1(2)]
  obtain s2 where s2: "delete_if del (tcb_bind_slot (tcbs s1 t) 1) s1 = Some s2" "shrunk s1 s2"
    using delete_if_ok next_step [OF q1] by blast
  note q2 = shrunk_trans [OF q1 s2(2)]
  have tcb: "shrunk s2 (upd_tcb t f s2)"
    if "kinv s2" "\<And>x. tcb_qnext (f x) = tcb_qnext x \<and> tcb_state (f x) = tcb_state x \<and>
        tcb_priority (f x) = tcb_priority x \<and> tcb_wait_notif (f x) = tcb_wait_notif x \<and>
        tcb_bind_slot (f x) = tcb_bind_slot x" for s2 f
  proof (rule shrunk_same_slots [OF that(1)])
    show "sched_wf (upd_tcb t f s2)"
      using kinvD(2) [OF that(1)] that(2) sched_rep_tcb_other [of "{}" s2 _ _ f t]
      unfolding sched_wf_def by blast
    show "same_layout s2 (upd_tcb t f s2)" using that(2) by (simp add: same_layout_def upd_tcb_def)
  qed (use that(1) in \<open>simp_all add: kinv_def, simp_all add: upd_tcb_def\<close>)
  obtain s3 where s3: "(case tcb_cspace (tcbs s2 t) of None \<Rightarrow> Some s2
      | Some cs \<Rightarrow> unref_cspace del cs (set_tcb_cspace t None s2)) = Some s3" "shrunk s2 s3"
  proof (cases "tcb_cspace (tcbs s2 t)")
    case None
    then show ?thesis using that [of s2] shrunk_refl next_step [OF q2] by simp
  next
    case (Some cs)
    have c: "shrunk s2 (set_tcb_cspace t None s2)"
      unfolding set_tcb_cspace_def by (rule tcb) (use next_step [OF q2] in auto)
    obtain s3 where "unref_cspace del cs (set_tcb_cspace t None s2) = Some s3"
      "shrunk (set_tcb_cspace t None s2) s3"
      using unref_cspace_ok next_step [OF shrunk_trans [OF q2 c]] by blast
    then show ?thesis using that [of s3] shrunk_trans [OF c] Some by simp
  qed
  note q3 = shrunk_trans [OF q2 s3(2)]
  define s4 where "s4 = (case tcb_aspace (tcbs s3 t) of None \<Rightarrow> s3
      | Some a \<Rightarrow> unref_aspace a (set_tcb_aspace t None s3))"
  have c3: "shrunk s3 (set_tcb_aspace t None s3)"
    unfolding set_tcb_aspace_def by (rule tcb) (use next_step [OF q3] in auto)
  have "shrunk s3 s4"
    using shrunk_refl next_step [OF q3] shrunk_trans [OF c3 unref_aspace_shrunk [OF shrunk_kinv [OF c3]]]
    by (simp add: s4_def split: option.split)
  moreover have "destroy_tcb del t s = Some s4"
    using s0(1) s1(1) s2(1) s3(1) by (simp add: destroy_tcb_def halted_def s4_def Let_def)
  ultimately show ?thesis using shrunk_trans [OF q3] by blast
qed

lemma obj_unref_ok:
  assumes "kinv s" and "occupied s \<le> bound"
  shows "\<exists>s'. obj_unref del c s = Some s' \<and> shrunk s s'"
proof -
  have unref: "\<exists>s'. (let s = dec_ref o' s in if refs s o' = 0 then f s else Some s) = Some s' \<and> shrunk s s'"
    if "\<And>s. kinv s \<Longrightarrow> occupied s \<le> bound \<Longrightarrow> \<exists>s'. f s = Some s' \<and> shrunk s s'" for f o'
  proof -
    note d = dec_ref_shrunk [OF assms(1), of o']
    show ?thesis
      using that [OF shrunk_kinv [OF d]] shrunk_occupied [OF d] assms(2) d shrunk_trans [OF d]
      by (auto simp: Let_def)
  qed
  show ?thesis
  proof (cases "kind c")
    case (CSpace o')
    then show ?thesis using unref [of "destroy_cspace del o'" o'] destroy_cspace_ok by (simp add: obj_unref_def)
  next
    case (Thread o' p)
    then show ?thesis using unref [of "destroy_tcb del o'" o'] destroy_tcb_ok by (simp add: obj_unref_def)
  next
    case (Channel o' e)
    then show ?thesis using unref [of "destroy_channel del o'" o'] destroy_channel_ok by (simp add: obj_unref_def)
  next
    case (Notification o')
    then show ?thesis
      using unref [of "\<lambda>s. Some (destroy_notif o' s)" o'] shrunk_refl
      by (simp add: obj_unref_def destroy_notif_def)
  next
    case (Timer o')
    then show ?thesis using unref [of "destroy_timer o'" o'] destroy_timer_shrunk by (simp add: obj_unref_def)
  next
    case (Irq o')
    then show ?thesis
      using unref [of "\<lambda>s. Some (destroy_irq o' s)" o'] destroy_irq_shrunk by (simp add: obj_unref_def)
  next
    case (Aspace o')
    then show ?thesis using unref_aspace_shrunk [OF assms(1)] by (simp add: obj_unref_def)
  qed (use shrunk_refl [OF assms(1)] in \<open>simp_all add: obj_unref_def\<close>)
qed

text \<open>One level of deletion over a recursive call that is good for one slot less.\<close>

lemma delete_with_ok:
  assumes "kinv s" and "occupied s \<le> Suc bound" and "\<not> empty_slot (slots s) k"
  shows "\<exists>s'. delete_with del k s = Some s' \<and> shrunk s s' \<and> empty_slot (slots s') k"
proof -
  obtain s1 where s1: "delete_prepare k s = Some (cap (slots s k), s1)" "shrunk s s1"
    "empty_slot (slots s1) k"
    using delete_prepare_shrunk [OF assms(1)] by blast
  note h = delete_hooks_shrunk [OF shrunk_kinv [OF s1(2)], of "cap (slots s k)"]
  have "occupied s1 \<le> bound"
    using shrunk_occupied_less [OF s1(2) assms(3) s1(3)] assms(2) by simp
  then obtain s2 where s2: "obj_unref del (cap (slots s k)) (delete_hooks (cap (slots s k)) s1) = Some s2"
    "shrunk (delete_hooks (cap (slots s k)) s1) s2"
    using obj_unref_ok [OF shrunk_kinv [OF h]] shrunk_occupied [OF h] by fastforce
  note q = shrunk_trans [OF h s2(2)]
  show ?thesis
    using s1(1) s2(1) shrunk_trans [OF s1(2) q] shrunk_empty [OF q s1(3)] by (simp add: delete_with_def)
qed

end

lemma deleter_delete: "deleter delete bound"
proof (induction bound)
  case 0
  show ?case
  proof
    fix s k assume "occupied s \<le> 0" "\<not> empty_slot (slots s) k"
    then show "\<exists>s'. delete k s = Some s' \<and> shrunk s s' \<and> empty_slot (slots s') k"
      by (simp add: occupied_def)
  qed
next
  case (Suc bound)
  show ?case
  proof
    fix s k assume "kinv s" "occupied s \<le> Suc bound" "\<not> empty_slot (slots s) k"
    then show "\<exists>s'. delete k s = Some s' \<and> shrunk s s' \<and> empty_slot (slots s') k"
      by (subst delete.simps) (rule deleter.delete_with_ok [OF Suc])
  qed
qed

interpretation del: deleter delete bound for bound
  by (rule deleter_delete)

section \<open>Deletion\<close>

lemma delete_ok:
  assumes "kinv s" and "\<not> empty_slot (slots s) k"
  shows "\<exists>s'. delete k s = Some s' \<and> shrunk s s' \<and> empty_slot (slots s') k"
  using del.del_shrunk [OF assms(1) order.refl assms(2)] .

lemma shrunk_slot_cap:
  "shrunk s s' \<Longrightarrow> slot_cap (slots s') j = None \<or> slot_cap (slots s') j = slot_cap (slots s) j"
  unfolding shrunk_def shrinks_def slot_cap_def by auto

text \<open>
  C1: Deleting a capability always returns, whatever chain of destructors it sets off. It
  empties the slot, keeps the derivation tree, the thread queues, the armed timers and the
  interrupt bindings well formed, and every other slot either keeps its capability or is
  emptied: deletion never creates or alters authority.
\<close>

theorem delete_sound:
  assumes "kinv s" and "\<not> empty_slot (slots s) k"
  shows "\<exists>s'. delete k s = Some s' \<and> kinv s' \<and> slot_cap (slots s') k = None \<and>
    (\<forall>j. slot_cap (slots s') j = None \<or> slot_cap (slots s') j = slot_cap (slots s) j) \<and>
    occupied s' < occupied s"
proof -
  obtain s' where s': "delete k s = Some s'" "shrunk s s'" "empty_slot (slots s') k"
    using delete_ok [OF assms] by blast
  then show ?thesis
    using shrunk_kinv [OF s'(2)] shrunk_slot_cap [OF s'(2)] shrunk_occupied_less [OF s'(2) assms(2) s'(3)]
    by auto
qed

section \<open>Revocation\<close>

text \<open>One round of the walk: the leaf below the root that is deleted.\<close>

lemma revoke_round:
  assumes "kinv s" and "first_child (slots s k) = Some f"
  shows "\<exists>leaf s'. descend_to_leaf (slots s) f = Some leaf \<and> delete leaf s = Some s' \<and>
    desc (slots s) k leaf \<and> shrunk s s' \<and> occupied s' < occupied s"
proof -
  note wf = kinvD(1) [OF assms(1)]
  have f: "desc (slots s) k f" by (rule first_child_desc [OF wf assms(2)])
  obtain leaf where leaf: "descend_to_leaf (slots s) f = Some leaf" "leaf = f \<or> desc (slots s) f leaf"
    using descend_to_leaf_leaf [OF wf] by blast
  then have d: "desc (slots s) k leaf" using f desc_trans by blast
  then have ne: "\<not> empty_slot (slots s) leaf" using desc_nonempty [OF wf] by blast
  obtain s' where s': "delete leaf s = Some s'" "shrunk s s'" "empty_slot (slots s') leaf"
    using delete_ok [OF assms(1) ne] by blast
  then show ?thesis using leaf d shrunk_occupied_less [OF s'(2) ne s'(3)] by blast
qed

lemma revoke_ok:
  assumes "kinv s"
  shows "\<exists>s'. revoke k s = Some s' \<and> shrunk s s' \<and> first_child (slots s' k) = None"
  using assms
proof (induction "occupied s" arbitrary: s rule: less_induct)
  case less
  show ?case
  proof (cases "first_child (slots s k)")
    case None
    then show ?thesis using shrunk_refl [OF less.prems] by (simp add: revoke.simps)
  next
    case (Some f)
    obtain leaf s1 where s1: "descend_to_leaf (slots s) f = Some leaf" "delete leaf s = Some s1"
      "shrunk s s1" "occupied s1 < occupied s"
      using revoke_round [OF less.prems Some] by blast
    then show ?thesis
      using less.hyps [OF s1(4) shrunk_kinv [OF s1(3)]] Some shrunk_trans [OF s1(3)]
      by (subst revoke.simps) auto
  qed
qed

lemma shrunk_childless_desc:
  assumes "shrunk s s'" and "first_child (slots s' k) = None" and "\<not> empty_slot (slots s') k"
    and "desc (slots s) k j"
  shows "empty_slot (slots s') j"
proof (rule ccontr)
  assume "\<not> empty_slot (slots s') j"
  then have "desc (slots s') k j" using assms(1,3,4) by (auto simp: shrunk_def shrinks_def)
  then show False
    using childless_no_desc assms(2) kinvD(1) [OF shrunk_kinv [OF assms(1)]] by blast
qed

text \<open>
  C2: Revocation always returns and is complete: when the revoked capability itself
  survives, every slot that was derived from it, directly or through any chain of
  derivations, is empty afterwards. The capability can only disappear when a descendant
  held the last reference to the object its own slot lives in; then it has no children left.
\<close>

theorem revoke_complete:
  assumes "kinv s"
  shows "\<exists>s'. revoke k s = Some s' \<and> kinv s' \<and> first_child (slots s' k) = None \<and>
    (slot_cap (slots s') k = None \<or>
       slot_cap (slots s') k = slot_cap (slots s) k \<and>
       (\<forall>j. desc (slots s) k j \<longrightarrow> slot_cap (slots s') j = None))"
proof -
  obtain s' where s': "revoke k s = Some s'" "shrunk s s'" "first_child (slots s' k) = None"
    using revoke_ok [OF assms] by blast
  then show ?thesis
    using shrunk_kinv [OF s'(2)] shrunk_slot_cap [OF s'(2), of k] shrunk_childless_desc [OF s'(2,3)]
    by auto
qed

lemma revoke_loop_ok:
  assumes "kinv s"
  shows "\<exists>s'. revoke_loop b k s = Some s' \<and> shrunk s s' \<and>
    (first_child (slots s' k) = None \<or> occupied s' + b \<le> occupied s)"
  using assms
proof (induction b arbitrary: s)
  case 0
  then show ?case using shrunk_refl by simp
next
  case (Suc b)
  show ?case
  proof (cases "first_child (slots s k)")
    case None
    then show ?thesis using shrunk_refl [OF Suc.prems] by simp
  next
    case (Some f)
    obtain leaf s1 where s1: "descend_to_leaf (slots s) f = Some leaf" "delete leaf s = Some s1"
      "shrunk s s1" "occupied s1 < occupied s"
      using revoke_round [OF Suc.prems Some] by blast
    then show ?thesis
      using Suc.IH [OF shrunk_kinv [OF s1(3)]] Some shrunk_trans [OF s1(3)] by fastforce
  qed
qed

lemma set_revoking_kinv:
  assumes "kinv s"
  shows "kinv (set_slot k ((slots s k)\<lparr>revoking := b\<rparr>) s)"
    and "desc (slots (set_slot k ((slots s k)\<lparr>revoking := b\<rparr>) s)) = desc (slots s)"
proof -
  let ?m = "(slots s)(k := (slots s k)\<lparr>revoking := b\<rparr>)"
  have wf: "cdt_wf (slots s)" using assms by (simp add: kinv_def)
  have "cdt_wf ?m" "desc ?m = desc (slots s)"
    by (rule cdt_wf_cong [OF _ _ wf]; use cdt_wfD(4) [OF wf] in \<open>auto split: if_splits\<close>)+
  then show "kinv (set_slot k ((slots s k)\<lparr>revoking := b\<rparr>) s)"
    "desc (slots (set_slot k ((slots s k)\<lparr>revoking := b\<rparr>) s)) = desc (slots s)"
    using assms by (simp_all add: kinv_def) (simp_all add: set_slot_def)
qed

lemma set_revoking_slot_cap [simp]:
  "slot_cap (slots (set_slot k ((slots s k)\<lparr>revoking := b\<rparr>) s)) = slot_cap (slots s)"
  "occupied (set_slot k ((slots s k)\<lparr>revoking := b\<rparr>) s) = occupied s"
  "empty_slot (slots (set_slot k ((slots s k)\<lparr>revoking := b\<rparr>) s)) j = empty_slot (slots s) j"
  by (auto simp: slot_cap_def occupied_def set_slot_def fun_eq_iff intro!: fcount_cong)

text \<open>
  C3: The preemptible revocation returns after each quantum. \<open>Done\<close> means that the root is
  gone or everything derived from it is; \<open>More\<close> means that the root carries the revoke
  marker and that at least as many slots were emptied as the quantum allows, so a caller
  that re-issues the call with a positive quantum reaches \<open>Done\<close>.
\<close>

theorem revoke_step_progress:
  assumes "kinv s"
  shows "\<exists>st s'. revoke_step k budget s = Some (st, s') \<and> kinv s' \<and>
    (st = Done \<longrightarrow> \<not> revoking (slots s' k) \<and> first_child (slots s' k) = None \<and>
       (slot_cap (slots s') k = None \<or>
        (\<forall>j. desc (slots s) k j \<longrightarrow> slot_cap (slots s') j = None))) \<and>
    (st = More \<longrightarrow> revoking (slots s' k) \<and> first_child (slots s' k) \<noteq> None \<and>
       occupied s' + budget \<le> occupied s)"
proof -
  obtain s1 where s1: "revoke_loop budget k s = Some s1" "shrunk s s1"
    "first_child (slots s1 k) = None \<or> occupied s1 + budget \<le> occupied s"
    using revoke_loop_ok [OF assms] by blast
  let ?s = "\<lambda>b. set_slot k ((slots s1 k)\<lparr>revoking := b\<rparr>) s1"
  note inv = set_revoking_kinv(1) [OF shrunk_kinv [OF s1(2)], of k]
  have links: "revoking (slots (?s b) k) = b" "first_child (slots (?s b) k) = first_child (slots s1 k)" for b
    by (simp_all add: set_slot_def)
  show ?thesis
  proof (cases "first_child (slots s1 k) = None")
    case True
    then have "revoke_step k budget s = Some (Done, ?s False)" by (simp add: revoke_step_def s1(1) Let_def)
    then show ?thesis
      using inv [of False] links [of False] True shrunk_childless_desc [OF s1(2) True] by auto
  next
    case False
    then have "revoke_step k budget s = Some (More, ?s True)" by (simp add: revoke_step_def s1(1) Let_def)
    then show ?thesis using inv [of True] links [of True] False s1(3) by auto
  qed
qed

end
