(* ===== verification/Authority.thy ===== *)
theory Authority
  imports Cascade
begin

text \<open>
  What a capability conveys, and the two invariants of the derivation tree that confine it.

  \<^item> \<open>cap_le\<close>: one capability conveys no more than another (the same object, a subset of the
    rights, no higher priority ceiling). \<open>auth_le\<close> is the edge of the tree: below an
    untyped region anything may be made, but only inside the part of the region that is
    used up, and physical-address rights (\<open>PHYS\<close>) only from a region that has them; below any
    other capability only lesser copies of it.
  \<^item> \<open>authority_mono\<close>: every edge is an \<open>auth_le\<close>; it is transitive, so it holds between a
    capability and all of its descendants.
  \<^item> \<open>mem_disjoint\<close>: two capabilities whose memory overlaps are copies of each other, or one
    is an untyped region and the other was made from it.

  \<open>slot_invariant\<close> is the interface the rest of the kernel uses: an invariant of the slots
  that survives deletion, moves and the revoke marker survives every operation built from
  them.
\<close>

section \<open>The order on capabilities\<close>

fun kind_le :: "cap_kind \<Rightarrow> cap_kind \<Rightarrow> bool" where
  "kind_le (Frame b p _) (Frame b' p' _) \<longleftrightarrow> b = b' \<and> p = p'"
| "kind_le (Thread o' q) (Thread o'' q') \<longleftrightarrow> o' = o'' \<and> q \<le> q'"
| "kind_le k k' \<longleftrightarrow> k = k'"

definition cap_le :: "capability \<Rightarrow> capability \<Rightarrow> bool" where
  "cap_le c d \<longleftrightarrow> kind_le (kind c) (kind d) \<and> rights c AND rights d = rights c"

fun is_untyped :: "cap_kind \<Rightarrow> bool" where
  "is_untyped (Untyped _ _ _) = True"
| "is_untyped _ = False"

text \<open>The memory a capability stands for (of an object, the address of its header).\<close>

fun span :: "cap_kind \<Rightarrow> int set" where
  "span (Untyped base sz _) = {uint base ..< uint base + uint sz}"
| "span (Frame base pages _) = {uint base ..< uint base + uint pages * 4096}"
| "span k = (case obj_of_kind k of None \<Rightarrow> {} | Some o' \<Rightarrow> {uint (obj_raw o')})"

text \<open>The part of it that has been given out.\<close>

fun used :: "cap_kind \<Rightarrow> int set" where
  "used (Untyped base sz watermark) = {uint base ..< uint base + min (uint watermark) (uint sz)}"
| "used k = span k"

definition auth_le :: "capability \<Rightarrow> capability \<Rightarrow> bool" where
  "auth_le c p \<longleftrightarrow>
     (is_untyped (kind p) \<or> cap_le c p) \<and> span (kind c) \<subseteq> used (kind p) \<and>
     (has_rights (rights c) PHYS \<longrightarrow> has_rights (rights p) PHYS)"

lemma kind_le_refl [simp]: "kind_le k k"
  by (cases k) auto

lemma kind_le_trans: "kind_le a b \<Longrightarrow> kind_le b c \<Longrightarrow> kind_le a c"
  by (cases a; cases b; cases c) auto

lemma kind_le_untyped: "kind_le a b \<Longrightarrow> is_untyped a = is_untyped b"
  by (cases a; cases b) auto

lemma kind_le_span: "kind_le a b \<Longrightarrow> span a = span b"
  by (cases a; cases b) auto

lemma kind_le_obj: "kind_le a b \<Longrightarrow> obj_of_kind a = obj_of_kind b"
  by (cases a; cases b) auto

lemma cap_le_refl [simp]: "cap_le c c"
  by (simp add: cap_le_def)

lemma and_subset_trans: "a AND b = a \<Longrightarrow> b AND c = b \<Longrightarrow> a AND c = a" for a b c :: u8
  by (metis and.assoc)

lemma cap_le_trans: "cap_le a b \<Longrightarrow> cap_le b c \<Longrightarrow> cap_le a c"
  unfolding cap_le_def using kind_le_trans and_subset_trans by blast

lemma has_rights_mono: "cap_le c d \<Longrightarrow> has_rights (rights c) r \<Longrightarrow> has_rights (rights d) r"
  unfolding cap_le_def has_rights_def by (metis and.assoc and.commute)

lemma used_span: "used k \<subseteq> span k"
  by (cases k) auto

lemma used_object: "\<not> is_untyped k \<Longrightarrow> used k = span k"
  by (cases k) auto

lemma cap_le_auth: "cap_le c p \<Longrightarrow> \<not> is_untyped (kind p) \<Longrightarrow> auth_le c p"
  using kind_le_span used_object has_rights_mono by (auto simp: auth_le_def cap_le_def)

lemma auth_le_untyped: "auth_le c p \<Longrightarrow> is_untyped (kind c) \<Longrightarrow> is_untyped (kind p)"
  using kind_le_untyped by (auto simp: auth_le_def cap_le_def)

lemma auth_le_trans: "auth_le c p \<Longrightarrow> auth_le p q \<Longrightarrow> auth_le c q"
  using auth_le_untyped [of p q] cap_le_trans [of c p q] used_span [of "kind p"]
  unfolding auth_le_def by blast

section \<open>Monotone authority along the tree\<close>

definition authority_mono :: "slot_map \<Rightarrow> bool" where
  "authority_mono m \<longleftrightarrow> (\<forall>k p. parent (m k) = Some p \<longrightarrow> auth_le (cap (m k)) (cap (m p)))"

lemma authority_monoD: "authority_mono m \<Longrightarrow> parent (m k) = Some p \<Longrightarrow> auth_le (cap (m k)) (cap (m p))"
  by (simp add: authority_mono_def)

lemma authority_desc:
  assumes "authority_mono m" and "desc m r k"
  shows "auth_le (cap (m k)) (cap (m r))"
  using assms(2) unfolding desc_def
proof (induction rule: tranclp_induct)
  case (base p)
  then show ?case using authority_monoD [OF assms(1)] by blast
next
  case (step p q)
  then show ?case using authority_monoD [OF assms(1) step.hyps(2)] auth_le_trans by blast
qed

text \<open>Overlapping memory is shared along the tree only.\<close>

definition overlap :: "capability \<Rightarrow> capability \<Rightarrow> bool" where
  "overlap c d \<longleftrightarrow> span (kind c) \<inter> span (kind d) \<noteq> {}"

definition same_memory :: "capability \<Rightarrow> capability \<Rightarrow> bool" where
  "same_memory c d \<longleftrightarrow>
     \<not> is_untyped (kind c) \<and> \<not> is_untyped (kind d) \<and> span (kind c) = span (kind d)"

definition mem_disjoint :: "slot_map \<Rightarrow> bool" where
  "mem_disjoint m \<longleftrightarrow>
     (\<forall>i j. i \<noteq> j \<longrightarrow> \<not> empty_slot m i \<longrightarrow> \<not> empty_slot m j \<longrightarrow> overlap (cap (m i)) (cap (m j)) \<longrightarrow>
        is_untyped (kind (cap (m i))) \<and> desc m i j \<or>
        is_untyped (kind (cap (m j))) \<and> desc m j i \<or> same_memory (cap (m i)) (cap (m j)))"

definition confined :: "slot_map \<Rightarrow> bool" where
  "confined m \<longleftrightarrow> authority_mono m \<and> mem_disjoint m"

lemma mem_disjointD:
  assumes "mem_disjoint m" and "i \<noteq> j" and "\<not> empty_slot m i" and "\<not> empty_slot m j"
    and "overlap (cap (m i)) (cap (m j))"
  shows "is_untyped (kind (cap (m i))) \<and> desc m i j \<or>
    is_untyped (kind (cap (m j))) \<and> desc m j i \<or> same_memory (cap (m i)) (cap (m j))"
  using assms unfolding mem_disjoint_def by blast

lemma overlap_sym: "overlap c d = overlap d c"
  by (auto simp: overlap_def)

lemma same_memory_sym: "same_memory c d = same_memory d c"
  by (auto simp: same_memory_def)

section \<open>What the operations on slots keep\<close>

lemma desc_cong: "(\<And>j. parent (m' j) = parent (m j)) \<Longrightarrow> desc m' = desc m"
  by (simp add: desc_def fun_eq_iff)

lemma authority_shrink:
  assumes "cdt_wf m'" and "authority_mono m" and "shrinks m m'"
  shows "authority_mono m'"
  unfolding authority_mono_def
proof (intro allI impI)
  fix k p assume p: "parent (m' k) = Some p"
  have ne: "\<not> empty_slot m' p" "\<not> empty_slot m' k" using parent_nonempty [OF assms(1) p] by auto
  then have "desc m p k"
    using assms(3) desc_parent [of m' k p, OF p] unfolding shrinks_def by blast
  then show "auth_le (cap (m' k)) (cap (m' p))"
    using authority_desc [OF assms(2)] assms(3) ne unfolding shrinks_def by metis
qed

lemma mem_disjoint_shrink:
  assumes "mem_disjoint m" and "shrinks m m'"
  shows "mem_disjoint m'"
  unfolding mem_disjoint_def
proof (intro allI impI)
  fix i j assume ij: "i \<noteq> j" "\<not> empty_slot m' i" "\<not> empty_slot m' j" "overlap (cap (m' i)) (cap (m' j))"
  have "cap (m' i) = cap (m i)" "cap (m' j) = cap (m j)" "desc m' i j = desc m i j" "desc m' j i = desc m j i"
    using assms(2) ij(2,3) unfolding shrinks_def by blast+
  moreover have "\<not> empty_slot m i" "\<not> empty_slot m j" using shrinks_nonempty [OF assms(2)] ij by auto
  ultimately show "is_untyped (kind (cap (m' i))) \<and> desc m' i j \<or>
      is_untyped (kind (cap (m' j))) \<and> desc m' j i \<or> same_memory (cap (m' i)) (cap (m' j))"
    using mem_disjointD [OF assms(1) ij(1)] ij(4) by simp
qed

lemma renamed_confined:
  assumes inv: "\<And>j. f (f j) = j" and r: "renamed f m m'" and wf: "cdt_wf m" and c: "confined m"
    and caps: "\<And>j. \<not> empty_slot m' j \<Longrightarrow> cap (m' j) = cap (m (f j))"
  shows "confined m'"
proof -
  note rn = r [unfolded renamed_def, rule_format] and d = renamed_desc [OF inv r]
  have "authority_mono m'"
    unfolding authority_mono_def
  proof (intro allI impI)
    fix k p assume p: "parent (m' k) = Some p"
    have fp: "parent (m (f k)) = Some (f p)"
      using p rn [of k] map_option_inv_Some [of f, OF inv] by simp
    have "\<not> empty_slot m' k" "\<not> empty_slot m' p" using parent_nonempty [OF wf fp] rn by auto
    then show "auth_le (cap (m' k)) (cap (m' p))"
      using authority_monoD [where m = m, OF _ fp] c caps by (simp add: confined_def)
  qed
  moreover have "mem_disjoint m'"
    unfolding mem_disjoint_def
  proof (intro allI impI)
    fix i j assume ij: "i \<noteq> j" "\<not> empty_slot m' i" "\<not> empty_slot m' j" "overlap (cap (m' i)) (cap (m' j))"
    have "f i \<noteq> f j" using ij(1) inv by metis
    then show "is_untyped (kind (cap (m' i))) \<and> desc m' i j \<or>
        is_untyped (kind (cap (m' j))) \<and> desc m' j i \<or> same_memory (cap (m' i)) (cap (m' j))"
      using mem_disjointD [of m "f i" "f j"] c ij rn by (simp add: confined_def caps d)
  qed
  ultimately show ?thesis by (simp add: confined_def)
qed

lemma slot_move_confined:
  assumes "cdt_wf m" and "src \<noteq> dst" and "empty_slot m dst" and "confined m"
    and "slot_move src dst m = Some m'"
  shows "confined m'"
proof -
  obtain m2 where m2: "slot_move src dst m = Some m2" "renamed (swap_slots src dst) m m2"
    "m2 src = slot_empty" "cap (m2 dst) = cap (m src)"
    "\<And>j. j \<noteq> src \<Longrightarrow> j \<noteq> dst \<Longrightarrow> cap (m2 j) = cap (m j)"
    using slot_move_renamed [OF assms(1-3)] by blast
  have "cap (m2 j) = cap (m (swap_slots src dst j))" if "\<not> empty_slot m2 j" for j
    using that m2(3-5) by (cases "j = src"; cases "j = dst") auto
  then have "confined m2"
    by (intro renamed_confined [OF _ m2(2) assms(1,4)]) auto
  then show ?thesis using m2(1) assms(5) by simp
qed

text \<open>Changing what a slot holds, without moving it in the tree.\<close>

lemma recap_confined:
  assumes "confined m" and "\<not> empty_slot m k" and "\<not> cap_is_empty c"
    and "span (kind c) = span (kind (cap (m k)))"
    and "is_untyped (kind c) = is_untyped (kind (cap (m k)))"
    and up: "\<And>p. auth_le (cap (m k)) p \<Longrightarrow> auth_le c p"
    and down: "\<And>j. parent (m j) = Some k \<Longrightarrow> auth_le (cap (m j)) (cap (m k)) \<Longrightarrow> auth_le (cap (m j)) c"
    and self: "parent (m k) \<noteq> Some k"
  shows "confined (m(k := (m k)\<lparr>cap := c\<rparr>))"
proof -
  let ?m = "m(k := (m k)\<lparr>cap := c\<rparr>)"
  have d: "desc ?m = desc m" by (rule desc_cong) simp
  have "authority_mono ?m"
    using assms(1) up down self unfolding confined_def authority_mono_def by auto
  moreover have "mem_disjoint ?m"
    unfolding mem_disjoint_def d
  proof (intro allI impI)
    fix i j assume ij: "i \<noteq> j" "\<not> empty_slot ?m i" "\<not> empty_slot ?m j" "overlap (cap (?m i)) (cap (?m j))"
    have eq: "span (kind (cap (?m x))) = span (kind (cap (m x)))"
      "is_untyped (kind (cap (?m x))) = is_untyped (kind (cap (m x)))" for x
      using assms(4,5) by auto
    have "\<not> empty_slot m i" "\<not> empty_slot m j" using ij assms(2) by (auto split: if_splits)
    then show "is_untyped (kind (cap (?m i))) \<and> desc m i j \<or>
        is_untyped (kind (cap (?m j))) \<and> desc m j i \<or> same_memory (cap (?m i)) (cap (?m j))"
      using mem_disjointD [of m i j] assms(1) ij(1,4) unfolding confined_def overlap_def same_memory_def eq
      by blast
  qed
  ultimately show ?thesis by (simp add: confined_def)
qed

text \<open>Filling an empty slot and hanging it under a parent.\<close>

lemma install_child:
  assumes wf: "cdt_wf m" and src: "\<not> empty_slot m src" and dst: "empty_slot m dst"
    and c: "\<not> cap_is_empty c"
  defines "m' \<equiv> cdt_insert_child src dst (m(dst := (m dst)\<lparr>cap := c\<rparr>))"
  shows "cdt_wf m'" and "slot_cap m' = (slot_cap m)(dst := Some c)"
    and "desc m' r j \<longleftrightarrow> desc m r j \<or> j = dst \<and> (r = src \<or> desc m r src)"
    and "j \<noteq> dst \<Longrightarrow> cap (m' j) = cap (m j)" and "cap (m' dst) = c"
    and "parent (m' j) = (if j = dst then Some src else parent (m j))"
proof -
  let ?m1 = "m(dst := (m dst)\<lparr>cap := c\<rparr>)"
  have ne: "dst \<noteq> src" using src dst by auto
  have det: "detached (m dst)" using cdt_wfD(4) [OF wf dst] .
  have wf1: "cdt_wf ?m1" and d1: "desc ?m1 = desc m"
    by (rule cdt_wf_cong [OF _ _ wf]; use cdt_wfD(4) [OF wf] det in \<open>auto split: if_splits\<close>)+
  have det1: "detached (?m1 dst)" using det by (simp add: detached_def)
  show "cdt_wf m'"
    unfolding m'_def by (rule cdt_insert_child_wf [OF wf1 ne det1]) (use src c ne in auto)
  have fc: "first_child (?m1 src) \<noteq> Some dst"
    using cdt_wfD(3) [OF wf1, of src dst] det1 by (auto simp: detached_def)
  note fld = cdt_insert_child_fields [where m = ?m1, OF ne fc]
  show "slot_cap m' = (slot_cap m)(dst := Some c)"
    using c by (auto simp: fun_eq_iff slot_cap_def m'_def fld)
  show "desc m' r j \<longleftrightarrow> desc m r j \<or> j = dst \<and> (r = src \<or> desc m r src)"
    unfolding m'_def insert_child_desc [OF wf1 ne det1] d1 ..
  show "j \<noteq> dst \<Longrightarrow> cap (m' j) = cap (m j)" "cap (m' dst) = c"
    "parent (m' j) = (if j = dst then Some src else parent (m j))"
    by (simp_all add: m'_def fld)
qed

lemma install_child_confined:
  assumes wf: "cdt_wf m" and src: "\<not> empty_slot m src" and dst: "empty_slot m dst"
    and c: "\<not> cap_is_empty c" and conf: "confined m" and le: "auth_le c (cap (m src))"
    and room: "\<And>j. \<not> empty_slot m j \<Longrightarrow> overlap (cap (m j)) c \<Longrightarrow>
      is_untyped (kind (cap (m j))) \<and> (j = src \<or> desc m j src) \<or> same_memory (cap (m j)) c"
  shows "confined (cdt_insert_child src dst (m(dst := (m dst)\<lparr>cap := c\<rparr>)))" (is "confined ?m")
proof -
  note inst = install_child [OF wf src dst c]
  have nd: "parent (m j) \<noteq> Some dst" for j using parent_nonempty(1) [OF wf, of j dst] dst by blast
  have ne: "src \<noteq> dst" using src dst by auto
  have "authority_mono ?m"
    unfolding authority_mono_def
  proof (intro allI impI)
    fix k p assume p: "parent (?m k) = Some p"
    show "auth_le (cap (?m k)) (cap (?m p))"
    proof (cases "k = dst")
      case True
      then have "p = src" using p by (simp add: inst(6))
      then show ?thesis using le unfolding True by (simp only: inst(5) inst(4) [OF ne])
    next
      case False
      then have mp: "parent (m k) = Some p" using p by (simp add: inst(6))
      then have "p \<noteq> dst" using nd by blast
      then show ?thesis
        using authority_monoD [where m = m, OF _ mp] conf False by (simp add: inst(4) confined_def)
    qed
  qed
  moreover have "mem_disjoint ?m"
    unfolding mem_disjoint_def
  proof (intro allI impI)
    fix i j assume ij: "i \<noteq> j" "\<not> empty_slot ?m i" "\<not> empty_slot ?m j" "overlap (cap (?m i)) (cap (?m j))"
    have ne: "\<not> empty_slot m x" if "\<not> empty_slot ?m x" "x \<noteq> dst" for x using that inst(4) by simp
    show "is_untyped (kind (cap (?m i))) \<and> desc ?m i j \<or>
        is_untyped (kind (cap (?m j))) \<and> desc ?m j i \<or> same_memory (cap (?m i)) (cap (?m j))"
    proof (cases "i = dst \<or> j = dst")
      case True
      then show ?thesis
        using room [of i] room [of j] ne [of i] ne [of j] ij
        by (elim disjE) (auto simp: inst(3-5) overlap_sym [of c] same_memory_sym [of c])
    next
      case False
      then show ?thesis
        using mem_disjointD [of m i j] conf ij ne by (auto simp: inst(3-5) confined_def)
    qed
  qed
  ultimately show ?thesis by (simp add: confined_def)
qed

text \<open>The unused part of a region is covered by nothing but the regions it was cut from.\<close>

lemma free_memory:
  assumes "confined m" and "\<not> empty_slot m u" and "is_untyped (kind (cap (m u)))"
    and "\<not> empty_slot m j" and "span (kind c) \<subseteq> span (kind (cap (m u)))"
    and "span (kind c) \<inter> used (kind (cap (m u))) = {}" and "overlap (cap (m j)) c"
  shows "is_untyped (kind (cap (m j))) \<and> (j = u \<or> desc m j u)"
proof (cases "j = u")
  case False
  have "overlap (cap (m j)) (cap (m u))" using assms(5,7) by (auto simp: overlap_def)
  then have "is_untyped (kind (cap (m j))) \<and> desc m j u \<or> desc m u j"
    using mem_disjointD [of m j u] assms False by (auto simp: confined_def same_memory_def)
  moreover have "\<not> desc m u j"
    using authority_desc [of m u j] assms(1,6,7) by (auto simp: confined_def auth_le_def overlap_def)
  ultimately show ?thesis by blast
qed (use assms(3) in simp)

section \<open>Invariants of the slots\<close>

lemma kinv_slots_frame:
  assumes "kinv s" and "cdt_wf (slots s')" and "tcbs s' = tcbs s" and "notifs s' = notifs s"
    and "timers s' = timers s" and "irqs s' = irqs s" and "armed_head s' = armed_head s"
    and "ready_head s' = ready_head s" and "ready_tail s' = ready_tail s"
    and "ready_bitmap s' = ready_bitmap s"
  shows "kinv s'"
  using assms by (simp add: kinv_def sched_wf_frame [of s' s] timer_wf_frame [of s' s] irq_wf_frame [of s' s])

locale slot_invariant =
  fixes I :: "slot_map \<Rightarrow> bool"
  assumes shrink: "cdt_wf m \<Longrightarrow> cdt_wf m' \<Longrightarrow> I m \<Longrightarrow> shrinks m m' \<Longrightarrow> I m'"
    and move: "cdt_wf m \<Longrightarrow> src \<noteq> dst \<Longrightarrow> empty_slot m dst \<Longrightarrow> I m \<Longrightarrow>
      slot_move src dst m = Some m' \<Longrightarrow> I m'"
    and marker: "I m \<Longrightarrow> I (m(k := (m k)\<lparr>revoking := b\<rparr>))"
begin

lemma shrunk: "kinv s \<Longrightarrow> I (slots s) \<Longrightarrow> shrunk s s' \<Longrightarrow> I (slots s')"
  using shrink [of "slots s" "slots s'"] by (auto simp: kinv_def shrunk_def)

lemma delete:
  assumes "kinv s" and "I (slots s)" and "\<not> empty_slot (slots s) k"
  shows "\<exists>s'. delete k s = Some s' \<and> shrunk s s' \<and> empty_slot (slots s') k \<and> I (slots s')"
  using delete_ok [OF assms(1,3)] shrunk [OF assms(1,2)] by blast

lemma revoke:
  assumes "kinv s" and "I (slots s)"
  shows "\<exists>s'. revoke k s = Some s' \<and> shrunk s s' \<and> first_child (slots s' k) = None \<and> I (slots s')"
  using revoke_ok [OF assms(1)] shrunk [OF assms] by blast

lemma revoke_step:
  assumes "kinv s" and "I (slots s)"
  shows "\<exists>st s'. revoke_step k budget s = Some (st, s') \<and> kinv s' \<and> I (slots s')"
proof -
  obtain s1 where s1: "revoke_loop budget k s = Some s1" "shrunk s s1"
    using revoke_loop_ok [OF assms(1)] by blast
  have "kinv (set_slot k ((slots s1 k)\<lparr>revoking := b\<rparr>) s1) \<and>
      I (slots (set_slot k ((slots s1 k)\<lparr>revoking := b\<rparr>) s1))" for b
    using set_revoking_kinv(1) [OF shrunk_kinv [OF s1(2)]] marker [OF shrunk [OF assms s1(2)]]
    by (simp add: set_slot_def)
  then show ?thesis by (auto simp: revoke_step_def s1(1) Let_def)
qed

lemma store_move:
  assumes "kinv s" and "I (slots s)" and "src \<noteq> dst" and "empty_slot (slots s) dst"
  shows "\<exists>s'. store_move src dst s = Some s' \<and> kinv s' \<and> I (slots s') \<and>
    slot_cap (slots s') = (slot_cap (slots s))(dst := slot_cap (slots s) src, src := None)"
proof -
  obtain m where m: "slot_move src dst (slots s) = Some m" "cdt_wf m"
    "slot_cap m = (slot_cap (slots s))(dst := slot_cap (slots s) src, src := None)"
    using slot_move_ok [OF kinvD(1) [OF assms(1)] assms(3,4)] by blast
  have "kinv (s\<lparr>slots := m\<rparr>)" by (rule kinv_slots_frame [OF assms(1)]) (simp_all add: m(2))
  then show ?thesis
    using m move [OF kinvD(1) [OF assms(1)] assms(3,4,2) m(1)] by (simp add: store_move_def)
qed

end

interpretation tree: slot_invariant "\<lambda>_. True"
  by unfold_locales simp_all

interpretation conf: slot_invariant confined
proof
  show "confined m'" if "cdt_wf m" "cdt_wf m'" "confined m" "shrinks m m'" for m m'
    using that authority_shrink [of m' m] mem_disjoint_shrink [of m m'] unfolding confined_def by blast
  show "confined m'" if "cdt_wf m" "src \<noteq> dst" "empty_slot m dst" "confined m"
    "slot_move src dst m = Some m'" for m m' src dst
    using that by (rule slot_move_confined)
  show "confined (m(k := (m k)\<lparr>revoking := b\<rparr>))" if "confined m" for m k b
  proof -
    have d: "desc (m(k := (m k)\<lparr>revoking := b\<rparr>)) = desc m"
      by (rule desc_cong) simp
    have c: "cap ((m(k := (m k)\<lparr>revoking := b\<rparr>)) j) = cap (m j)"
      "parent ((m(k := (m k)\<lparr>revoking := b\<rparr>)) j) = parent (m j)" for j by simp_all
    show ?thesis using that unfolding confined_def authority_mono_def mem_disjoint_def d c .
  qed
qed

end
