(* ===== verification/Derive.thy ===== *)
theory Derive
  imports Authority
begin

text \<open>
  Copying a capability (\<open>derive\<close> of \<open>kcore/src/cspace.rs\<close>): refused under a revocation in
  flight, for an empty or untyped source, an occupied destination or a saturated count;
  otherwise a lesser copy that hangs below its source. It keeps the tree \<open>confined\<close>.
\<close>

section \<open>The operation\<close>

fun derived_kind :: "u8 \<Rightarrow> cap_kind \<Rightarrow> cap_kind" where
  "derived_kind ceiling (Frame base pages _) = Frame base pages None"
| "derived_kind ceiling (Thread o' mp) = Thread o' (if mp \<le> ceiling then mp else ceiling)"
| "derived_kind ceiling k = k"

definition derive_counts_ok :: "capability \<Rightarrow> kstore \<Rightarrow> bool" where
  "derive_counts_ok c s \<longleftrightarrow>
     (case obj_of_kind (kind c) of None \<Rightarrow> True | Some o' \<Rightarrow> refs s o' \<noteq> - 1) \<and>
     (case kind c of
        Channel o' e \<Rightarrow> chan_end_caps (chans s o') (end_idx e) \<noteq> - 1
      | _ \<Rightarrow> True)"

definition derive_install :: "slot_id \<Rightarrow> slot_id \<Rightarrow> capability \<Rightarrow> kstore \<Rightarrow> kstore" where
  "derive_install src dst c s =
     (let s = set_slot dst ((slots s dst)\<lparr>cap := c\<rparr>) s;
          s = obj_ref c s;
          s = s\<lparr>slots := cdt_insert_child src dst (slots s)\<rparr>
      in case kind c of Channel o' e \<Rightarrow> endpoint_cap_added o' e s | _ \<Rightarrow> s)"

definition derive ::
    "slot_id \<Rightarrow> slot_id \<Rightarrow> u8 \<Rightarrow> u8 \<Rightarrow> kstore \<Rightarrow> ((unit + unit) \<times> kstore) option" where
  "derive src dst msk prio_ceiling s =
     do { rev \<leftarrow> ancestor_or_self_revoking (slots s) src;
          let c = cap (slots s src);
              c' = \<lparr>kind = derived_kind prio_ceiling (kind c), rights = masked (rights c) msk\<rparr>
          in Some
            (if rev then (Inl (), s)
             else if (case kind c of Empty \<Rightarrow> True | Untyped _ _ _ \<Rightarrow> True | _ \<Rightarrow> False) then (Inl (), s)
             else if \<not> empty_slot (slots s) dst then (Inl (), s)
             else if \<not> derive_counts_ok c' s then (Inl (), s)
             else (Inr (), derive_install src dst c' s)) }"

lemma derived_kind_le: "kind_le (derived_kind p k) k"
  by (cases k) auto

lemma derived_kind_empty [simp]: "derived_kind p k = Empty \<longleftrightarrow> k = Empty"
  by (cases k) auto

section \<open>Deriving a capability\<close>

lemma obj_ref_frame [simp]:
  "slots (obj_ref c s) = slots s" "tcbs (obj_ref c s) = tcbs s" "notifs (obj_ref c s) = notifs s"
  "chans (obj_ref c s) = chans s" "timers (obj_ref c s) = timers s" "irqs (obj_ref c s) = irqs s"
  "armed_head (obj_ref c s) = armed_head s" "ready_head (obj_ref c s) = ready_head s"
  "ready_tail (obj_ref c s) = ready_tail s" "ready_bitmap (obj_ref c s) = ready_bitmap s"
  "cspaces (obj_ref c s) = cspaces s" "current (obj_ref c s) = current s"
  by (auto simp: obj_ref_def store_defs split: option.split)

lemma endpoint_cap_added_frame [simp]:
  "slots (endpoint_cap_added ch e s) = slots s" "tcbs (endpoint_cap_added ch e s) = tcbs s"
  "notifs (endpoint_cap_added ch e s) = notifs s" "timers (endpoint_cap_added ch e s) = timers s"
  "irqs (endpoint_cap_added ch e s) = irqs s" "armed_head (endpoint_cap_added ch e s) = armed_head s"
  "ready_head (endpoint_cap_added ch e s) = ready_head s"
  "ready_tail (endpoint_cap_added ch e s) = ready_tail s"
  "ready_bitmap (endpoint_cap_added ch e s) = ready_bitmap s"
  "refs (endpoint_cap_added ch e s) = refs s" "current (endpoint_cap_added ch e s) = current s"
  by (simp_all add: endpoint_cap_added_def Let_def store_defs)

lemma derive_install_slots:
  "slots (derive_install src dst c s) =
     cdt_insert_child src dst ((slots s)(dst := (slots s dst)\<lparr>cap := c\<rparr>))"
  by (auto simp: derive_install_def Let_def set_slot_def split: cap_kind.split)

lemma derive_install_frame [simp]:
  "tcbs (derive_install src dst c s) = tcbs s" "notifs (derive_install src dst c s) = notifs s"
  "timers (derive_install src dst c s) = timers s" "irqs (derive_install src dst c s) = irqs s"
  "armed_head (derive_install src dst c s) = armed_head s"
  "ready_head (derive_install src dst c s) = ready_head s"
  "ready_tail (derive_install src dst c s) = ready_tail s"
  "ready_bitmap (derive_install src dst c s) = ready_bitmap s"
  by (auto simp: derive_install_def Let_def set_slot_def split: cap_kind.split)

text \<open>What has to hold for a copy to be made.\<close>

definition derivable :: "slot_id \<Rightarrow> slot_id \<Rightarrow> kstore \<Rightarrow> bool" where
  "derivable src dst s \<longleftrightarrow>
     \<not> (\<exists>a. (a = src \<or> desc (slots s) a src) \<and> revoking (slots s a)) \<and>
     \<not> empty_slot (slots s) src \<and> \<not> is_untyped (kind (cap (slots s src))) \<and>
     empty_slot (slots s) dst \<and> derive_counts_ok (cap (slots s src)) s"

lemma derive_counts_derived:
  "derive_counts_ok \<lparr>kind = derived_kind p (kind c), rights = r\<rparr> s = derive_counts_ok c s"
  by (cases "kind c") (simp_all add: derive_counts_ok_def)

lemma derive_eq:
  assumes "cdt_wf (slots s)"
  shows "derive src dst msk ceiling s = Some
    (if derivable src dst s
     then (Inr (), derive_install src dst
             \<lparr>kind = derived_kind ceiling (kind (cap (slots s src))),
              rights = masked (rights (cap (slots s src))) msk\<rparr> s)
     else (Inl (), s))"
proof -
  have k: "(case kind (cap (slots s src)) of Empty \<Rightarrow> True | Untyped _ _ _ \<Rightarrow> True | _ \<Rightarrow> False) \<longleftrightarrow>
      empty_slot (slots s) src \<or> is_untyped (kind (cap (slots s src)))"
    by (cases "kind (cap (slots s src))") (simp_all add: cap_is_empty_iff)
  show ?thesis
    unfolding derive_def ancestor_or_self_revoking_iff [OF assms] Let_def k derive_counts_derived
    by (auto simp: derivable_def)
qed

lemma derive_install_ok:
  fixes ceiling msk :: u8
  assumes inv: "kinv s" and d: "derivable src dst s"
  defines "c \<equiv> cap (slots s src)"
  defines "c' \<equiv> \<lparr>kind = derived_kind ceiling (kind c), rights = masked (rights c) msk\<rparr>"
  shows "kinv (derive_install src dst c' s)" and "cap_le c' c"
    and "confined (slots s) \<Longrightarrow> confined (slots (derive_install src dst c' s))"
proof -
  have e: "\<not> empty_slot (slots s) src" "empty_slot (slots s) dst" and u: "\<not> is_untyped (kind c)"
    using d by (auto simp: derivable_def c_def)
  have ne: "\<not> cap_is_empty c'" using e(1) by (simp add: cap_is_empty_iff c'_def c_def)
  show le: "cap_le c' c"
    using derived_kind_le by (simp add: c'_def cap_le_def masked_def and.assoc and.commute and.left_commute)
  have k: "span (kind c') = span (kind c)" "\<not> is_untyped (kind c')"
    using kind_le_span [of "kind c'" "kind c"] kind_le_untyped [of "kind c'" "kind c"] le u
    by (auto simp: cap_le_def)
  show "kinv (derive_install src dst c' s)"
    by (rule kinv_slots_frame [OF inv])
       (simp_all add: derive_install_slots install_child(1) [OF kinvD(1) [OF inv] e ne])
  assume conf: "confined (slots s)"
  show "confined (slots (derive_install src dst c' s))"
    unfolding derive_install_slots
  proof (rule install_child_confined [OF kinvD(1) [OF inv] e ne conf])
    show "auth_le c' (cap (slots s src))" using cap_le_auth [OF le u] by (simp add: c_def)
    fix j assume j: "\<not> empty_slot (slots s) j" "overlap (cap (slots s j)) c'"
    show "is_untyped (kind (cap (slots s j))) \<and> (j = src \<or> desc (slots s) j src) \<or>
        same_memory (cap (slots s j)) c'"
      using mem_disjointD [of "slots s" j src] conf j e(1) u k
      by (cases "j = src") (auto simp: confined_def overlap_def same_memory_def c_def)
  qed
qed

text \<open>
  C4: A copy is monotone. \<open>derive\<close> always answers; when it refuses, the store is untouched;
  when it succeeds, the new capability names the same object with a subset of the rights and
  no higher priority ceiling, it is a descendant of its source and of the source's ancestors
  and of nothing else, every other slot keeps its capability, and the kernel invariant and
  the confinement of authority and memory along the whole tree are preserved.
\<close>

theorem derive_monotone:
  assumes "kinv s" and "confined (slots s)"
  shows "\<exists>r s'. derive src dst msk ceiling s = Some (r, s') \<and>
    (r = Inl () \<longrightarrow> s' = s) \<and>
    (r = Inr () \<longrightarrow>
       (\<exists>c. slot_cap (slots s) src = Some c \<and>
          (\<exists>c'. slot_cap (slots s') = (slot_cap (slots s))(dst := Some c') \<and> cap_le c' c) \<and>
          (\<forall>r j. desc (slots s') r j \<longleftrightarrow>
             desc (slots s) r j \<or> j = dst \<and> (r = src \<or> desc (slots s) r src)))) \<and>
    kinv s' \<and> confined (slots s')"
proof (cases "derivable src dst s")
  case False
  then show ?thesis using assms derive_eq [OF kinvD(1) [OF assms(1)]] by simp
next
  case True
  let ?c = "cap (slots s src)"
  let ?c' = "\<lparr>kind = derived_kind ceiling (kind ?c), rights = masked (rights ?c) msk\<rparr>"
  let ?s = "derive_install src dst ?c' s"
  have d: "\<not> empty_slot (slots s) src" "empty_slot (slots s) dst" using True by (auto simp: derivable_def)
  have ne: "\<not> cap_is_empty ?c'" using d(1) by (simp add: cap_is_empty_iff)
  note inst = install_child [OF kinvD(1) [OF assms(1)] d ne, folded derive_install_slots]
  have "slot_cap (slots s) src = Some ?c" using d(1) by (simp add: slot_cap_def)
  then show ?thesis
    using derive_eq [OF kinvD(1) [OF assms(1)], of src dst msk ceiling] True inst(2,3)
      derive_install_ok [OF assms(1) True] assms(2) by auto
qed

text \<open>
  C5: While a preemptible revocation is in flight, nothing can be copied from its subtree:
  if a slot or one of its ancestors carries the revoke marker, \<open>derive\<close> from it is refused and
  changes nothing.
\<close>

theorem derive_refused_under_revoke:
  assumes "kinv s" and "revoking (slots s root)" and "src = root \<or> desc (slots s) root src"
  shows "derive src dst msk ceiling s = Some (Inl (), s)"
proof -
  have "\<not> derivable src dst s" using assms(2,3) by (auto simp: derivable_def)
  then show ?thesis using derive_eq [OF kinvD(1) [OF assms(1)]] by simp
qed

end
