(* ===== verification/Threads.thy ===== *)
theory Threads
  imports Derive
begin

text \<open>
  The thread operations of \<open>kcore/src/thread.rs\<close>: the terminal report and its binding, the
  priority setter with its ceiling, the configuration of the on-exit and on-fault bindings
  (moved-in capabilities, in slots of the derivation tree), and what the destruction of
  the last capability to an object leaves behind.
\<close>

section \<open>Operations\<close>

definition report_terminal :: "obj_id \<Rightarrow> report \<Rightarrow> kstore \<Rightarrow> kstore" where
  "report_terminal t r s =
     (case tcb_report (tcbs s t) of
        ReportRunning \<Rightarrow>
          (let s = set_tcb_report t r s;
               fire_slot = (\<lambda>which.
                 let c = cap (slots s (tcb_bind_slot (tcbs s t) which)) in
                 case kind c of
                   Notification n \<Rightarrow> signal n (tcb_bind_bits (tcbs s t) which) s
                 | _ \<Rightarrow> s)
           in case r of
                Exited _ \<Rightarrow> fire_slot BIND_EXIT
              | ReportFaulted _ _ \<Rightarrow> fire_slot BIND_FAULT
              | ReportRunning \<Rightarrow> s)
      | _ \<Rightarrow> s)"

definition set_priority :: "obj_id \<Rightarrow> u8 \<Rightarrow> u8 \<Rightarrow> kstore \<Rightarrow> (unit + unit) \<times> kstore" where
  "set_priority t prio ceiling s =
     (if ceiling < prio then (Inl (), s) else (Inr (), set_tcb_priority t prio s))"

definition thread_bind ::
    "obj_id \<Rightarrow> nat \<Rightarrow> slot_id option \<Rightarrow> u64 \<Rightarrow> kstore \<Rightarrow> kstore option" where
  "thread_bind t which notif_src bits s =
     (let k = tcb_bind_slot (tcbs s t) which in
      do { s \<leftarrow> (if empty_slot (slots s) k then Some s else delete k s);
           let s = set_tcb_bind_bits t which bits s
           in case notif_src of None \<Rightarrow> Some s | Some src \<Rightarrow> store_move src k s })"

section \<open>The terminal report\<close>

lemma report_terminal_frame [simp]:
  "slots (report_terminal t r s) = slots s" "timers (report_terminal t r s) = timers s"
  "irqs (report_terminal t r s) = irqs s" "armed_head (report_terminal t r s) = armed_head s"
  "chans (report_terminal t r s) = chans s" "cspaces (report_terminal t r s) = cspaces s"
  "current (report_terminal t r s) = current s"
  by (auto simp: report_terminal_def Let_def store_defs split: report.split cap_kind.split)

lemma report_terminal_report:
  "tcb_report (tcbs (report_terminal t r s) u) =
     (if u = t \<and> tcb_report (tcbs s t) = ReportRunning then r else tcb_report (tcbs s u))"
  by (auto simp: report_terminal_def Let_def set_tcb_report_def upd_tcb_def
      split: report.split cap_kind.split)

lemma sched_wf_tcb_other:
  assumes "sched_wf s" and "\<And>x. tcb_qnext (f x) = tcb_qnext x"
    and "\<And>x. tcb_state (f x) = tcb_state x" and "\<And>x. tcb_priority (f x) = tcb_priority x"
    and "\<And>x. tcb_wait_notif (f x) = tcb_wait_notif x"
  shows "sched_wf (upd_tcb t f s)"
  using assms(1) sched_rep_tcb_other [OF _ assms(2-5)] unfolding sched_wf_def by blast

text \<open>The store that \<open>report_terminal\<close> signals from.\<close>

lemma set_tcb_report_shrunk:
  assumes "kinv s"
  shows "shrunk s (set_tcb_report t r s)"
proof (rule shrunk_same_slots [OF assms])
  show "sched_wf (set_tcb_report t r s)"
    unfolding set_tcb_report_def by (rule sched_wf_tcb_other [OF kinvD(2) [OF assms]]) simp_all
qed (use assms in \<open>simp_all add: kinv_def set_tcb_report_def\<close>,
     simp_all add: same_layout_def upd_tcb_def)

lemma report_terminal_kinv:
  assumes "kinv s"
  shows "kinv (report_terminal t r s)"
  using assms shrunk_kinv [OF set_tcb_report_shrunk [OF assms]]
    shrunk_kinv [OF signal_shrunk [OF shrunk_kinv [OF set_tcb_report_shrunk [OF assms]]]]
  by (auto simp: report_terminal_def Let_def split: report.split cap_kind.split)

text \<open>
  C6: The first terminal report wins and its binding fires at most once: after a thread has
  reported an exit or a fault, its record holds that report, and every later report of it,
  of whatever kind, leaves the whole store unchanged.
\<close>

theorem report_terminal_once:
  assumes "tcb_report (tcbs s t) = ReportRunning" and "r \<noteq> ReportRunning"
  shows "tcb_report (tcbs (report_terminal t r s) t) = r \<and>
    report_terminal t r' (report_terminal t r s) = report_terminal t r s"
proof -
  have r: "tcb_report (tcbs (report_terminal t r s) t) = r"
    using assms(1) by (simp add: report_terminal_report)
  show ?thesis
    using r assms(2) by (cases r) (simp_all add: report_terminal_def [of t r'])
qed

theorem report_terminal_once_witness:
  "tcb_report (tcbs (report_terminal (ObjId 1) (Exited 7) blank_store) (ObjId 1)) = Exited 7"
proof -
  have "tcb_report (tcbs blank_store (ObjId 1)) = ReportRunning"
    by (simp add: blank_store_def store_init_def tcb_empty_def)
  from report_terminal_once [OF this, of "Exited 7" "ReportFaulted 0 0"] show ?thesis by simp
qed

section \<open>Priorities\<close>

text \<open>Setting the priority of a thread that is on no queue.\<close>

lemma set_priority_kinv:
  assumes "kinv s" and "tcb_state (tcbs s t) \<noteq> Runnable" and "tcb_state (tcbs s t) \<noteq> BlockedNotif"
    and "set_priority t prio ceiling s = (r, s')"
  shows "kinv s'" and "slots s' = slots s"
proof -
  obtain R W where "sched_rep {} s R W" using assms(1) by (auto simp: kinv_def sched_wf_def)
  then have "sched_rep (insert t {}) s R W" by (rule sched_rep_idle_off) (use assms(2,3) in auto)
  then have "sched_rep {t} (set_tcb_priority t prio s) R W"
    unfolding set_tcb_priority_def by (rule sched_rep_transit) simp
  then have "sched_rep ({t} - {t}) (set_tcb_priority t prio s) R W"
    by (rule sched_rep_idle_on) (use assms(2,3) in \<open>simp_all add: store_defs\<close>)
  then have "sched_wf (set_tcb_priority t prio s)" by (auto simp: sched_wf_def)
  then have "kinv (set_tcb_priority t prio s)"
    using assms(1) by (simp add: kinv_def set_tcb_priority_def) (simp add: upd_tcb_def)
  then show "kinv s'" "slots s' = slots s"
    using assms(1,4) by (auto simp: set_priority_def store_defs split: if_splits)
qed

section \<open>Report bindings\<close>

lemma set_tcb_bind_bits_kinv:
  assumes "kinv s"
  shows "kinv (set_tcb_bind_bits t which bits s)"
proof -
  have "sched_wf (set_tcb_bind_bits t which bits s)"
    unfolding set_tcb_bind_bits_def by (rule sched_wf_tcb_other [OF kinvD(2) [OF assms]]) simp_all
  then show ?thesis
    using assms by (simp add: kinv_def set_tcb_bind_bits_def) (simp add: upd_tcb_def)
qed


end
