(* ===== verification/Carve.thy ===== *)
theory Carve
  imports Aspace
begin

text \<open>
  The geometry of retyping (\<open>kcore/src/untyped.rs\<close>): how many bytes an object of a type
  takes, where it is placed in an untyped region, and the placement of the page tables an
  address space is topped up with. Addresses and sizes are 64-bit words and every sum
  that could wrap is checked, as in the source.

  The sizes of the kernel structures (\<open>core::mem::size_of\<close>) and the offsets of the
  capability slots inside them are decided by the compiler, the kernel's own level-1 table
  by the boot code, and the former contents of a page by the past: they are the record
  \<open>platform\<close>, an argument of the definitions that need them.
\<close>

section \<open>Definitions\<close>

datatype obj_type =
    ObjCSpace | ObjThread | ObjChannel | ObjNotification | ObjTimer | ObjFrame | ObjAspace | ObjUntyped

datatype retype_error = NotUntyped | DestOccupied | NoMemory | BadArg

record carve_range =
  carve_start :: u64
  carve_end :: u64
  carve_bytes :: u64

record platform =
  sz_cspace :: u64
  sz_capslot :: u64
  sz_channel :: u64
  sz_msgslot :: u64
  sz_tcb :: u64
  sz_notif :: u64
  sz_timer :: u64
  off_msg_caps :: u64
  off_bind_slots :: u64
  kernel_l1 :: table
  page_mem :: "u64 \<Rightarrow> table"

definition obj_type_from_u64 :: "u64 \<Rightarrow> obj_type option" where
  "obj_type_from_u64 v =
     (if v = 0 then Some ObjCSpace else if v = 1 then Some ObjThread
      else if v = 2 then Some ObjChannel else if v = 3 then Some ObjNotification
      else if v = 4 then Some ObjTimer else if v = 5 then Some ObjFrame
      else if v = 6 then Some ObjAspace else if v = 7 then Some ObjUntyped else None)"

definition obj_align :: "obj_type \<Rightarrow> u64" where
  "obj_align ty = (case ty of ObjFrame \<Rightarrow> 4096 | ObjAspace \<Rightarrow> 4096 | ObjUntyped \<Rightarrow> 4096 | _ \<Rightarrow> 16)"

definition cspace_bytes_for :: "platform \<Rightarrow> u32 \<Rightarrow> u64" where
  "cspace_bytes_for z n = sz_cspace z + ucast n * sz_capslot z"

definition channel_bytes_for :: "platform \<Rightarrow> u32 \<Rightarrow> u64" where
  "channel_bytes_for z n = sz_channel z + 2 * ucast n * sz_msgslot z"

definition aspace_bytes_for :: "u64 \<Rightarrow> u64" where
  "aspace_bytes_for pool_pages = PAGE + PAGE + pool_pages * PAGE"

definition fixed_object_bytes :: "platform \<Rightarrow> obj_type \<Rightarrow> u64" where
  "fixed_object_bytes z ty =
     (case ty of ObjThread \<Rightarrow> sz_tcb z | ObjNotification \<Rightarrow> sz_notif z | ObjTimer \<Rightarrow> sz_timer z | _ \<Rightarrow> 1)"

definition checked_next_multiple_of :: "u64 \<Rightarrow> u64 \<Rightarrow> u64 option" where
  "checked_next_multiple_of a b =
     (if b = 0 then None else if a mod b = 0 then Some a else checked_add a (b - a mod b))"

definition carve_place :: "u64 \<Rightarrow> u64 \<Rightarrow> u64 \<Rightarrow> u64 \<Rightarrow> u64 \<Rightarrow> retype_error + carve_range" where
  "carve_place base sz watermark al bytes =
     (case checked_add base watermark of None \<Rightarrow> Inl NoMemory | Some bpw \<Rightarrow>
      case checked_add bpw (al - 1) of None \<Rightarrow> Inl NoMemory | Some s \<Rightarrow>
      let rem = s mod al; start = s - rem in
      case checked_add start bytes of None \<Rightarrow> Inl NoMemory | Some end' \<Rightarrow>
      case checked_add base sz of None \<Rightarrow> Inl NoMemory | Some limit \<Rightarrow>
      if limit < end' then Inl NoMemory
      else Inr \<lparr>carve_start = start, carve_end = end', carve_bytes = bytes\<rparr>)"

definition topup_carve :: "u64 \<Rightarrow> u64 \<Rightarrow> u64 \<Rightarrow> u64 \<Rightarrow> u64 \<Rightarrow> retype_error + carve_range" where
  "topup_carve base sz watermark pool_end pages =
     (if pages = 0 then Inl BadArg
      else case checked_mul pages PAGE of None \<Rightarrow> Inl BadArg | Some bytes \<Rightarrow>
      case checked_add base watermark of None \<Rightarrow> Inl BadArg | Some bpw \<Rightarrow>
      if bpw \<noteq> pool_end then Inl BadArg else carve_place base sz watermark PAGE bytes)"

text \<open>The first half of \<open>carve\<close>: the parameter limits and the byte count.\<close>

definition object_bytes :: "platform \<Rightarrow> obj_type \<Rightarrow> u64 \<Rightarrow> u64 option" where
  "object_bytes z ty param =
     (case ty of
        ObjCSpace \<Rightarrow> if param = 0 \<or> 1024 < param then None else Some (cspace_bytes_for z (ucast param))
      | ObjThread \<Rightarrow> Some (fixed_object_bytes z ty)
      | ObjChannel \<Rightarrow> if param = 0 \<or> 256 < param then None else Some (channel_bytes_for z (ucast param))
      | ObjNotification \<Rightarrow> Some (fixed_object_bytes z ty)
      | ObjTimer \<Rightarrow> Some (fixed_object_bytes z ty)
      | ObjFrame \<Rightarrow> if param = 0 \<or> 65536 < param then None else Some (param * 4096)
      | ObjAspace \<Rightarrow> if param = 0 \<or> 256 < param then None else Some (aspace_bytes_for param)
      | ObjUntyped \<Rightarrow>
          if param = 0 then None
          else case checked_next_multiple_of param 4096 of
                 Some b \<Rightarrow> if b = 0 then None else Some b
               | None \<Rightarrow> None)"

definition carve :: "platform \<Rightarrow> u64 \<Rightarrow> u64 \<Rightarrow> u64 \<Rightarrow> obj_type \<Rightarrow> u64 \<Rightarrow> retype_error + carve_range" where
  "carve z base sz watermark ty param =
     (case object_bytes z ty param of
        None \<Rightarrow> Inl BadArg
      | Some bytes \<Rightarrow> carve_place base sz watermark (obj_align ty) bytes)"

text \<open>A sequence of retypes of one region: a refused one leaves the watermark alone.\<close>

fun carve_many :: "platform \<Rightarrow> u64 \<Rightarrow> u64 \<Rightarrow> u64 \<Rightarrow> (obj_type \<times> u64) list \<Rightarrow> carve_range list" where
  "carve_many z base sz watermark [] = []"
| "carve_many z base sz watermark ((ty, param) # rs) =
     (case carve z base sz watermark ty param of
        Inl _ \<Rightarrow> carve_many z base sz watermark rs
      | Inr c \<Rightarrow> c # carve_many z base sz (carve_end c - base) rs)"

text \<open>
  What the code relies on about the sizes (checked by its \<open>bytes_for_positive\<close> and
  \<open>object_size_positive\<close> tests): no structure is empty, and none is absurdly large.
\<close>

definition sizes_ok :: "platform \<Rightarrow> bool" where
  "sizes_ok z \<longleftrightarrow>
     list_all (\<lambda>n. 0 < n \<and> n < 2 ^ 32)
       [sz_cspace z, sz_capslot z, sz_channel z, sz_msgslot z, sz_tcb z, sz_notif z, sz_timer z]"

section \<open>Placement\<close>

lemma carve_place_eq:
  fixes base sz watermark al bytes :: u64
  defines "st \<equiv> (unat base + unat watermark + (unat al - 1)) div unat al * unat al"
  assumes "al \<noteq> 0"
  shows "carve_place base sz watermark al bytes =
    (if unat base + unat watermark + (unat al - 1) < 2 ^ 64 \<and> unat base + unat sz < 2 ^ 64 \<and>
        st + unat bytes \<le> unat base + unat sz
     then Inr \<lparr>carve_start = of_nat st, carve_end = of_nat (st + unat bytes), carve_bytes = bytes\<rparr>
     else Inl NoMemory)"
proof -
  have a: "unat (al - 1) = unat al - 1" using assms(2) by (rule unat_pred_word)
  show ?thesis
  proof (cases "unat base + unat watermark + (unat al - 1) < 2 ^ 64")
    case False
    then show ?thesis
      using a unat_word_ariths(1) [of base watermark]
      by (auto simp: carve_place_def checked_add_def split: option.split)
  next
    case True
    then have bw: "unat (base + watermark) = unat base + unat watermark"
      by (simp add: unat_word_ariths)
    let ?s = "base + watermark + (al - 1)"
    have s: "unat ?s = unat base + unat watermark + (unat al - 1)"
      using True bw a by (simp add: unat_word_ariths)
    have le: "?s mod al \<le> ?s" by (simp add: word_le_nat_alt unat_mod)
    have st: "unat (?s - ?s mod al) = st"
      unfolding st_def unat_sub [OF le] unat_mod s by (rule minus_mod_eq_div_mult)
    have "of_nat (unat (?s - ?s mod al)) = ?s - ?s mod al" by simp
    then have st': "?s - ?s mod al = of_nat st" unfolding st by simp
    have stb: "unat (of_nat st :: u64) = st" using st st' by simp
    show ?thesis
      using True a bw st' stb
      by (auto simp: carve_place_def checked_add_def Let_def word_less_nat_alt unat_word_ariths
          not_less split: option.split)
  qed
qed

lemma obj_align_pos [simp]: "obj_align ty \<noteq> 0"
  by (cases ty) (simp_all add: obj_align_def)

lemma round_up_ge: "(n + (a - 1)) div a * a \<ge> n" if "a > 0" for n a :: nat
proof -
  have "(n + (a - 1)) mod a < a" using that by simp
  moreover have "(n + (a - 1)) div a * a + (n + (a - 1)) mod a = n + (a - 1)" by (rule div_mult_mod_eq)
  ultimately show ?thesis using that by linarith
qed

lemma round_up_least:
  fixes n a m :: nat
  assumes "a > 0" and "a dvd m" and "n \<le> m"
  shows "(n + (a - 1)) div a * a \<le> m"
proof -
  obtain k where m: "m = a * k" using assms(2) by blast
  have "n + (a - 1) < a * (k + 1)" using assms(1,3) m by simp
  then have "(n + (a - 1)) div a < k + 1" using less_mult_imp_div_less by (metis mult.commute)
  then have "(n + (a - 1)) div a \<le> k" by linarith
  then show ?thesis unfolding m by (metis mult.commute mult_le_mono1)
qed

lemma carve_place_Inr:
  assumes "al \<noteq> 0" and "carve_place base sz watermark al bytes = Inr c"
  shows "unat base + unat watermark \<le> unat (carve_start c)"
    and "unat (carve_end c) = unat (carve_start c) + unat bytes"
    and "unat (carve_end c) \<le> unat base + unat sz" and "carve_bytes c = bytes"
    and "unat al dvd unat (carve_start c)"
    and "\<And>m. unat base + unat watermark \<le> m \<Longrightarrow> unat al dvd m \<Longrightarrow> unat (carve_start c) \<le> m"
    and "unat base + unat sz < 2 ^ 64"
proof -
  define st where "st = (unat base + unat watermark + (unat al - 1)) div unat al * unat al"
  have al: "unat al > 0" using assms(1) by (simp add: unat_gt_0)
  have c: "c = \<lparr>carve_start = of_nat st, carve_end = of_nat (st + unat bytes), carve_bytes = bytes\<rparr>"
    and b: "unat base + unat sz < 2 ^ 64" "st + unat bytes \<le> unat base + unat sz"
    using assms(2) by (auto simp: carve_place_eq [OF assms(1)] st_def split: if_splits)
  have st: "unat (carve_start c) = st" "unat (carve_end c) = st + unat bytes"
    unfolding c carve_range.select_convs by (rule unat_of_nat_small; use b in simp)+
  show "unat base + unat watermark \<le> unat (carve_start c)" using round_up_ge [OF al] by (simp add: st st_def)
  show "\<And>m. unat base + unat watermark \<le> m \<Longrightarrow> unat al dvd m \<Longrightarrow> unat (carve_start c) \<le> m"
    using round_up_least [OF al] by (simp add: st st_def)
  show "unat al dvd unat (carve_start c)" by (simp add: st st_def)
  show "unat (carve_end c) = unat (carve_start c) + unat bytes"
    "unat (carve_end c) \<le> unat base + unat sz" "carve_bytes c = bytes" "unat base + unat sz < 2 ^ 64"
    using b by (simp_all only: st) (simp_all add: c)
qed

text \<open>
  C14: Placement is exact. A successful \<open>carve\<close> starts at the first suitably aligned
  address at or above the watermark, spans exactly the bytes of the object without wrapping,
  and ends inside the region; it is refused with \<open>BadArg\<close> exactly for a parameter outside the
  limits of the type, and with \<open>NoMemory\<close> only when the object does not fit below \<open>2^64\<close>.
\<close>

theorem carve_exact:
  "case carve z base sz watermark ty param of
     Inr c \<Rightarrow>
       (let free = unat base + unat watermark; al = unat (obj_align ty) in
        unat (carve_start c) = (LEAST a. free \<le> a \<and> al dvd a) \<and>
        object_bytes z ty param = Some (carve_bytes c) \<and>
        unat (carve_end c) = unat (carve_start c) + unat (carve_bytes c) \<and>
        unat (carve_end c) \<le> unat base + unat sz \<and> unat base + unat sz < 2 ^ 64)
   | Inl BadArg \<Rightarrow> object_bytes z ty param = None
   | Inl e \<Rightarrow> e = NoMemory \<and>
       (case object_bytes z ty param of
          None \<Rightarrow> False
        | Some n \<Rightarrow>
            2 ^ 64 \<le> unat base + unat sz \<or> 2 ^ 64 \<le> unat base + unat watermark + (unat (obj_align ty) - 1) \<or>
            unat base + unat sz < (LEAST a. unat base + unat watermark \<le> a \<and> unat (obj_align ty) dvd a) + unat n)"
proof -
  let ?free = "unat base + unat watermark" and ?al = "unat (obj_align ty)"
  have al: "?al > 0" by (simp add: unat_gt_0)
  have least: "(LEAST a. ?free \<le> a \<and> ?al dvd a) = (?free + (?al - 1)) div ?al * ?al"
    by (rule Least_equality) (use round_up_ge [OF al] round_up_least [OF al] in auto)
  show ?thesis
  proof (cases "object_bytes z ty param")
    case None
    then show ?thesis by (simp add: carve_def)
  next
    case (Some n)
    show ?thesis
    proof (cases "carve_place base sz watermark (obj_align ty) n")
      case (Inl e)
      then show ?thesis
        using Some unfolding least by (auto simp: carve_def carve_place_eq split: if_splits)
    next
      case (Inr c)
      have "unat (carve_start c) = (LEAST a. ?free \<le> a \<and> ?al dvd a)"
        by (rule Least_equality [symmetric]) (use carve_place_Inr [OF _ Inr] in auto)
      then show ?thesis
        using Inr Some carve_place_Inr [OF _ Inr] by (simp add: carve_def Let_def)
    qed
  qed
qed

text \<open>The watermark after a successful retype is the end of the object.\<close>

lemma carve_watermark:
  assumes "carve z base sz watermark ty param = Inr c"
  shows "unat base + unat watermark \<le> unat (carve_start c)" and "carve_start c \<le> carve_end c"
    and "unat (carve_end c) \<le> unat base + unat sz"
    and "unat base + unat (carve_end c - base) = unat (carve_end c)"
proof -
  obtain n where p: "carve_place base sz watermark (obj_align ty) n = Inr c"
    using assms by (auto simp: carve_def split: option.splits)
  note r = carve_place_Inr [OF obj_align_pos p]
  show "unat base + unat watermark \<le> unat (carve_start c)" "unat (carve_end c) \<le> unat base + unat sz"
    using r by simp_all
  show "carve_start c \<le> carve_end c" using r by (simp add: word_le_nat_alt)
  have "base \<le> carve_end c" using r by (simp add: word_le_nat_alt)
  then show "unat base + unat (carve_end c - base) = unat (carve_end c)"
    by (simp add: unat_sub word_le_nat_alt)
qed

lemma carve_many_above:
  "list_all (\<lambda>c. unat base + unat watermark \<le> unat (carve_start c)) (carve_many z base sz watermark rs)"
proof (induction rs arbitrary: watermark)
  case (Cons r rs)
  obtain ty param where r: "r = (ty, param)" by force
  show ?case
  proof (cases "carve z base sz watermark ty param")
    case (Inr c)
    note w = carve_watermark [OF Inr]
    have "unat base + unat watermark \<le> unat base + unat (carve_end c - base)"
      using w by (simp add: word_le_nat_alt)
    then show ?thesis
      using Cons.IH [of "carve_end c - base"] w(1) r Inr by (auto simp: list_all_iff)
  qed (use Cons.IH r in simp)
qed simp

text \<open>
  C15: Memory is handed out once: the ranges that any sequence of retypes takes from one
  untyped region, refused ones included, are pairwise disjoint and in increasing order, and
  each lies between the initial watermark and the end of the region.
\<close>

theorem carve_many_disjoint:
  "sorted_wrt (\<lambda>c d. carve_end c \<le> carve_start d) (carve_many z base sz watermark rs) \<and>
   list_all (\<lambda>c. unat base + unat watermark \<le> unat (carve_start c) \<and> carve_start c \<le> carve_end c \<and>
       unat (carve_end c) \<le> unat base + unat sz) (carve_many z base sz watermark rs)"
proof (induction rs arbitrary: watermark)
  case (Cons r rs)
  obtain ty param where r: "r = (ty, param)" by force
  show ?case
  proof (cases "carve z base sz watermark ty param")
    case (Inr c)
    note w = carve_watermark [OF Inr]
    have above: "carve_end c \<le> carve_start d \<and> unat base + unat watermark \<le> unat (carve_start d)"
      if "d \<in> set (carve_many z base sz (carve_end c - base) rs)" for d
    proof -
      have "unat base + unat (carve_end c - base) \<le> unat (carve_start d)"
        using carve_many_above [of base "carve_end c - base" z sz rs] that by (auto simp: list_all_iff)
      then show ?thesis using w by (simp add: word_le_nat_alt)
    qed
    show ?thesis
      using Cons.IH [of "carve_end c - base"] w above r Inr by (auto simp: list_all_iff)
  qed (use Cons.IH r in simp)
qed simp

section \<open>Object sizes are positive\<close>

lemma size_sum_pos:
  fixes a b c :: u64
  assumes "0 < a" and "a < 2 ^ 32" and "c < 2 ^ 32" and "b \<le> 2048"
  shows "a + b * c \<noteq> 0"
proof -
  have n: "0 < unat a" "unat a < 2 ^ 32" "unat c < 2 ^ 32" "unat b \<le> 2048"
    using assms by (simp_all add: word_less_nat_alt word_le_nat_alt)
  have "unat b * unat c \<le> 2048 * 2 ^ 32" using n by (intro mult_mono) auto
  then have "unat (a + b * c) = unat a + unat b * unat c"
    using n by (simp add: unat_word_ariths)
  then show ?thesis using n(1) by (metis add_is_0 not_less_zero unat_0)
qed

lemma ucast_param:
  assumes "(param :: u64) \<le> 2048"
  shows "ucast (ucast param :: u32) = param"
proof -
  have "unat param < 2 ^ 32" using assms by (simp add: word_le_nat_alt)
  then show ?thesis by (intro word_unat_eq_iff [THEN iffD2]) (simp add: unsigned_ucast_eq unsigned_take_bit_eq take_bit_nat_eq_self)
qed

lemma object_bytes_pos:
  assumes "sizes_ok z" and "object_bytes z ty param = Some n"
  shows "n \<noteq> 0"
proof (cases ty)
  case ObjCSpace
  then have "param \<le> 2048"
    using assms(2) by (auto simp: object_bytes_def word_le_nat_alt word_less_nat_alt split: if_splits)
  then show ?thesis
    using size_sum_pos [of "sz_cspace z" "sz_capslot z" param] assms ObjCSpace
    by (auto simp: object_bytes_def cspace_bytes_for_def sizes_ok_def ucast_param split: if_splits)
next
  case ObjChannel
  then have p: "param \<le> 2048" and "2 * param \<le> 2048"
    using assms(2) by (auto simp: object_bytes_def word_le_nat_alt word_less_nat_alt unat_word_ariths split: if_splits)
  then show ?thesis
    using size_sum_pos [of "sz_channel z" "sz_msgslot z" "2 * param"] assms ObjChannel
    by (auto simp: object_bytes_def channel_bytes_for_def sizes_ok_def ucast_param split: if_splits)
next
  case ObjFrame
  then have "unat param \<noteq> 0" "unat param \<le> 65536"
    using assms(2) by (auto simp: object_bytes_def word_le_nat_alt not_less unat_eq_0 split: if_splits)
  then have "unat (param * 4096) = unat param * 4096" by (simp add: unat_word_ariths)
  then show ?thesis
    using assms(2) ObjFrame \<open>unat param \<noteq> 0\<close> by (auto simp: object_bytes_def split: if_splits)
next
  case ObjAspace
  then have "param \<le> 2048"
    using assms(2) by (auto simp: object_bytes_def word_le_nat_alt word_less_nat_alt split: if_splits)
  then show ?thesis
    using size_sum_pos [of "PAGE + PAGE" PAGE param] assms(2) ObjAspace
    by (auto simp: object_bytes_def aspace_bytes_for_def PAGE_def split: if_splits)
qed (use assms in \<open>auto simp: object_bytes_def fixed_object_bytes_def sizes_ok_def
      split: if_splits option.splits\<close>)

lemma frame_bytes:
  assumes "object_bytes z ObjFrame param = Some n"
  shows "unat n = unat param * 4096"
proof -
  have "unat param \<le> 65536" "n = param * 4096"
    using assms by (auto simp: object_bytes_def word_le_nat_alt not_less split: if_splits)
  then show ?thesis by (simp add: unat_word_ariths)
qed

end
