(* ===== verification/Untypeds.thy ===== *)
theory Untypeds
  imports Carve Derive
begin

text \<open>
  Retyping untyped memory into kernel objects (\<open>kcore/src/untyped.rs\<close> and the shell around it
  in \<open>kernel/src/untyped.rs\<close> and \<open>kernel/src/aspace.rs\<close>): the slot checks, the placement, the
  construction of the object, the installation of its capabilities, the reset of an untyped
  region and the top-up of a page-table pool.

  The new object's slots are handles into the carved memory. Memory that a live object
  still occupies is never handed out as long as \<open>fresh\<close> holds at the placed address.
\<close>

section \<open>Operations\<close>

definition retype_check ::
    "slot_id \<Rightarrow> obj_type \<Rightarrow> slot_id \<Rightarrow> slot_id option \<Rightarrow> kstore \<Rightarrow> retype_error + u64 \<times> u64 \<times> u64" where
  "retype_check ut ty dst dst2 s =
     (case kind (cap (slots s ut)) of
        Untyped base sz watermark \<Rightarrow>
          if \<not> empty_slot (slots s) dst then Inl DestOccupied
          else if ty = ObjChannel \<and>
                  (case dst2 of None \<Rightarrow> True | Some d2 \<Rightarrow> d2 = dst \<or> \<not> empty_slot (slots s) d2)
               then Inl DestOccupied
          else Inr (base, sz, watermark)
      | _ \<Rightarrow> Inl NotUntyped)"

text \<open>The construction of an object in place; every count starts at one.\<close>

definition clear_slots :: "slot_id list \<Rightarrow> kstore \<Rightarrow> kstore" where
  "clear_slots ks s = fold (\<lambda>k. set_slot k slot_empty) ks s"

definition cspace_layout :: "platform \<Rightarrow> obj_id \<Rightarrow> u32 \<Rightarrow> u32 \<Rightarrow> slot_id" where
  "cspace_layout z o' n i =
     (if n \<le> i then SlotId 0 else SlotId (obj_raw o' + sz_cspace z + ucast i * sz_capslot z))"

definition ring_layout :: "platform \<Rightarrow> obj_id \<Rightarrow> u32 \<Rightarrow> nat \<Rightarrow> u32 \<Rightarrow> nat \<Rightarrow> slot_id" where
  "ring_layout z o' depth ring i c =
     SlotId (obj_raw o' + sz_channel z + (of_nat ring * ucast depth + ucast i) * sz_msgslot z
             + off_msg_caps z + of_nat c * sz_capslot z)"

definition bind_layout :: "platform \<Rightarrow> obj_id \<Rightarrow> nat \<Rightarrow> slot_id" where
  "bind_layout z o' which = SlotId (obj_raw o' + off_bind_slots z + of_nat which * sz_capslot z)"

definition embedded :: "platform \<Rightarrow> obj_type \<Rightarrow> u64 \<Rightarrow> obj_id \<Rightarrow> slot_id list" where
  "embedded z ty param o' =
     (case ty of
        ObjCSpace \<Rightarrow> map (\<lambda>i. cspace_layout z o' (ucast param) (of_nat i)) [0..<unat (ucast param :: u32)]
      | ObjThread \<Rightarrow> map (bind_layout z o') [0, 1]
      | ObjChannel \<Rightarrow>
          [ring_layout z o' (ucast param) ring (of_nat i) c.
             ring \<leftarrow> [0..<2], i \<leftarrow> [0..<unat (ucast param :: u32)], c \<leftarrow> [0..<MSG_CAPS]]
      | _ \<Rightarrow> [])"

definition cspace_obj_init :: "platform \<Rightarrow> obj_id \<Rightarrow> u64 \<Rightarrow> kstore \<Rightarrow> kstore" where
  "cspace_obj_init z o' param s =
     (let s = set_obj_refs o' 1 s;
          s = s\<lparr>cspaces := (cspaces s)(o' := cspace_init (ucast param) (cspace_layout z o' (ucast param)))\<rparr>
      in clear_slots (embedded z ObjCSpace param o') s)"

definition tcb_obj_init :: "platform \<Rightarrow> obj_id \<Rightarrow> kstore \<Rightarrow> kstore" where
  "tcb_obj_init z o' s =
     (let s = set_obj_refs o' 1 s;
          s = upd_tcb o' (\<lambda>_. tcb_empty (bind_layout z o')) s
      in clear_slots (embedded z ObjThread 0 o') s)"

definition channel_obj_init :: "platform \<Rightarrow> obj_id \<Rightarrow> u64 \<Rightarrow> kstore \<Rightarrow> kstore" where
  "channel_obj_init z o' param s =
     (let s = set_obj_refs o' 1 s;
          s = upd_chan o' (\<lambda>c. channel_init (ucast param) (ring_layout z o' (ucast param)) (chan_payload c)) s
      in clear_slots (embedded z ObjChannel param o') s)"

definition aspace_init :: "platform \<Rightarrow> obj_id \<Rightarrow> u64 \<Rightarrow> kstore \<Rightarrow> kstore" where
  "aspace_init z o' pool_pages s =
     (let base = obj_raw o';
          asid = next_asid s;
          nxt = asid + 1;
          nxt = (if nxt = 0 then 1 else nxt);
          a = \<lparr>asp_asid = asid, asp_l1 = base + PAGE, asp_pool_base = base + 2 * PAGE, asp_pool_used = 0,
               asp_l1_tab = (\<lambda>_. 0)(0 := kernel_l1 z 0, 1 := kernel_l1 z 1),
               asp_pool = map (\<lambda>i. page_mem z (base + 2 * PAGE + of_nat i * PAGE)) [0..<unat pool_pages]\<rparr>
      in set_obj_refs o' 1 (s\<lparr>next_asid := nxt, aspaces := (aspaces s)(o' := a)\<rparr>))"

definition object_init ::
    "platform \<Rightarrow> obj_id \<Rightarrow> obj_type \<Rightarrow> u64 \<Rightarrow> carve_range \<Rightarrow> kstore \<Rightarrow> cap_kind \<times> kstore" where
  "object_init z cur ty param c s =
     (let o' = ObjId (carve_start c) in
      case ty of
        ObjCSpace \<Rightarrow> (CSpace o', cspace_obj_init z o' param s)
      | ObjThread \<Rightarrow> (Thread o' (tcb_priority (tcbs s cur)), tcb_obj_init z o' s)
      | ObjChannel \<Rightarrow> (Channel o' EndA, channel_obj_init z o' param s)
      | ObjNotification \<Rightarrow> (Notification o', upd_notif o' (\<lambda>_. notif_init) (set_obj_refs o' 1 s))
      | ObjTimer \<Rightarrow> (Timer o', upd_timer o' (\<lambda>_. timer_init) (set_obj_refs o' 1 s))
      | ObjFrame \<Rightarrow> (Frame (carve_start c) param None, s)
      | ObjAspace \<Rightarrow> (Aspace o', aspace_init z o' param s)
      | ObjUntyped \<Rightarrow> (Untyped (carve_start c) (carve_bytes c) 0, s))"

definition retype_rights :: "obj_type \<Rightarrow> rights \<Rightarrow> rights" where
  "retype_rights ty r =
     (case ty of
        ObjFrame \<Rightarrow> r
      | ObjThread \<Rightarrow> THREAD_ALL
      | ObjUntyped \<Rightarrow> masked r (READ OR WRITE)
      | _ \<Rightarrow> RIGHTS_ALL)"

definition retype_install ::
    "slot_id \<Rightarrow> obj_type \<Rightarrow> cap_kind \<Rightarrow> u64 \<Rightarrow> slot_id \<Rightarrow> slot_id option \<Rightarrow> kstore \<Rightarrow> kstore" where
  "retype_install ut ty k end' dst dst2 s =
     (let u = slots s ut in
      case kind (cap u) of
        Untyped base sz _ \<Rightarrow>
          (let u = u\<lparr>cap := (cap u)\<lparr>kind := Untyped base sz (end' - base)\<rparr>\<rparr>;
               r = retype_rights ty (rights (cap u));
               s = set_slot ut u s;
               s = set_slot dst ((slots s dst)\<lparr>cap := \<lparr>kind = k, rights = r\<rparr>\<rparr>) s;
               s = s\<lparr>slots := cdt_insert_child ut dst (slots s)\<rparr>
           in case k of
                Channel ch _ \<Rightarrow>
                  (let s = endpoint_cap_added ch EndA s in
                   case dst2 of
                     None \<Rightarrow> s
                   | Some d2 \<Rightarrow>
                       (let s = set_slot d2 ((slots s d2)\<lparr>cap := \<lparr>kind = Channel ch EndB, rights = RIGHTS_ALL\<rparr>\<rparr>) s;
                            s = set_obj_refs ch (refs s ch + 1) s;
                            s = s\<lparr>slots := cdt_insert_child ut d2 (slots s)\<rparr>
                        in endpoint_cap_added ch EndB s))
              | _ \<Rightarrow> s)
      | _ \<Rightarrow> s)"

definition retype ::
    "platform \<Rightarrow> obj_id \<Rightarrow> slot_id \<Rightarrow> obj_type \<Rightarrow> u64 \<Rightarrow> slot_id \<Rightarrow> slot_id option \<Rightarrow> kstore \<Rightarrow>
     (retype_error + unit) \<times> kstore" where
  "retype z cur ut ty param dst dst2 s =
     (case retype_check ut ty dst dst2 s of
        Inl e \<Rightarrow> (Inl e, s)
      | Inr (base, sz, watermark) \<Rightarrow>
          (case carve z base sz watermark ty param of
             Inl e \<Rightarrow> (Inl e, s)
           | Inr c \<Rightarrow>
               (let (k, s) = object_init z cur ty param c s
                in (Inr (), retype_install ut ty k (carve_end c) dst dst2 s))))"

definition reset :: "slot_id \<Rightarrow> kstore \<Rightarrow> (retype_error + unit) \<times> kstore" where
  "reset ut s =
     (let u = slots s ut in
      case kind (cap u) of
        Untyped base sz _ \<Rightarrow>
          if first_child u \<noteq> None then (Inl BadArg, s)
          else (Inr (), set_slot ut (u\<lparr>cap := \<lparr>kind = Untyped base sz 0, rights = rights (cap u)\<rparr>\<rparr>) s)
      | _ \<Rightarrow> (Inl NotUntyped, s))"

definition grow_pool :: "u64 \<Rightarrow> aspace_obj \<Rightarrow> aspace_obj" where
  "grow_pool add a = a\<lparr>asp_pool := asp_pool a @ replicate (unat add) (\<lambda>_. 0)\<rparr>"

definition aspace_topup :: "slot_id \<Rightarrow> obj_id \<Rightarrow> u64 \<Rightarrow> kstore \<Rightarrow> (retype_error + unit) \<times> kstore" where
  "aspace_topup ut asp pages s =
     (case kind (cap (slots s ut)) of
        Untyped base sz watermark \<Rightarrow>
          (let a = aspaces s asp;
               pool_end = asp_pool_base a + of_nat (length (asp_pool a)) * PAGE
           in case topup_carve base sz watermark pool_end pages of
                Inl e \<Rightarrow> (Inl e, s)
              | Inr c \<Rightarrow>
                  (let u = slots s ut;
                       s = set_slot ut (u\<lparr>cap := (cap u)\<lparr>kind := Untyped base sz (carve_end c - base)\<rparr>\<rparr>) s
                   in (Inr (), s\<lparr>aspaces := (aspaces s)(asp := grow_pool pages (aspaces s asp))\<rparr>)))
      | _ \<Rightarrow> (Inl NotUntyped, s))"

section \<open>Constructing an object\<close>

text \<open>Nothing live is where the object goes.\<close>

definition fresh :: "platform \<Rightarrow> obj_type \<Rightarrow> u64 \<Rightarrow> obj_id \<Rightarrow> kstore \<Rightarrow> bool" where
  "fresh z ty param o' s \<longleftrightarrow>
     list_all (empty_slot (slots s)) (embedded z ty param o') \<and>
     tcb_state (tcbs s o') \<noteq> Runnable \<and> tcb_state (tcbs s o') \<noteq> BlockedNotif \<and>
     notif_wait_head (notifs s o') = None \<and> \<not> timer_armed (timers s o')"

lemma clear_slots_slots:
  "slots (clear_slots ks s) = (\<lambda>k. if k \<in> set ks then slot_empty else slots s k)"
  unfolding clear_slots_def by (induction ks arbitrary: s) (auto simp: set_slot_def fun_eq_iff)

lemma clear_slots_frame [simp]:
  "tcbs (clear_slots ks s) = tcbs s" "notifs (clear_slots ks s) = notifs s"
  "timers (clear_slots ks s) = timers s" "irqs (clear_slots ks s) = irqs s"
  "armed_head (clear_slots ks s) = armed_head s" "ready_head (clear_slots ks s) = ready_head s"
  "ready_tail (clear_slots ks s) = ready_tail s" "ready_bitmap (clear_slots ks s) = ready_bitmap s"
  "current (clear_slots ks s) = current s" "chans (clear_slots ks s) = chans s"
  "cspaces (clear_slots ks s) = cspaces s" "refs (clear_slots ks s) = refs s"
  unfolding clear_slots_def by (induction ks arbitrary: s; simp add: set_slot_def)+

text \<open>Clearing slots that are already empty.\<close>

lemma clear_empty:
  assumes "cdt_wf m" and "\<forall>k\<in>K. empty_slot m k"
  defines "m' \<equiv> (\<lambda>k. if k \<in> K then slot_empty else m k)"
  shows "cdt_wf m'" and "desc m' = desc m" and "slot_cap m' = slot_cap m"
    and "confined m \<Longrightarrow> confined m'"
proof -
  have links: "parent (m' j) = parent (m j) \<and> first_child (m' j) = first_child (m j) \<and>
      next_sib (m' j) = next_sib (m j) \<and> prev_sib (m' j) = prev_sib (m j)" for j
    using cdt_wfD(4) [OF assms(1)] assms(2) by (auto simp: m'_def detached_def)
  have e: "empty_slot m' j = empty_slot m j" for j using assms(2) by (auto simp: m'_def)
  show "cdt_wf m'" and d: "desc m' = desc m"
    by (rule cdt_wf_cong [OF links _ assms(1)]; use cdt_wfD(4) [OF assms(1)] e in blast)+
  show "slot_cap m' = slot_cap m" using assms(2) by (auto simp: fun_eq_iff slot_cap_def m'_def)
  assume c: "confined m"
  have cp: "cap (m' j) = cap (m j)" if "\<not> empty_slot m j" for j using that assms(2) by (auto simp: m'_def)
  have "authority_mono m'"
    unfolding authority_mono_def
  proof (intro allI impI)
    fix k p assume "parent (m' k) = Some p"
    then have p: "parent (m k) = Some p" by (simp add: links)
    show "auth_le (cap (m' k)) (cap (m' p))"
      using authority_monoD [where m = m, OF _ p] c cp parent_nonempty [OF assms(1) p]
      by (simp add: confined_def)
  qed
  moreover have "mem_disjoint m'"
    unfolding mem_disjoint_def d e using c cp unfolding confined_def mem_disjoint_def by presburger
  ultimately show "confined m'" by (simp add: confined_def)
qed

lemma set_obj_refs_frame [simp]:
  "tcbs (set_obj_refs c r s) = tcbs s" "notifs (set_obj_refs c r s) = notifs s"
  "timers (set_obj_refs c r s) = timers s"
  by (simp_all add: set_obj_refs_def)

lemma notif_init_sched:
  assumes "sched_wf s" and "notif_wait_head (notifs s n) = None"
  shows "sched_wf (upd_notif n (\<lambda>_. notif_init) s)"
proof -
  obtain R W where rep: "sched_rep {} s R W" using assms(1) by (auto simp: sched_wf_def)
  then have "W n = []" "notif_wait_tail (notifs s n) = None"
    using sched_repD(2) [OF rep, of n] assms(2) by (cases "W n"; simp add: wait_q_def)+
  then have "sched_rep {} (upd_notif n (\<lambda>_. notif_init) s) R W"
    using assms(2) by (intro sched_rep_frame [OF rep]) (simp_all add: store_defs notif_init_def)
  then show ?thesis by (auto simp: sched_wf_def)
qed

lemma tcb_init_sched:
  assumes "sched_wf s" and "tcb_state (tcbs s t) \<noteq> Runnable" and "tcb_state (tcbs s t) \<noteq> BlockedNotif"
    and "tcb_state (f (tcbs s t)) \<noteq> Runnable" and "tcb_state (f (tcbs s t)) \<noteq> BlockedNotif"
  shows "sched_wf (upd_tcb t f s)"
proof -
  obtain R W where "sched_rep {} s R W" using assms(1) by (auto simp: sched_wf_def)
  then have "sched_rep (insert t {}) s R W" by (rule sched_rep_idle_off) (use assms(2,3) in auto)
  then have "sched_rep {t} (upd_tcb t f s) R W" by (rule sched_rep_transit) simp
  then have "sched_rep ({t} - {t}) (upd_tcb t f s) R W"
    by (rule sched_rep_idle_on) (use assms(4,5) in \<open>simp_all add: upd_tcb_def\<close>)
  then show ?thesis by (auto simp: sched_wf_def)
qed

lemma timer_init_wf:
  assumes "timer_wf s" and "\<not> timer_armed (timers s t)"
  shows "timer_wf (upd_timer t (\<lambda>_. timer_init) s)"
proof -
  obtain T where T: "timer_rep s T" using assms(1) by (auto simp: timer_wf_def)
  then have t: "t \<notin> set T" using assms(2) by (auto simp: timer_rep_def)
  have "chain (tnext_of (upd_timer t (\<lambda>_. timer_init) s)) (armed_head s) T = chain (tnext_of s) (armed_head s) T"
    using t by (intro lseg_cong) (auto simp: store_defs)
  then have "timer_rep (upd_timer t (\<lambda>_. timer_init) s) T"
    using T t by (auto simp: timer_rep_def store_defs timer_init_def)
  then show ?thesis by (auto simp: timer_wf_def)
qed

lemma object_init_ok:
  assumes inv: "kinv s" and fr: "fresh z ty param (ObjId (carve_start c)) s"
    and init: "object_init z cur ty param c s = (k, s')"
  shows "kinv s'" and "slots s' = (\<lambda>j. if j \<in> set (embedded z ty param (ObjId (carve_start c)))
      then slot_empty else slots s j)"
proof -
  let ?o = "ObjId (carve_start c)"
  have e: "\<forall>j\<in>set (embedded z ty param ?o). empty_slot (slots s) j"
    and st: "tcb_state (tcbs s ?o) \<noteq> Runnable" "tcb_state (tcbs s ?o) \<noteq> BlockedNotif"
    "notif_wait_head (notifs s ?o) = None" "\<not> timer_armed (timers s ?o)"
    using fr by (auto simp: fresh_def list_all_iff)
  have th: "embedded z ObjThread 0 ?o = embedded z ObjThread param ?o" by (simp add: embedded_def)
  show sl: "slots s' = (\<lambda>j. if j \<in> set (embedded z ty param ?o) then slot_empty else slots s j)"
    using init by (cases ty)
      (auto simp: object_init_def Let_def cspace_obj_init_def tcb_obj_init_def channel_obj_init_def
        aspace_init_def clear_slots_slots store_defs th embedded_def)
  have cdt: "cdt_wf (slots s')" unfolding sl by (rule clear_empty(1) [OF kinvD(1) [OF inv] e])
  have irq: "irqs s' = irqs s" and head: "armed_head s' = armed_head s"
    and ready: "ready_head s' = ready_head s" "ready_tail s' = ready_tail s" "ready_bitmap s' = ready_bitmap s"
    and t: "ty \<noteq> ObjThread \<Longrightarrow> tcbs s' = tcbs s" and n: "ty \<noteq> ObjNotification \<Longrightarrow> notifs s' = notifs s"
    and ti: "ty \<noteq> ObjTimer \<Longrightarrow> timers s' = timers s"
    using init by (cases ty; auto simp: object_init_def Let_def cspace_obj_init_def tcb_obj_init_def
        channel_obj_init_def aspace_init_def store_defs)+
  have "sched_wf s'"
  proof (cases "ty = ObjThread")
    case True
    have "sched_wf (upd_tcb ?o (\<lambda>_. tcb_empty (bind_layout z ?o)) (set_obj_refs ?o 1 s))"
      by (rule tcb_init_sched) (use kinvD(2) [OF inv] st in \<open>simp_all add: tcb_empty_def\<close>)
    then show ?thesis
      using init True by (auto simp: object_init_def Let_def tcb_obj_init_def sched_wf_frame [of "clear_slots _ _"])
  next
    case F: False
    show ?thesis
    proof (cases "ty = ObjNotification")
      case True
      have "sched_wf (upd_notif ?o (\<lambda>_. notif_init) (set_obj_refs ?o 1 s))"
        by (rule notif_init_sched) (use kinvD(2) [OF inv] st in simp_all)
      then show ?thesis using init True by (auto simp: object_init_def Let_def)
    next
      case False
      then show ?thesis using sched_wf_frame [of s' s] kinvD(2) [OF inv] t n F ready by simp
    qed
  qed
  moreover have "timer_wf s'"
  proof (cases "ty = ObjTimer")
    case True
    have "timer_wf (upd_timer ?o (\<lambda>_. timer_init) (set_obj_refs ?o 1 s))"
      by (rule timer_init_wf) (use kinvD(3) [OF inv] st in simp_all)
    then show ?thesis using init True by (auto simp: object_init_def Let_def)
  next
    case False
    then show ?thesis using timer_wf_frame [of s' s] kinvD(3) [OF inv] ti head by simp
  qed
  moreover have "irq_wf s'" using irq_wf_frame [OF irq] kinvD(4) [OF inv] by simp
  ultimately show "kinv s'" using cdt by (simp add: kinv_def)
qed

section \<open>Installing the capabilities\<close>

definition with_watermark :: "slot_id \<Rightarrow> u64 \<Rightarrow> slot_map \<Rightarrow> slot_map" where
  "with_watermark u w m =
     (case kind (cap (m u)) of
        Untyped base sz _ \<Rightarrow> m(u := (m u)\<lparr>cap := (cap (m u))\<lparr>kind := Untyped base sz w\<rparr>\<rparr>)
      | _ \<Rightarrow> m)"

lemma with_watermark_ok:
  assumes wf: "cdt_wf m" and u: "kind (cap (m u)) = Untyped base sz w"
  shows "cdt_wf (with_watermark u w' m)" and "desc (with_watermark u w' m) = desc m"
    and "slot_cap (with_watermark u w' m) =
      (slot_cap m)(u \<mapsto> \<lparr>kind = Untyped base sz w', rights = rights (cap (m u))\<rparr>)"
    and "confined m \<Longrightarrow> w \<le> w' \<or> first_child (m u) = None \<Longrightarrow> confined (with_watermark u w' m)"
proof -
  let ?c = "(cap (m u))\<lparr>kind := Untyped base sz w'\<rparr>"
  have m': "with_watermark u w' m = m(u := (m u)\<lparr>cap := ?c\<rparr>)" by (simp add: with_watermark_def u)
  have ne: "\<not> empty_slot m u" "\<not> cap_is_empty ?c" using u by (simp_all add: cap_is_empty_iff)
  show "cdt_wf (with_watermark u w' m)" "desc (with_watermark u w' m) = desc m"
    unfolding m' by (rule cdt_wf_cong [OF _ _ wf]; use cdt_wfD(4) [OF wf] ne in \<open>auto split: if_splits\<close>)+
  show "slot_cap (with_watermark u w' m) =
      (slot_cap m)(u \<mapsto> \<lparr>kind = Untyped base sz w', rights = rights (cap (m u))\<rparr>)"
    using ne unfolding m' by (auto simp: fun_eq_iff slot_cap_def)
  assume conf: "confined m" and w: "w \<le> w' \<or> first_child (m u) = None"
  show "confined (with_watermark u w' m)"
    unfolding m'
  proof (rule recap_confined [OF conf ne])
    show "parent (m u) \<noteq> Some u" using desc_irrefl [OF wf] desc_parent by blast
    show "auth_le ?c p" if "auth_le (cap (m u)) p" for p
      using that u auth_le_untyped [OF that] by (auto simp: auth_le_def)
    show "auth_le (cap (m j)) ?c" if j: "parent (m j) = Some u" "auth_le (cap (m j)) (cap (m u))" for j
    proof -
      have "first_child (m u) \<noteq> None" using no_parent_of_childless [OF wf] j(1) by blast
      then have "uint w \<le> uint w'" using w by (auto simp: word_le_def)
      then have "used (Untyped base sz w) \<subseteq> used (kind ?c)" by auto
      moreover have "rights ?c = rights (cap (m u))" "is_untyped (kind ?c)" by simp_all
      ultimately show ?thesis using j(2) unfolding auth_le_def u by (metis order_trans)
    qed
  qed (use u in simp_all)
qed

lemma retype_install_slots:
  assumes "kind (cap (slots s ut)) = Untyped base sz w" and "ut \<noteq> dst"
  shows "slots (retype_install ut ty k end' dst dst2 s) =
    (let m = with_watermark ut (end' - base) (slots s);
         r = retype_rights ty (rights (cap (slots s ut)));
         m = cdt_insert_child ut dst (m(dst := (m dst)\<lparr>cap := \<lparr>kind = k, rights = r\<rparr>\<rparr>))
     in case (k, dst2) of
          (Channel ch e, Some d2) \<Rightarrow>
            cdt_insert_child ut d2 (m(d2 := (m d2)\<lparr>cap := \<lparr>kind = Channel ch EndB, rights = RIGHTS_ALL\<rparr>\<rparr>))
        | _ \<Rightarrow> m)"
  using assms
  by (auto simp: retype_install_def with_watermark_def Let_def set_slot_def set_obj_refs_def
      split: cap_kind.split option.split)

lemma retype_install_frame [simp]:
  "tcbs (retype_install ut ty k end' dst dst2 s) = tcbs s"
  "notifs (retype_install ut ty k end' dst dst2 s) = notifs s"
  "timers (retype_install ut ty k end' dst dst2 s) = timers s"
  "irqs (retype_install ut ty k end' dst dst2 s) = irqs s"
  "armed_head (retype_install ut ty k end' dst dst2 s) = armed_head s"
  "ready_head (retype_install ut ty k end' dst dst2 s) = ready_head s"
  "ready_tail (retype_install ut ty k end' dst dst2 s) = ready_tail s"
  "ready_bitmap (retype_install ut ty k end' dst dst2 s) = ready_bitmap s"
  "current (retype_install ut ty k end' dst dst2 s) = current s"
  by (auto simp: retype_install_def Let_def set_slot_def set_obj_refs_def split: cap_kind.split option.split)

text \<open>What may be hung below a region: something inside the range that was just taken.\<close>

lemma install_carved:
  fixes st en base sz w :: u64
  assumes wf: "cdt_wf m" and conf: "confined m" and u: "kind (cap (m u)) = Untyped base sz w"
    and dst: "empty_slot m d" and c: "\<not> cap_is_empty c"
    and sp: "span (kind c) \<subseteq> {uint st ..< uint en}" and lo: "uint base + uint w \<le> uint st"
    and ord: "st \<le> en" and hi: "uint en \<le> uint base + uint sz"
    and wm: "uint base + uint (en - base) = uint en"
    and phys: "has_rights (rights c) PHYS \<longrightarrow> has_rights (rights (cap (m u))) PHYS"
  defines "m1 \<equiv> with_watermark u (en - base) m"
  defines "m2 \<equiv> cdt_insert_child u d (m1(d := (m1 d)\<lparr>cap := c\<rparr>))"
  shows "cdt_wf m2" and "confined m2"
    and "slot_cap m2 = (slot_cap m)
      (u \<mapsto> \<lparr>kind = Untyped base sz (en - base), rights = rights (cap (m u))\<rparr>, d \<mapsto> c)"
    and "desc m2 r j \<longleftrightarrow> desc m r j \<or> j = d \<and> (r = u \<or> desc m r u)"
    and "\<And>j. \<not> empty_slot m2 j \<Longrightarrow> overlap (cap (m2 j)) c \<Longrightarrow> j \<noteq> d \<Longrightarrow>
      is_untyped (kind (cap (m2 j))) \<and> (j = u \<or> desc m2 j u)"
proof -
  note ww = with_watermark_ok [OF wf u]
  have du: "d \<noteq> u" using u dst by (auto simp: cap_is_empty_iff)
  have cm1: "cap (m1 j) = (if j = u then \<lparr>kind = Untyped base sz (en - base), rights = rights (cap (m u))\<rparr>
      else cap (m j))" for j
    by (simp add: m1_def with_watermark_def u)
  have ne: "\<not> empty_slot m u" "\<not> empty_slot m1 u" "empty_slot m1 d"
    using u dst du by (simp_all add: cm1 cap_is_empty_iff)
  have e1: "empty_slot m1 j = empty_slot m j" for j using ne by (simp add: cm1)
  have ew: "w \<le> en - base" using lo wm ord by (simp add: word_le_def)
  have conf1: "confined m1" using ww(4) [OF conf] ew by (simp add: m1_def)
  have wf1: "cdt_wf m1" using ww(1) by (simp add: m1_def)
  have d1: "desc m1 = desc m" using ww(2) by (simp add: m1_def)
  have "uint base \<le> uint st" using lo uint_ge_0 [of w] by linarith
  then have inside: "{uint st ..< uint en} \<subseteq> {uint base ..< uint base + uint sz}"
    "{uint st ..< uint en} \<inter> {uint base ..< uint base + min (uint w) (uint sz)} = {}"
    "{uint st ..< uint en} \<subseteq> {uint base ..< uint base + min (uint (en - base)) (uint sz)}"
    using lo hi wm by auto
  have room: "is_untyped (kind (cap (m1 j))) \<and> (j = u \<or> desc m j u)"
    if j: "\<not> empty_slot m1 j" "overlap (cap (m1 j)) c" for j
  proof -
    have "overlap (cap (m j)) c" using j(2) u by (auto simp: cm1 overlap_def split: if_splits)
    moreover have "span (kind c) \<subseteq> span (kind (cap (m u)))" "span (kind c) \<inter> used (kind (cap (m u))) = {}"
      using sp inside u by auto
    ultimately show ?thesis
      using free_memory [OF conf ne(1) _ _ , of j c] j(1) u by (auto simp: cm1 e1)
  qed
  have le: "auth_le c (cap (m1 u))"
    using order_trans [OF sp inside(3)] phys by (auto simp: auth_le_def cm1)
  note inst = install_child [OF wf1 ne(2,3) c, folded m2_def]
  show "cdt_wf m2" by (rule inst(1))
  show "confined m2"
    unfolding m2_def by (rule install_child_confined [OF wf1 ne(2,3) c conf1 le]) (use room d1 in auto)
  show "slot_cap m2 = (slot_cap m)
      (u \<mapsto> \<lparr>kind = Untyped base sz (en - base), rights = rights (cap (m u))\<rparr>, d \<mapsto> c)"
    using inst(2) ww(3) by (simp add: m1_def)
  show "desc m2 r j \<longleftrightarrow> desc m r j \<or> j = d \<and> (r = u \<or> desc m r u)" using inst(3) by (simp add: d1)
  show "is_untyped (kind (cap (m2 j))) \<and> (j = u \<or> desc m2 j u)"
    if "\<not> empty_slot m2 j" "overlap (cap (m2 j)) c" "j \<noteq> d" for j
    using room [of j] that inst(3) by (auto simp: inst(4) d1)
qed

section \<open>Retype\<close>

lemma retype_check_Inr:
  assumes "retype_check ut ty dst dst2 s = Inr (base, sz, w)"
  shows "kind (cap (slots s ut)) = Untyped base sz w" and "empty_slot (slots s) dst"
    and "ty = ObjChannel \<Longrightarrow> \<exists>d2. dst2 = Some d2 \<and> d2 \<noteq> dst \<and> empty_slot (slots s) d2"
  using assms by (auto simp: retype_check_def split: cap_kind.splits if_splits option.splits)

lemma uint_unat_le: "uint a + uint b \<le> uint c \<longleftrightarrow> unat a + unat b \<le> unat c"
  "uint a \<le> uint b + uint c \<longleftrightarrow> unat a \<le> unat b + unat c"
  "uint a + uint b = uint c \<longleftrightarrow> unat a + unat b = unat c" for a b c :: u64
  unfolding uint_nat by linarith+

lemma object_init_kind:
  assumes "sizes_ok z" and "carve z base sz w ty param = Inr c"
    and "object_init z cur ty param c s = (k, s')"
  shows "k \<noteq> Empty" and "span k \<subseteq> {uint (carve_start c) ..< uint (carve_end c)}"
    and "ty = ObjChannel \<longleftrightarrow> (\<exists>ch e. k = Channel ch e)"
    and "k = Channel ch e \<Longrightarrow> ch = ObjId (carve_start c)"
    and "span (Channel (ObjId (carve_start c)) e) \<subseteq> {uint (carve_start c) ..< uint (carve_end c)}"
proof -
  obtain n where n: "object_bytes z ty param = Some n" "carve_place base sz w (obj_align ty) n = Inr c"
    using assms(2) by (auto simp: carve_def split: option.splits)
  note r = carve_place_Inr [OF obj_align_pos n(2)]
  have e: "uint (carve_end c) = uint (carve_start c) + uint n"
    using r(2) unfolding uint_nat by linarith
  have "0 < uint n" using object_bytes_pos [OF assms(1) n(1)] by (simp add: uint_0_iff less_le)
  moreover have "uint n = uint param * 4096" if "ty = ObjFrame"
    using frame_bytes [of z param n] n(1) that unfolding uint_nat by simp
  ultimately show "span k \<subseteq> {uint (carve_start c) ..< uint (carve_end c)}"
    "span (Channel (ObjId (carve_start c)) e) \<subseteq> {uint (carve_start c) ..< uint (carve_end c)}"
    using assms(3) e r(4) by (cases ty; auto simp: object_init_def Let_def)+
  show "k \<noteq> Empty" "ty = ObjChannel \<longleftrightarrow> (\<exists>ch e. k = Channel ch e)"
    "k = Channel ch e \<Longrightarrow> ch = ObjId (carve_start c)"
    using assms(3) by (cases ty; auto simp: object_init_def Let_def)+
qed

lemma has_rights_PHYS: "has_rights r PHYS \<longleftrightarrow> bit r 2"
proof -
  have "r AND 4 = 4 \<longleftrightarrow> (\<forall>n. bit (4::u8) n \<longrightarrow> bit r n)" by (auto simp: bit_eq_iff bit_simps)
  moreover have "bit (4::u8) n \<longleftrightarrow> n = 2" for n
    using bit_push_bit_iff [of 2 "1::u8" n] by (auto simp: bit_simps)
  ultimately show ?thesis by (simp add: has_rights_def PHYS_def)
qed

lemma retype_rights_phys: "has_rights (retype_rights ty r) PHYS \<Longrightarrow> has_rights r PHYS"
  unfolding has_rights_PHYS
  by (cases ty) (auto simp: retype_rights_def masked_def THREAD_ALL_def RIGHTS_ALL_def READ_def WRITE_def
      BIND_REPORTS_def READ_REPORT_def bit_simps)

lemma retype_slots_ok:
  assumes wf: "cdt_wf m" and conf: "confined m" and u: "kind (cap (m ut)) = Untyped base sz w"
    and sz: "sizes_ok z" and c: "carve z base sz w ty param = Inr c"
    and k: "object_init z cur ty param c s0 = (k, s1)" and dst: "empty_slot m dst"
    and dst2: "ty = ObjChannel \<longrightarrow> (\<exists>d2. dst2 = Some d2 \<and> d2 \<noteq> dst \<and> empty_slot m d2)"
  defines "r \<equiv> rights (cap (m ut))"
  defines "m1 \<equiv> with_watermark ut (carve_end c - base) m"
  defines "m2 \<equiv> cdt_insert_child ut dst (m1(dst := (m1 dst)\<lparr>cap := \<lparr>kind = k, rights = retype_rights ty r\<rparr>\<rparr>))"
  defines "cb \<equiv> \<lparr>kind = Channel (ObjId (carve_start c)) EndB, rights = RIGHTS_ALL\<rparr>"
  defines "m3 \<equiv> (if ty = ObjChannel
     then cdt_insert_child ut (the dst2) (m2(the dst2 := (m2 (the dst2))\<lparr>cap := cb\<rparr>)) else m2)"
  shows "cdt_wf m3" and "confined m3" and "desc m3 ut dst"
    and "slot_cap m3 = (let M = (slot_cap m)
        (ut \<mapsto> \<lparr>kind = Untyped base sz (carve_end c - base), rights = r\<rparr>,
         dst \<mapsto> \<lparr>kind = k, rights = retype_rights ty r\<rparr>)
      in if ty = ObjChannel then M(the dst2 \<mapsto> cb) else M)"
proof -
  note w = carve_watermark [OF c] and oi = object_init_kind [OF sz c k]
  have w': "uint base + uint w \<le> uint (carve_start c)" "uint (carve_end c) \<le> uint base + uint sz"
    "uint base + uint (carve_end c - base) = uint (carve_end c)"
    using w by (simp_all add: uint_unat_le)
  let ?c = "\<lparr>kind = k, rights = retype_rights ty r\<rparr>"
  have nc: "\<not> cap_is_empty ?c" using oi(1) by (simp add: cap_is_empty_iff)
  have sp: "span (kind ?c) \<subseteq> {uint (carve_start c) ..< uint (carve_end c)}" using oi(2) by simp
  have ph: "has_rights (rights ?c) PHYS \<longrightarrow> has_rights (rights (cap (m ut))) PHYS"
    using retype_rights_phys [of ty r] by (simp add: r_def)
  note i2 = install_carved [OF wf conf u dst nc sp w'(1) w(2) w'(2,3) ph, folded m1_def, folded m2_def]
  have "cdt_wf m3 \<and> confined m3 \<and> desc m3 ut dst \<and> slot_cap m3 = (let M = (slot_cap m)
        (ut \<mapsto> \<lparr>kind = Untyped base sz (carve_end c - base), rights = r\<rparr>, dst \<mapsto> ?c)
      in if ty = ObjChannel then M(the dst2 \<mapsto> cb) else M)"
  proof (cases "ty = ObjChannel")
    case False
    then show ?thesis using i2(1-4) by (simp add: m3_def r_def)
  next
    case True
    then obtain d2 where d2: "dst2 = Some d2" "d2 \<noteq> dst" "empty_slot m d2" using dst2 by blast
    have ne: "ut \<noteq> dst" "ut \<noteq> d2" using u dst d2 by (auto simp: cap_is_empty_iff)
    have sc: "slot_cap m2 d2 = None" "slot_cap m2 ut = Some \<lparr>kind = Untyped base sz (carve_end c - base), rights = r\<rparr>"
      "slot_cap m2 dst = Some ?c"
      using d2 ne unfolding i2(3) by (simp_all add: r_def)
    then have e: "\<not> empty_slot m2 ut" "empty_slot m2 d2" "\<not> cap_is_empty cb" and
      cu: "cap (m2 ut) = \<lparr>kind = Untyped base sz (carve_end c - base), rights = r\<rparr>" "cap (m2 dst) = ?c"
      by (auto simp: slot_cap_def cb_def cap_is_empty_iff split: if_splits)
    have kc: "span (kind ?c) = span (kind cb)" "\<not> is_untyped k"
      using oi(3,4) True by (auto simp: cb_def)
    have "uint base \<le> uint (carve_start c)" using w'(1) uint_ge_0 [of w] by linarith
    then have "auth_le cb (cap (m2 ut))"
      using oi(5) [of EndB] w' unfolding cu
      by (auto simp: auth_le_def cb_def has_rights_PHYS RIGHTS_ALL_def)
    then have "confined (cdt_insert_child ut d2 (m2(d2 := (m2 d2)\<lparr>cap := cb\<rparr>)))"
    proof (rule install_child_confined [OF i2(1) e i2(2)])
      fix j assume j: "\<not> empty_slot m2 j" "overlap (cap (m2 j)) cb"
      show "is_untyped (kind (cap (m2 j))) \<and> (j = ut \<or> desc m2 j ut) \<or> same_memory (cap (m2 j)) cb"
      proof (cases "j = dst")
        case True
        then show ?thesis using kc by (simp add: cu same_memory_def) (simp add: cb_def)
      next
        case False
        then show ?thesis using i2(5) [OF j(1) _ False] j(2) kc by (auto simp: overlap_def)
      qed
    qed
    then show ?thesis
      using install_child(1-3) [OF i2(1) e] i2(3,4) True d2 by (simp add: m3_def r_def)
  qed
  then show "cdt_wf m3" "confined m3" "desc m3 ut dst" "slot_cap m3 = (let M = (slot_cap m)
        (ut \<mapsto> \<lparr>kind = Untyped base sz (carve_end c - base), rights = r\<rparr>, dst \<mapsto> ?c)
      in if ty = ObjChannel then M(the dst2 \<mapsto> cb) else M)"
    by blast+
qed

lemma retype_ok:
  assumes "kinv s" and "confined (slots s)" and "sizes_ok z"
    and fr: "\<forall>base sz w c. kind (cap (slots s ut)) = Untyped base sz w \<longrightarrow>
      carve z base sz w ty param = Inr c \<longrightarrow> fresh z ty param (ObjId (carve_start c)) s"
  shows "case retype z cur ut ty param dst dst2 s of
    (Inl e, s') \<Rightarrow> s' = s
  | (Inr _, s') \<Rightarrow> kinv s' \<and> confined (slots s') \<and> desc (slots s') ut dst \<and>
      (\<exists>base sz w r c k. slot_cap (slots s) ut = Some \<lparr>kind = Untyped base sz w, rights = r\<rparr> \<and>
         carve z base sz w ty param = Inr c \<and>
         span k \<subseteq> {uint (carve_start c) ..< uint (carve_end c)} \<and>
         (has_rights (retype_rights ty r) PHYS \<longrightarrow> has_rights r PHYS) \<and>
         slot_cap (slots s') = (let M = (slot_cap (slots s))
             (ut \<mapsto> \<lparr>kind = Untyped base sz (carve_end c - base), rights = r\<rparr>,
              dst \<mapsto> \<lparr>kind = k, rights = retype_rights ty r\<rparr>)
           in if ty = ObjChannel
              then M(the dst2 \<mapsto> \<lparr>kind = Channel (ObjId (carve_start c)) EndB, rights = RIGHTS_ALL\<rparr>) else M))"
proof (cases "retype_check ut ty dst dst2 s")
  case (Inl e)
  then show ?thesis by (simp add: retype_def)
next
  case (Inr b)
  obtain base sz w where b: "b = (base, sz, w)" by (cases b)
  note chk = retype_check_Inr [OF Inr [unfolded b]]
  show ?thesis
  proof (cases "carve z base sz w ty param")
    case (Inl e)
    then show ?thesis by (simp add: retype_def Inr b)
  next
    case c: (Inr c)
    obtain k s1 where k: "object_init z cur ty param c s = (k, s1)" by force
    have fresh: "fresh z ty param (ObjId (carve_start c)) s" using fr chk(1) c by blast
    note ini = object_init_ok [OF assms(1) fresh k]
    have emp: "\<forall>j\<in>set (embedded z ty param (ObjId (carve_start c))). empty_slot (slots s) j"
      using fresh by (auto simp: fresh_def list_all_iff)
    note cl = clear_empty [OF kinvD(1) [OF assms(1)] emp, folded ini(2)]
    have ut: "cap (slots s1 ut) = cap (slots s ut)"
      using emp chk(1) by (auto simp: ini(2) cap_is_empty_iff)
    have e1: "empty_slot (slots s1) j = empty_slot (slots s) j" for j using emp by (auto simp: ini(2))
    have u1: "kind (cap (slots s1 ut)) = Untyped base sz w" using chk(1) ut by simp
    have d1: "empty_slot (slots s1) dst"
      "ty = ObjChannel \<longrightarrow> (\<exists>d2. dst2 = Some d2 \<and> d2 \<noteq> dst \<and> empty_slot (slots s1) d2)"
      using chk(2,3) unfolding e1 by blast+
    have nd: "ut \<noteq> dst" using chk(1,2) by (auto simp: cap_is_empty_iff)
    note oi = object_init_kind [OF assms(3) c k]
    note rs = retype_slots_ok [OF cl(1) cl(4) [OF assms(2)] u1 assms(3) c k d1, unfolded ut cl(3)]
    have sl: "slots (retype_install ut ty k (carve_end c) dst dst2 s1) = (let r = rights (cap (slots s ut));
        m = with_watermark ut (carve_end c - base) (slots s1);
        m = cdt_insert_child ut dst (m(dst := (m dst)\<lparr>cap := \<lparr>kind = k, rights = retype_rights ty r\<rparr>\<rparr>))
      in if ty = ObjChannel then cdt_insert_child ut (the dst2) (m(the dst2 := (m (the dst2))\<lparr>cap :=
          \<lparr>kind = Channel (ObjId (carve_start c)) EndB, rights = RIGHTS_ALL\<rparr>\<rparr>)) else m)"
      using oi(3,4) d1(2) unfolding retype_install_slots [OF u1 nd] ut Let_def
      by (auto split: cap_kind.split option.split)
    let ?s' = "retype_install ut ty k (carve_end c) dst dst2 s1"
    have "kinv ?s'" by (rule kinv_slots_frame [OF ini(1)]) (use rs(1) in \<open>simp_all add: sl Let_def\<close>)
    moreover have "slot_cap (slots s) ut = Some \<lparr>kind = Untyped base sz w, rights = rights (cap (slots s ut))\<rparr>"
      using chk(1) by (simp add: slot_cap_def cap_is_empty_iff)
    moreover have "retype z cur ut ty param dst dst2 s = (Inr (), ?s')"
      by (simp add: retype_def Inr b c k)
    ultimately show ?thesis
      using rs(2-4) oi(2) retype_rights_phys c by (auto simp: sl Let_def)
  qed
qed


section \<open>Reset and top-up\<close>

lemma kind_update: "c\<lparr>kind := k\<rparr> = \<lparr>kind = k, rights = rights c\<rparr>" for c :: capability
  by (cases c) simp

lemma reset_eq:
  "reset ut s =
     (if is_untyped (kind (cap (slots s ut)))
      then if first_child (slots s ut) \<noteq> None then (Inl BadArg, s)
           else (Inr (), s\<lparr>slots := with_watermark ut 0 (slots s)\<rparr>)
      else (Inl NotUntyped, s))"
  by (auto simp: reset_def with_watermark_def set_slot_def Let_def kind_update split: cap_kind.split)

lemma reset_ok:
  assumes "kinv s" and "reset ut s = (r, s')"
  shows "kinv s'" and "confined (slots s) \<Longrightarrow> confined (slots s')"
    and "r = Inr () \<Longrightarrow> \<not> desc (slots s) ut j"
proof -
  have "kinv s' \<and> (confined (slots s) \<longrightarrow> confined (slots s')) \<and> (r = Inr () \<longrightarrow> \<not> desc (slots s) ut j)"
  proof (cases "is_untyped (kind (cap (slots s ut))) \<and> first_child (slots s ut) = None")
    case True
    then obtain base sz w where u: "kind (cap (slots s ut)) = Untyped base sz w"
      by (cases "kind (cap (slots s ut))") auto
    have s': "s' = s\<lparr>slots := with_watermark ut 0 (slots s)\<rparr>" using assms(2) True by (simp add: reset_eq)
    note w = with_watermark_ok [OF kinvD(1) [OF assms(1)] u, of 0]
    have "kinv s'" by (rule kinv_slots_frame [OF assms(1)]) (simp_all add: s' w(1))
    then show ?thesis using w(4) True childless_no_desc [OF kinvD(1) [OF assms(1)]] by (simp add: s')
  next
    case False
    then show ?thesis using assms by (auto simp: reset_eq split: if_splits)
  qed
  then show "kinv s'" "confined (slots s) \<Longrightarrow> confined (slots s')" "r = Inr () \<Longrightarrow> \<not> desc (slots s) ut j"
    by auto
qed

text \<open>
  C11: Memory comes back. Revoking an untyped region and then resetting it, with the
  capability surviving, always succeeds: the watermark is zero again, everything derived
  from the region is gone, and nothing but the regions it was cut from overlaps it.
\<close>

theorem revoke_reset_reclaims:
  assumes "kinv s" and "confined (slots s)" and "slot_cap (slots s) ut = Some \<lparr>kind = Untyped base sz w, rights = r\<rparr>"
  shows "\<exists>s1. revoke ut s = Some s1 \<and>
    (slot_cap (slots s1) ut = None \<or>
     (\<exists>s2. reset ut s1 = (Inr (), s2) \<and> kinv s2 \<and> confined (slots s2) \<and>
        slot_cap (slots s2) ut = Some \<lparr>kind = Untyped base sz 0, rights = r\<rparr> \<and>
        (\<forall>j. desc (slots s) ut j \<longrightarrow> slot_cap (slots s2) j = None) \<and>
        (\<forall>j c. slot_cap (slots s2) j = Some c \<longrightarrow> span (kind c) \<inter> {uint base ..< uint base + uint sz} \<noteq> {} \<longrightarrow>
           j = ut \<or> is_untyped (kind c) \<and> desc (slots s2) j ut)))"
proof -
  obtain s1 where s1: "revoke ut s = Some s1" "shrunk s s1" "first_child (slots s1 ut) = None" "confined (slots s1)"
    using conf.revoke [OF assms(1,2)] by blast
  note inv1 = shrunk_kinv [OF s1(2)] and gone = shrunk_childless_desc [OF s1(2,3)]
  show ?thesis
  proof (cases "slot_cap (slots s1) ut = None")
    case False
    then have cap1: "slot_cap (slots s1) ut = Some \<lparr>kind = Untyped base sz w, rights = r\<rparr>"
      using shrunk_slot_cap [OF s1(2), of ut] assms(3) by auto
    then have u: "kind (cap (slots s1 ut)) = Untyped base sz w" "rights (cap (slots s1 ut)) = r"
      by (auto simp: slot_cap_def split: if_splits)
    define s2 where "s2 = s1\<lparr>slots := with_watermark ut 0 (slots s1)\<rparr>"
    have r: "reset ut s1 = (Inr (), s2)" using u s1(3) by (simp add: reset_eq s2_def)
    note w = with_watermark_ok [OF kinvD(1) [OF inv1] u(1), of 0]
    have sc: "slot_cap (slots s2) = (slot_cap (slots s1))(ut \<mapsto> \<lparr>kind = Untyped base sz 0, rights = r\<rparr>)"
      using w(3) u(2) by (simp add: s2_def)
    have c2: "confined (slots s2)" using reset_ok(2) [OF inv1 r s1(4)] .
    have old: "slot_cap (slots s2) j = None" if "desc (slots s) ut j" for j
    proof -
      have "j \<noteq> ut" using that desc_irrefl [OF kinvD(1) [OF assms(1)]] by blast
      moreover have "slot_cap (slots s1) j = None" using gone [OF _ that] False by simp
      ultimately show ?thesis unfolding sc by simp
    qed
    have only: "j = ut \<or> is_untyped (kind c) \<and> desc (slots s2) j ut"
      if j: "slot_cap (slots s2) j = Some c" "span (kind c) \<inter> {uint base ..< uint base + uint sz} \<noteq> {}" for j c
    proof (cases "j = ut")
      case nj: False
      have ne: "\<not> empty_slot (slots s2) j" "cap (slots s2 j) = c" "\<not> empty_slot (slots s2) ut"
        "cap (slots s2 ut) = \<lparr>kind = Untyped base sz 0, rights = r\<rparr>"
        using j(1) fun_cong [OF sc, of ut] by (auto simp: slot_cap_def split: if_splits)
      have "\<not> desc (slots s2) ut j"
        using childless_no_desc [OF kinvD(1) [OF inv1] s1(3)] w(2) by (simp add: s2_def)
      then show ?thesis
        using mem_disjointD [of "slots s2" j ut] c2 nj ne j(2)
        by (auto simp: confined_def overlap_def same_memory_def)
    qed simp
    have "slot_cap (slots s2) ut = Some \<lparr>kind = Untyped base sz 0, rights = r\<rparr>" by (simp add: sc)
    then show ?thesis using s1(1) r reset_ok(1) [OF inv1 r] c2 old only by blast
  qed (use s1(1) in blast)
qed

text \<open>A top-up takes pages that abut the pool, and only those.\<close>

lemma topup_carve_Inr:
  assumes "topup_carve base sz w pool_end pages = Inr c" and "4096 dvd unat pool_end"
  shows "carve_start c = pool_end" and "unat (carve_end c) = unat pool_end + unat pages * 4096"
    and "unat base + unat w = unat pool_end" and "unat (carve_end c) \<le> unat base + unat sz"
proof -
  obtain n where n: "checked_mul pages PAGE = Some n" "carve_place base sz w PAGE n = Inr c"
    and p: "checked_add base w = Some pool_end"
    using assms(1) by (auto simp: topup_carve_def split: if_splits option.splits)
  show e: "unat base + unat w = unat pool_end" using unat_checked_add [OF p] by simp
  have "PAGE \<noteq> 0" by (simp add: PAGE_def)
  note r = carve_place_Inr [OF this n(2)]
  show s: "carve_start c = pool_end"
    using r(1) r(6) [of "unat pool_end"] assms(2) e by (simp add: word_unat_eq_iff PAGE_def)
  show "unat (carve_end c) = unat pool_end + unat pages * 4096" "unat (carve_end c) \<le> unat base + unat sz"
    using r(2,3) unat_checked_mul [OF n(1)] by (simp_all add: s PAGE_def)
qed

text \<open>A page walk sees the same tables in the grown pool.\<close>

lemma pool_index_grow:
  assumes "pool_index b n d = Some i" and "n \<le> n'" and "n' < 2 ^ 64"
  shows "pool_index b n' d = Some i" and "i < n"
proof -
  have n: "unat (of_nat n :: u64) = n" "unat (of_nat n' :: u64) = n'"
    using assms(2,3) by (simp_all add: unat_of_nat_small)
  show "i < n" "pool_index b n' d = Some i"
    using assms(1,2) n by (auto simp: pool_index_def Let_def word_le_nat_alt split: if_splits)
qed

lemma lookup_pt_grow:
  assumes "lookup_pt a va = Some (l3, e)" and "length (asp_pool a) + unat add < 2 ^ 64"
  shows "lookup_pt (grow_pool add a) va = Some (l3, e)" and "l3 < length (asp_pool a)"
    and "(asp_pool (grow_pool add a) ! l3) e = (asp_pool a ! l3) e"
proof -
  let ?n = "length (asp_pool a)" and ?b = "asp_pool_base a"
  let ?l1e = "asp_l1_tab a (l1_index va)"
  obtain l2 where l2: "?l1e AND DESC_TABLE = DESC_TABLE" "pool_index ?b ?n ?l1e = Some l2"
    using assms(1) by (auto simp: lookup_pt_def Let_def split: if_splits option.splits)
  let ?l2e = "(asp_pool a ! l2) (l2_index va)"
  have l3: "?l2e AND DESC_TABLE = DESC_TABLE" "pool_index ?b ?n ?l2e = Some l3" "e = l3_index va"
    using assms(1) l2 by (auto simp: lookup_pt_def Let_def split: if_splits option.splits)
  have len: "length (asp_pool (grow_pool add a)) = ?n + unat add" by (simp add: grow_pool_def)
  note g2 = pool_index_grow [OF l2(2) le_add1 assms(2)] and g3 = pool_index_grow [OF l3(2) le_add1 assms(2)]
  show "l3 < ?n" by (rule g3(2))
  have "asp_pool (grow_pool add a) ! l2 = asp_pool a ! l2" using g2(2) by (simp add: grow_pool_def nth_append)
  then show "lookup_pt (grow_pool add a) va = Some (l3, e)"
    using l2(1) l3(1,3) g2(1) g3(1) len by (simp add: lookup_pt_def Let_def) (simp add: grow_pool_def)
  show "(asp_pool (grow_pool add a) ! l3) e = (asp_pool a ! l3) e"
    using g3(2) by (simp add: grow_pool_def nth_append)
qed

lemma aspace_topup_ok:
  fixes asp s
  defines "a \<equiv> aspaces s asp"
  defines "pool_end \<equiv> asp_pool_base a + of_nat (length (asp_pool a)) * PAGE"
  assumes "kinv s" and "confined (slots s)" and al: "4096 dvd unat pool_end"
    and len: "length (asp_pool a) + unat pages < 2 ^ 64"
  shows "case aspace_topup ut asp pages s of
    (Inl e, s') \<Rightarrow> s' = s
  | (Inr _, s') \<Rightarrow> kinv s' \<and> confined (slots s') \<and>
      (\<exists>base sz w r end'. slot_cap (slots s) ut = Some \<lparr>kind = Untyped base sz w, rights = r\<rparr> \<and>
        unat end' = unat pool_end + unat pages * 4096 \<and> unat end' \<le> unat base + unat sz \<and>
        slot_cap (slots s') = (slot_cap (slots s))(ut \<mapsto> \<lparr>kind = Untyped base sz (end' - base), rights = r\<rparr>)) \<and>
      length (asp_pool (aspaces s' asp)) = length (asp_pool a) + unat pages \<and>
      (\<forall>va l3 e. lookup_pt a va = Some (l3, e) \<longrightarrow>
         lookup_pt (aspaces s' asp) va = Some (l3, e) \<and> (asp_pool (aspaces s' asp) ! l3) e = (asp_pool a ! l3) e)"
proof (cases "kind (cap (slots s ut))")
  case (Untyped base sz w)
  show ?thesis
  proof (cases "topup_carve base sz w pool_end pages")
    case (Inl e)
    then show ?thesis by (simp add: aspace_topup_def Untyped Let_def pool_end_def a_def)
  next
    case (Inr c)
    note t = topup_carve_Inr [OF Inr al]
    let ?m = "with_watermark ut (carve_end c - base) (slots s)"
    let ?s = "s\<lparr>slots := ?m, aspaces := (aspaces s)(asp := grow_pool pages a)\<rparr>"
    have "aspace_topup ut asp pages s = (Inr (), ?s)"
      using Inr by (simp add: aspace_topup_def Untyped Let_def pool_end_def a_def with_watermark_def set_slot_def)
    moreover have "kinv ?s"
      by (rule kinv_slots_frame [OF assms(3)])
         (simp_all add: with_watermark_ok(1) [OF kinvD(1) [OF assms(3)] Untyped])
    moreover have "w \<le> carve_end c - base"
    proof -
      have "base \<le> carve_end c" using t by (simp add: word_le_nat_alt)
      then show ?thesis using t by (simp add: word_le_nat_alt unat_sub)
    qed
    then have "confined ?m" using with_watermark_ok(4) [OF kinvD(1) [OF assms(3)] Untyped assms(4)] by blast
    moreover have "slot_cap (slots s) ut = Some \<lparr>kind = Untyped base sz w, rights = rights (cap (slots s ut))\<rparr>"
      using Untyped by (simp add: slot_cap_def cap_is_empty_iff)
    ultimately show ?thesis
      using t(2,4) with_watermark_ok(3) [OF kinvD(1) [OF assms(3)] Untyped] lookup_pt_grow [of a, OF _ len]
      by (auto simp: grow_pool_def a_def)
  qed
qed (simp_all add: aspace_topup_def)

text \<open>
  C16: A top-up of an address space either fails and changes nothing, or takes exactly the
  requested pages directly above the page-aligned pool out of the donated region; it
  keeps the kernel invariant and the confinement of memory, and every translation of the
  address space stays as it was.
\<close>

theorem aspace_topup_sound:
  fixes asp s
  defines "a \<equiv> aspaces s asp"
  defines "pool_end \<equiv> asp_pool_base a + of_nat (length (asp_pool a)) * PAGE"
  assumes "kinv s" and "confined (slots s)" and al: "4096 dvd unat pool_end"
    and len: "length (asp_pool a) + unat pages < 2 ^ 64"
  shows "case aspace_topup ut asp pages s of
    (Inl e, s') \<Rightarrow> s' = s
  | (Inr _, s') \<Rightarrow> kinv s' \<and> confined (slots s') \<and>
      (\<exists>base sz w r end'. slot_cap (slots s) ut = Some \<lparr>kind = Untyped base sz w, rights = r\<rparr> \<and>
        unat end' = unat pool_end + unat pages * 4096 \<and> unat end' \<le> unat base + unat sz \<and>
        slot_cap (slots s') = (slot_cap (slots s))(ut \<mapsto> \<lparr>kind = Untyped base sz (end' - base), rights = r\<rparr>)) \<and>
      length (asp_pool (aspaces s' asp)) = length (asp_pool a) + unat pages \<and>
      (\<forall>va l3 e. lookup_pt a va = Some (l3, e) \<longrightarrow>
         lookup_pt (aspaces s' asp) va = Some (l3, e) \<and> (asp_pool (aspaces s' asp) ! l3) e = (asp_pool a ! l3) e)"
  unfolding a_def pool_end_def
  by (rule aspace_topup_ok [OF assms(3,4) al [unfolded pool_end_def a_def] len [unfolded a_def]])

section \<open>What reset does not see\<close>

lemma delete_shared_notif:
  assumes "kinv s" and "kind (cap (slots s k)) = Notification n" and "refs s n \<noteq> 1"
  shows "\<exists>m. delete k s = Some (set_obj_refs n (refs s n - 1) (s\<lparr>slots := m\<rparr>)) \<and>
    cdt_wf m \<and> shrinks (slots s) m \<and> empty_slot m k \<and> (\<forall>j. j \<noteq> k \<longrightarrow> cap (m j) = cap (slots s j))"
proof -
  obtain m where m: "cdt_unlink k (slots s) = Some m" "cdt_wf (m(k := slot_empty))"
    "shrinks (slots s) (m(k := slot_empty))" "\<forall>j. j \<noteq> k \<longrightarrow> cap (m j) = cap (slots s j)"
    using cdt_delete_slot [OF kinvD(1) [OF assms(1)], of k] by blast
  have "delete k s = Some (set_obj_refs n (refs s n - 1) (s\<lparr>slots := m(k := slot_empty)\<rparr>))"
    using assms(2,3) m(1) by (subst delete.simps)
      (simp add: delete_with_def delete_prepare_def delete_hooks_def obj_unref_def dec_ref_def Let_def
        set_obj_refs_def)
  then show ?thesis using m by auto
qed

text \<open>
  Reset consults the derivation tree only. A notification that an armed timer still
  references outlives its last capability; with the capability gone the region it lives in
  resets, and the timer stays armed on an object in memory that the next retype hands out.
\<close>

theorem reset_ignores_kernel_references:
  assumes "kinv s" and "slot_cap (slots s) ut = Some \<lparr>kind = Untyped base sz w, rights = r\<rparr>"
    and "slot_cap (slots s) k = Some \<lparr>kind = Notification n, rights = r'\<rparr>"
    and "\<forall>j. desc (slots s) ut j \<longrightarrow> j = k"
    and "timer_armed (timers s t)" and "timer_notif (timers s t) = Some n" and "refs s n = 2"
  shows "\<exists>s1 s2. delete k s = Some s1 \<and> reset ut s1 = (Inr (), s2) \<and> kinv s2 \<and>
    slot_cap (slots s2) ut = Some \<lparr>kind = Untyped base sz 0, rights = r\<rparr> \<and>
    timer_armed (timers s2 t) \<and> timer_notif (timers s2 t) = Some n \<and> refs s2 n = 1"
proof -
  have k: "kind (cap (slots s k)) = Notification n" and u: "cap (slots s ut) = \<lparr>kind = Untyped base sz w, rights = r\<rparr>"
    using assms(2,3) by (auto simp: slot_cap_def split: if_splits)
  have ne: "ut \<noteq> k" using k u by auto
  obtain m where m: "delete k s = Some (set_obj_refs n (refs s n - 1) (s\<lparr>slots := m\<rparr>))" "cdt_wf m"
    "shrinks (slots s) m" "empty_slot m k" "\<forall>j. j \<noteq> k \<longrightarrow> cap (m j) = cap (slots s j)"
    using delete_shared_notif [OF assms(1) k] assms(7) by auto
  let ?s1 = "set_obj_refs n 1 (s\<lparr>slots := m\<rparr>)"
  have inv: "kinv ?s1" by (rule kinv_slots_frame [OF assms(1)]) (simp_all add: m(2) set_obj_refs_def)
  have um: "cap (m ut) = \<lparr>kind = Untyped base sz w, rights = r\<rparr>" using m(5) ne u by simp
  have "first_child (m ut) = None"
  proof (rule ccontr)
    assume "first_child (m ut) \<noteq> None"
    then obtain f where f: "desc m ut f" using first_child_desc [OF m(2)] by blast
    then have "\<not> empty_slot m ut" "\<not> empty_slot m f" using desc_nonempty [OF m(2)] by auto
    then show False using m(3,4) f assms(4) unfolding shrinks_def by blast
  qed
  then have r: "reset ut ?s1 = (Inr (), ?s1\<lparr>slots := with_watermark ut 0 m\<rparr>)"
    using um by (simp add: reset_eq set_obj_refs_def)
  show ?thesis
    using m(1) r reset_ok(1) [OF inv r] assms(5-7) with_watermark_ok(3) [of m ut base sz w 0, OF m(2)] um
    by (auto simp: set_obj_refs_def)
qed

end
