(* ===== verification/Chanrings.thy ===== *)
theory Chanrings
  imports Authority Fifo
begin

text \<open>
  What the channel operations promise. A ring is read as the list of its messages from the
  oldest to the newest (\<open>ring_msgs\<close>): the bytes, and what its four capability slots hold.
  \<open>send\<close> appends a message and takes the sent capabilities out of the sender's slots, \<open>recv\<close>
  takes the first message and puts its capabilities into the receiver's slots; every refused
  call leaves the store as it was. Capabilities move with their place in the derivation
  tree, so a revocation reaches them in flight.
\<close>

section \<open>Moving the capabilities of a message\<close>

text \<open>Taking capabilities out of a list of slots, one after the other.\<close>

fun take_caps :: "(slot_id \<Rightarrow> capability option) \<Rightarrow> slot_id option list \<Rightarrow>
    capability option list \<times> (slot_id \<Rightarrow> capability option)" where
  "take_caps M [] = ([], M)"
| "take_caps M (None # caps) = (let (cs, M') = take_caps M caps in (None # cs, M'))"
| "take_caps M (Some src # caps) = (let (cs, M') = take_caps (M(src := None)) caps in (M src # cs, M'))"

lemma take_caps_length [simp]: "length (fst (take_caps M caps)) = length caps"
proof (induction caps arbitrary: M)
  case (Cons o' caps)
  then show ?case by (cases o') (simp_all add: case_prod_unfold Let_def)
qed simp

lemma take_caps_other: "Some k \<notin> set caps \<Longrightarrow> snd (take_caps M caps) k = M k"
proof (induction caps arbitrary: M)
  case (Cons o' caps)
  then show ?case by (cases o') (auto simp: case_prod_unfold Let_def)
qed simp

lemma take_caps_cong:
  assumes "\<And>k. Some k \<in> set caps \<Longrightarrow> M k = N k"
  shows "fst (take_caps M caps) = fst (take_caps N caps)"
    and "M k = N k \<Longrightarrow> snd (take_caps M caps) k = snd (take_caps N caps) k"
proof -
  have "fst (take_caps M caps) = fst (take_caps N caps) \<and>
      (\<forall>k. M k = N k \<longrightarrow> snd (take_caps M caps) k = snd (take_caps N caps) k)"
    using assms
  proof (induction caps arbitrary: M N)
    case (Cons o' caps)
    show ?case
    proof (cases o')
      case None
      then show ?thesis using Cons.IH [of M N] Cons.prems by (simp add: case_prod_unfold Let_def)
    next
      case (Some src)
      define M' N' where M': "M' = M(src := None)" and N': "N' = N(src := None)"
      have p: "M' k = N' k" if "Some k \<in> set caps" for k using Cons.prems that by (simp add: M' N')
      have "M' k = N' k" if "M k = N k" for k using that by (simp add: M' N')
      then show ?thesis
        using Cons.IH [of M' N', OF p] Cons.prems [of src] Some
        by (simp add: case_prod_unfold Let_def flip: M' N')
    qed
  qed simp
  then show "fst (take_caps M caps) = fst (take_caps N caps)"
    "M k = N k \<Longrightarrow> snd (take_caps M caps) k = snd (take_caps N caps) k" by blast+
qed

lemma recv_check_cong:
  assumes "chans s' = chans s"
    and "\<And>j. c \<le> j \<Longrightarrow> j < c + length dests \<Longrightarrow>
      empty_slot (slots s') (chan_ring_cap (chans s ch) ring hd' j) =
      empty_slot (slots s) (chan_ring_cap (chans s ch) ring hd' j)"
    and "\<And>k. Some k \<in> set dests \<Longrightarrow> empty_slot (slots s') k = empty_slot (slots s) k"
  shows "recv_check ch ring hd' c dests s' = recv_check ch ring hd' c dests s"
  using assms(2,3)
proof (induction dests arbitrary: c)
  case (Cons d dests)
  have "recv_check ch ring hd' (Suc c) dests s' = recv_check ch ring hd' (Suc c) dests s"
    by (rule Cons.IH) (use Cons.prems in auto)
  moreover have "empty_slot (slots s') (chan_ring_cap (chans s ch) ring hd' c) =
      empty_slot (slots s) (chan_ring_cap (chans s ch) ring hd' c)" using Cons.prems(1) [of c] by simp
  ultimately show ?case using Cons.prems(2) assms(1) by (cases d) simp_all
qed simp

lemma le_less_Suc_range:
  "c \<le> j \<and> j < c + length (d # ds) \<and> P \<longleftrightarrow> j = c \<and> P \<or> Suc c \<le> j \<and> j < Suc c + length ds \<and> P"
  by auto

context slot_invariant
begin

lemma send_caps:
  assumes "kinv s" and "I (slots s)"
    and "\<And>j. c \<le> j \<Longrightarrow> j < c + length caps \<Longrightarrow> empty_slot (slots s) (chan_ring_cap (chans s ch) ring i j)"
    and "inj_on (chan_ring_cap (chans s ch) ring i) {c ..< c + length caps}"
    and "\<And>j k. c \<le> j \<Longrightarrow> j < c + length caps \<Longrightarrow> Some k \<in> set caps \<Longrightarrow> chan_ring_cap (chans s ch) ring i j \<noteq> k"
  shows "\<exists>m. send_caps ch ring i c caps s = Some (s\<lparr>slots := m\<rparr>) \<and> kinv (s\<lparr>slots := m\<rparr>) \<and> I m \<and>
    (\<forall>j < length caps. slot_cap m (chan_ring_cap (chans s ch) ring i (c + j)) =
       fst (take_caps (slot_cap (slots s)) caps) ! j) \<and>
    (\<forall>k. k \<notin> chan_ring_cap (chans s ch) ring i ` {c ..< c + length caps} \<longrightarrow>
       slot_cap m k = snd (take_caps (slot_cap (slots s)) caps) k)"
  using assms
proof (induction caps arbitrary: c s)
  case Nil
  have "s = s\<lparr>slots := slots s\<rparr>" by simp
  then show ?case using Nil.prems(1,2) by (intro exI [of _ "slots s"]) auto
next
  case (Cons o' caps)
  let ?R = "chan_ring_cap (chans s ch) ring i"
  have range: "?R ` {c ..< c + length (o' # caps)} = insert (?R c) (?R ` {Suc c ..< Suc c + length caps})"
  proof -
    have "{c ..< c + length (o' # caps)} = insert c {Suc c ..< Suc c + length caps}" by auto
    then show ?thesis by simp
  qed
  have out: "?R c \<notin> ?R ` {Suc c ..< Suc c + length caps}"
  proof
    assume "?R c \<in> ?R ` {Suc c ..< Suc c + length caps}"
    then obtain x where "?R c = ?R x" "x \<in> {Suc c ..< Suc c + length caps}" by blast
    then show False using inj_onD [OF Cons.prems(4), of c x] by auto
  qed
  have inj: "inj_on ?R {Suc c ..< Suc c + length caps}"
    by (rule inj_on_subset [OF Cons.prems(4)]) auto
  show ?case
  proof (cases o')
    case None
    obtain m where m: "send_caps ch ring i (Suc c) caps s = Some (s\<lparr>slots := m\<rparr>)" "kinv (s\<lparr>slots := m\<rparr>)" "I m"
      "\<forall>j < length caps. slot_cap m (?R (Suc c + j)) = fst (take_caps (slot_cap (slots s)) caps) ! j"
      "\<forall>k. k \<notin> ?R ` {Suc c ..< Suc c + length caps} \<longrightarrow> slot_cap m k = snd (take_caps (slot_cap (slots s)) caps) k"
      using Cons.IH [OF Cons.prems(1,2), of "Suc c"] Cons.prems(3,5) inj by force
    have "Some (?R c) \<notin> set caps" using Cons.prems(5) [of c] by auto
    then have "slot_cap m (?R c) = None"
      using m(5) out take_caps_other Cons.prems(3) [of c] by simp
    then have "slot_cap m (?R (c + j)) = fst (take_caps (slot_cap (slots s)) (o' # caps)) ! j"
      if "j < length (o' # caps)" for j
      using that m(4) None by (cases j) (auto simp: case_prod_unfold Let_def)
    then show ?thesis
      using m None range by (auto simp: case_prod_unfold Let_def)
  next
    case (Some src)
    have ne: "src \<noteq> ?R c" and e: "empty_slot (slots s) (?R c)" using Cons.prems(3,5) Some by force+
    obtain s1 where s1: "store_move src (?R c) s = Some s1" "kinv s1" "I (slots s1)"
      "slot_cap (slots s1) = (slot_cap (slots s))(?R c := slot_cap (slots s) src, src := None)"
      using store_move [OF Cons.prems(1,2) ne e] by blast
    have ch: "chans s1 = chans s" using store_move_frame [OF s1(1)] by simp
    have src: "src \<noteq> ?R j" if "c \<le> j" "j < c + length (o' # caps)" for j
      using Cons.prems(5) [OF that] Some by auto
    have e1: "empty_slot (slots s1) (?R j)" if j: "Suc c \<le> j" "j < Suc c + length caps" for j
    proof -
      have "?R j \<noteq> ?R c" using out j by (metis atLeastLessThan_iff imageI)
      then have "slot_cap (slots s1) (?R j) = slot_cap (slots s) (?R j)" using s1(4) src [of j] j by auto
      then show ?thesis using Cons.prems(3) [of j] j by (metis Suc_leD add_Suc_shift length_Cons slot_cap_None)
    qed
    obtain m where m: "send_caps ch ring i (Suc c) caps s1 = Some (s1\<lparr>slots := m\<rparr>)" "kinv (s1\<lparr>slots := m\<rparr>)" "I m"
      "\<forall>j < length caps. slot_cap m (?R (Suc c + j)) = fst (take_caps (slot_cap (slots s1)) caps) ! j"
      "\<forall>k. k \<notin> ?R ` {Suc c ..< Suc c + length caps} \<longrightarrow> slot_cap m k = snd (take_caps (slot_cap (slots s1)) caps) k"
      using Cons.IH [OF s1(2,3), of "Suc c"] e1 Cons.prems(5) inj unfolding ch by force
    have nc: "Some (?R c) \<notin> set caps" using Cons.prems(5) [of c] by auto
    let ?M = "(slot_cap (slots s))(src := None)"
    have eq: "slot_cap (slots s1) k = ?M k" if "Some k \<in> set caps" for k
    proof -
      have "k \<noteq> ?R c" using that nc by blast
      then show ?thesis unfolding s1(4) by simp
    qed
    have cong: "fst (take_caps (slot_cap (slots s1)) caps) = fst (take_caps ?M caps)"
      "Some k \<in> set caps \<Longrightarrow> snd (take_caps (slot_cap (slots s1)) caps) k = snd (take_caps ?M caps) k" for k
      by (rule take_caps_cong(1) [OF eq], assumption) (rule take_caps_cong(2) [OF eq eq])
    have s1m: "s1\<lparr>slots := m\<rparr> = s\<lparr>slots := m\<rparr>" using s1(1) by (auto simp: store_move_def bind_eq_Some_conv)
    have rc: "slot_cap m (?R c) = slot_cap (slots s) src"
      using m(5) out take_caps_other [OF nc] s1(4) src [of c] by auto
    have "slot_cap m (?R (c + j)) = fst (take_caps (slot_cap (slots s)) (o' # caps)) ! j"
      if "j < length (o' # caps)" for j
      using that m(4) Some rc cong(1) by (cases j) (auto simp: case_prod_unfold Let_def)
    moreover have "slot_cap m k = snd (take_caps (slot_cap (slots s)) (o' # caps)) k"
      if k: "k \<notin> ?R ` {c ..< c + length (o' # caps)}" for k
    proof (cases "Some k \<in> set caps")
      case True
      then show ?thesis using m(5) k range cong(2) Some by (auto simp: case_prod_unfold Let_def)
    next
      case False
      then have "slot_cap m k = slot_cap (slots s1) k" "snd (take_caps ?M caps) k = ?M k"
        using m(5) k range take_caps_other by auto
      then show ?thesis using k range s1(4) Some by (auto simp: case_prod_unfold Let_def)
    qed
    moreover have "send_caps ch ring i c (o' # caps) s = Some (s\<lparr>slots := m\<rparr>)"
      using Some s1(1) m(1) s1m by simp
    ultimately show ?thesis using m(2,3) s1m by auto
  qed
qed

text \<open>
  Handing the capabilities of a message out: each occupied slot of the message is moved to
  the destination at the same position. The destinations that are used must be different.
\<close>

lemma recv_caps:
  assumes "kinv s" and "I (slots s)" and "recv_check ch ring hd' c dests s"
    and "inj_on (chan_ring_cap (chans s ch) ring hd') {c ..< c + length dests}"
    and "distinct (filter (\<lambda>d. d \<noteq> None) dests)"
    and "\<forall>k. Some k \<in> set dests \<longrightarrow> k \<notin> chan_ring_cap (chans s ch) ring hd' ` {c ..< c + length dests}"
    and "c + length dests \<le> 8"
  shows "\<exists>m msk'. recv_caps ch ring hd' c dests msk s = Some (msk', s\<lparr>slots := m\<rparr>) \<and>
    kinv (s\<lparr>slots := m\<rparr>) \<and> I m \<and>
    (\<forall>j < length dests. slot_cap m (chan_ring_cap (chans s ch) ring hd' (c + j)) = None) \<and>
    (\<forall>j < length dests. \<forall>k. dests ! j = Some k \<longrightarrow> slot_cap m k =
       (case slot_cap (slots s) (chan_ring_cap (chans s ch) ring hd' (c + j)) of
          None \<Rightarrow> slot_cap (slots s) k | Some x \<Rightarrow> Some x)) \<and>
    (\<forall>k. Some k \<notin> set dests \<longrightarrow> k \<notin> chan_ring_cap (chans s ch) ring hd' ` {c ..< c + length dests} \<longrightarrow>
       slot_cap m k = slot_cap (slots s) k) \<and>
    (\<forall>j. bit msk' j \<longleftrightarrow> bit msk j \<or> c \<le> j \<and> j < c + length dests \<and>
       \<not> empty_slot (slots s) (chan_ring_cap (chans s ch) ring hd' j))"
  using assms
proof (induction dests arbitrary: c s msk)
  case Nil
  have "s = s\<lparr>slots := slots s\<rparr>" by simp
  then show ?case using Nil.prems(1,2) by (intro exI [of _ "slots s"]) auto
next
  case (Cons d dests)
  let ?R = "chan_ring_cap (chans s ch) ring hd'"
  have range: "?R ` {c ..< c + length (d # dests)} = insert (?R c) (?R ` {Suc c ..< Suc c + length dests})"
  proof -
    have "{c ..< c + length (d # dests)} = insert c {Suc c ..< Suc c + length dests}" by auto
    then show ?thesis by simp
  qed
  have out: "?R c \<noteq> ?R (Suc (c + j))" if "j < length dests" for j
    using inj_onD [OF Cons.prems(4), of c "Suc (c + j)"] that by auto
  have out': "?R c \<notin> ?R ` {Suc c ..< Suc c + length dests}"
  proof
    assume "?R c \<in> ?R ` {Suc c ..< Suc c + length dests}"
    then obtain x where "?R c = ?R x" "x \<in> {Suc c ..< Suc c + length dests}" by blast
    then show False using inj_onD [OF Cons.prems(4), of c x] by auto
  qed
  have inj: "inj_on ?R {Suc c ..< Suc c + length dests}"
    by (rule inj_on_subset [OF Cons.prems(4)]) auto
  have dist: "distinct (filter (\<lambda>d. d \<noteq> None) dests)" using Cons.prems(5) by (auto split: if_splits)
  have apart: "k \<noteq> ?R c" "k \<notin> ?R ` {Suc c ..< Suc c + length dests}" if "Some k \<in> set (d # dests)" for k
    using Cons.prems(6) that unfolding range by blast+
  have apart': "\<forall>k. Some k \<in> set dests \<longrightarrow> k \<notin> ?R ` {Suc c ..< Suc c + length dests}"
    using apart(2) by simp
  have len: "Suc c + length dests \<le> 8" using Cons.prems(7) by simp
  show ?case
  proof (cases "empty_slot (slots s) (?R c)")
    case True
    have rc0: "recv_check ch ring hd' (Suc c) dests s" using Cons.prems(3) True by simp
    obtain m msk' where m: "recv_caps ch ring hd' (Suc c) dests msk s = Some (msk', s\<lparr>slots := m\<rparr>)"
      "kinv (s\<lparr>slots := m\<rparr>)" "I m"
      "\<forall>j < length dests. slot_cap m (?R (Suc c + j)) = None"
      "\<forall>j < length dests. \<forall>k. dests ! j = Some k \<longrightarrow> slot_cap m k =
         (case slot_cap (slots s) (?R (Suc c + j)) of None \<Rightarrow> slot_cap (slots s) k | Some x \<Rightarrow> Some x)"
      "\<forall>k. Some k \<notin> set dests \<longrightarrow> k \<notin> ?R ` {Suc c ..< Suc c + length dests} \<longrightarrow> slot_cap m k = slot_cap (slots s) k"
      "\<forall>j. bit msk' j \<longleftrightarrow> bit msk j \<or> Suc c \<le> j \<and> j < Suc c + length dests \<and> \<not> empty_slot (slots s) (?R j)"
      using Cons.IH [OF Cons.prems(1,2) rc0 inj dist apart' len, of msk] by blast
    have rc: "slot_cap m (?R c) = None"
    proof -
      have "Some (?R c) \<notin> set dests" using apart(1) by auto
      then show ?thesis using m(6) out' True by simp
    qed
    have d: "slot_cap m k = slot_cap (slots s) k" if "d = Some k" for k
    proof -
      have "Some k \<notin> set dests" using Cons.prems(5) that by auto
      moreover have "k \<notin> ?R ` {Suc c ..< Suc c + length dests}" using apart(2) that by simp
      ultimately show ?thesis using m(6) by blast
    qed
    have "slot_cap m (?R (c + j)) = None" if "j < length (d # dests)" for j
      using that m(4) rc by (cases j) auto
    moreover have "slot_cap m k =
        (case slot_cap (slots s) (?R (c + j)) of None \<Rightarrow> slot_cap (slots s) k | Some x \<Rightarrow> Some x)"
      if "j < length (d # dests)" "(d # dests) ! j = Some k" for j k
      using that m(5) d True by (cases j) (auto simp: slot_cap_def)
    moreover have "bit msk' j \<longleftrightarrow> bit msk j \<or> c \<le> j \<and> j < c + length (d # dests) \<and> \<not> empty_slot (slots s) (?R j)" for j
    proof -
      have "bit msk' j \<longleftrightarrow> bit msk j \<or> Suc c \<le> j \<and> j < Suc c + length dests \<and> \<not> empty_slot (slots s) (?R j)"
        using m(7) by (rule spec)
      then show ?thesis using True unfolding le_less_Suc_range by blast
    qed
    ultimately show ?thesis
      using m(1-3,6) True range by auto
  next
    case False
    then obtain k where k: "d = Some k" "empty_slot (slots s) k" "recv_check ch ring hd' (Suc c) dests s"
      using Cons.prems(3) by (auto split: option.splits)
    have ne: "?R c \<noteq> k" using apart(1) [of k] k(1) by simp
    obtain s1 where s1: "store_move (?R c) k s = Some s1" "kinv s1" "I (slots s1)"
      "slot_cap (slots s1) = (slot_cap (slots s))(k := slot_cap (slots s) (?R c), ?R c := None)"
      using store_move [OF Cons.prems(1,2) ne k(2)] by blast
    have ch: "chans s1 = chans s" using store_move_frame [OF s1(1)] by simp
    have same: "slot_cap (slots s1) x = slot_cap (slots s) x" if "x \<noteq> k" "x \<noteq> ?R c" for x
      using that by (simp add: s1(4))
    have kd: "Some k \<notin> set dests" using Cons.prems(5) k(1) by auto
    have ring: "?R j \<noteq> k \<and> ?R j \<noteq> ?R c" if "Suc c \<le> j" "j < Suc c + length dests" for j
    proof -
      have "?R j \<in> ?R ` {Suc c ..< Suc c + length dests}" using that by simp
      then show ?thesis using out' apart(2) [of k] k(1) by auto
    qed
    have dest: "x \<noteq> k \<and> x \<noteq> ?R c" if "Some x \<in> set dests" for x
      using that kd apart(1) [of x] by auto
    have rc1: "recv_check ch ring hd' (Suc c) dests s1"
      using k(3) recv_check_cong [of s1 s "Suc c" dests ch ring hd'] ch same ring dest
      by (metis slot_cap_None)
    obtain m msk' where m: "recv_caps ch ring hd' (Suc c) dests (msk OR push_bit c 1) s1 = Some (msk', s1\<lparr>slots := m\<rparr>)"
      "kinv (s1\<lparr>slots := m\<rparr>)" "I m"
      "\<forall>j < length dests. slot_cap m (?R (Suc c + j)) = None"
      "\<forall>j < length dests. \<forall>k. dests ! j = Some k \<longrightarrow> slot_cap m k =
         (case slot_cap (slots s1) (?R (Suc c + j)) of None \<Rightarrow> slot_cap (slots s1) k | Some x \<Rightarrow> Some x)"
      "\<forall>k. Some k \<notin> set dests \<longrightarrow> k \<notin> ?R ` {Suc c ..< Suc c + length dests} \<longrightarrow> slot_cap m k = slot_cap (slots s1) k"
      "\<forall>j. bit msk' j \<longleftrightarrow> bit (msk OR push_bit c 1) j \<or>
         Suc c \<le> j \<and> j < Suc c + length dests \<and> \<not> empty_slot (slots s1) (?R j)"
      using Cons.IH [OF s1(2,3) rc1 _ dist _ len, of "msk OR push_bit c 1"] inj apart' unfolding ch by blast
    have s1m: "s1\<lparr>slots := m\<rparr> = s\<lparr>slots := m\<rparr>" using s1(1) by (auto simp: store_move_def bind_eq_Some_conv)
    have run: "recv_caps ch ring hd' c (d # dests) msk s = Some (msk', s\<lparr>slots := m\<rparr>)"
      using False k(1) s1(1) m(1) s1m by (simp add: Let_def)
    have rc: "slot_cap m (?R c) = None"
    proof -
      have "Some (?R c) \<notin> set dests" using dest by blast
      then show ?thesis using m(6) out' s1(4) by simp
    qed
    have mk: "slot_cap m k = slot_cap (slots s) (?R c)"
      using m(6) kd apart(2) [of k] k(1) s1(4) ne by simp
    have "slot_cap m (?R (c + j)) = None" if "j < length (d # dests)" for j
      using that m(4) rc by (cases j) auto
    moreover have "slot_cap m x =
        (case slot_cap (slots s) (?R (c + j)) of None \<Rightarrow> slot_cap (slots s) x | Some y \<Rightarrow> Some y)"
      if j: "j < length (d # dests)" "(d # dests) ! j = Some x" for j x
    proof (cases j)
      case 0
      then show ?thesis using j(2) k(1) mk False by (auto simp: slot_cap_def split: option.split)
    next
      case (Suc i)
      then have i: "i < length dests" "dests ! i = Some x" using j by auto
      then have "Some x \<in> set dests" by (metis nth_mem)
      then have "slot_cap (slots s1) x = slot_cap (slots s) x" using same dest by blast
      moreover have "slot_cap (slots s1) (?R (Suc c + i)) = slot_cap (slots s) (?R (Suc c + i))"
        using same ring [of "Suc c + i"] i(1) by simp
      ultimately show ?thesis using m(5) i Suc by (simp del: slot_cap_None split: option.split)
    qed
    moreover have "slot_cap m x = slot_cap (slots s) x"
      if "Some x \<notin> set (d # dests)" "x \<notin> ?R ` {c ..< c + length (d # dests)}" for x
      using that m(6) k(1) same unfolding range by simp
    moreover have "bit msk' j \<longleftrightarrow> bit msk j \<or> c \<le> j \<and> j < c + length (d # dests) \<and> \<not> empty_slot (slots s) (?R j)" for j
    proof -
      have "empty_slot (slots s1) (?R j) = empty_slot (slots s) (?R j)" if "Suc c \<le> j" "j < Suc c + length dests"
        using same [of "?R j"] ring [OF that] by (metis slot_cap_None)
      moreover have "bit (msk OR push_bit c 1) j \<longleftrightarrow> bit msk j \<or> j = c"
        using Cons.prems(7) by (auto simp: bit_simps)
      moreover have "bit msk' j \<longleftrightarrow> bit (msk OR push_bit c 1) j \<or>
         Suc c \<le> j \<and> j < Suc c + length dests \<and> \<not> empty_slot (slots s1) (?R j)"
        using m(7) by (rule spec)
      ultimately show ?thesis using False unfolding le_less_Suc_range by blast
    qed
    ultimately show ?thesis using run m(2,3) s1m by auto
  qed
qed

end

section \<open>A ring as the list of its messages\<close>

definition ring_idx :: "kstore \<Rightarrow> obj_id \<Rightarrow> nat \<Rightarrow> nat \<Rightarrow> u32" where
  "ring_idx s ch ring j =
     of_nat ((unat (chan_head (chans s ch) ring) + j) mod unat (chan_depth (chans s ch)))"

definition msg_at :: "kstore \<Rightarrow> obj_id \<Rightarrow> nat \<Rightarrow> u32 \<Rightarrow> u8 list \<times> capability option list" where
  "msg_at s ch ring i =
     (map (chan_payload (chans s ch) ring i) [0..<unat (chan_msg_len (chans s ch) ring i)],
      map (\<lambda>c. slot_cap (slots s) (chan_ring_cap (chans s ch) ring i c)) [0..<MSG_CAPS])"

definition ring_msgs :: "kstore \<Rightarrow> obj_id \<Rightarrow> nat \<Rightarrow> (u8 list \<times> capability option list) list" where
  "ring_msgs s ch ring =
     map (\<lambda>j. msg_at s ch ring (ring_idx s ch ring j)) [0..<unat (chan_count (chans s ch) ring)]"

text \<open>The capability slots of a channel.\<close>

definition ring_slots :: "channel_obj \<Rightarrow> slot_id set" where
  "ring_slots c = (\<lambda>(ring, i, k). chan_ring_cap c ring i k) ` ({0, 1} \<times> {..<chan_depth c} \<times> {..<MSG_CAPS})"

definition chan_wf :: "kstore \<Rightarrow> obj_id \<Rightarrow> bool" where
  "chan_wf s ch \<longleftrightarrow>
     0 < chan_depth (chans s ch) \<and> chan_depth (chans s ch) \<le> 256 \<and>
     (\<forall>ring \<in> {0, 1}. \<forall>i. unat (chan_msg_len (chans s ch) ring i) \<le> MSG_PAYLOAD) \<and>
     inj_on (\<lambda>(ring, i, k). chan_ring_cap (chans s ch) ring i k)
       ({0, 1} \<times> {..<chan_depth (chans s ch)} \<times> {..<MSG_CAPS}) \<and>
     (\<forall>ring \<in> {0, 1}.
        chan_head (chans s ch) ring < chan_depth (chans s ch) \<and>
        chan_count (chans s ch) ring \<le> chan_depth (chans s ch) \<and>
        (\<forall>j. unat (chan_count (chans s ch) ring) \<le> j \<longrightarrow> j < unat (chan_depth (chans s ch)) \<longrightarrow>
           (\<forall>k < MSG_CAPS. empty_slot (slots s)
              (chan_ring_cap (chans s ch) ring (ring_idx s ch ring j) k))))"

lemma chan_wfD:
  assumes "chan_wf s ch"
  shows "0 < unat (chan_depth (chans s ch))" and "unat (chan_depth (chans s ch)) \<le> 256"
    and "inj_on (\<lambda>(ring, i, k). chan_ring_cap (chans s ch) ring i k)
       ({0, 1} \<times> {..<chan_depth (chans s ch)} \<times> {..<MSG_CAPS})"
    and "ring \<in> {0, 1} \<Longrightarrow> unat (chan_head (chans s ch) ring) < unat (chan_depth (chans s ch))"
    and "ring \<in> {0, 1} \<Longrightarrow> unat (chan_count (chans s ch) ring) \<le> unat (chan_depth (chans s ch))"
    and "ring \<in> {0, 1} \<Longrightarrow> unat (chan_count (chans s ch) ring) \<le> j \<Longrightarrow> j < unat (chan_depth (chans s ch)) \<Longrightarrow>
      k < MSG_CAPS \<Longrightarrow> empty_slot (slots s) (chan_ring_cap (chans s ch) ring (ring_idx s ch ring j) k)"
    and "ring \<in> {0, 1} \<Longrightarrow> unat (chan_msg_len (chans s ch) ring i) \<le> MSG_PAYLOAD"
  using assms unfolding chan_wf_def by (auto simp: word_less_nat_alt word_le_nat_alt)

lemma mod_offset_inj:
  fixes h j k d :: nat
  assumes "(h + j) mod d = (h + k) mod d" and "j < d" and "k < d"
  shows "j = k"
proof -
  have *: "a = b" if "(h + a) mod d = (h + b) mod d" "a \<le> b" "b < d" for a b
  proof -
    have "d dvd (h + b) - (h + a)" using that(1) by (intro mod_eq_dvd_iff_nat [THEN iffD1]) (use that in auto)
    then have "d dvd b - a" by simp
    then show ?thesis using that dvd_imp_le [of d "b - a"] by (cases "b - a = 0") auto
  qed
  show ?thesis using *[of j k] *[of k j] assms by (metis nat_le_linear)
qed

lemma ring_idx_bound:
  assumes "chan_wf s ch"
  shows "ring_idx s ch ring j < chan_depth (chans s ch)"
    and "unat (ring_idx s ch ring j) = (unat (chan_head (chans s ch) ring) + j) mod unat (chan_depth (chans s ch))"
proof -
  let ?d = "unat (chan_depth (chans s ch))"
  have lt: "(unat (chan_head (chans s ch) ring) + j) mod ?d < ?d" using chan_wfD(1) [OF assms] by simp
  have "(unat (chan_head (chans s ch) ring) + j) mod ?d < 2 ^ LENGTH(32)"
    using lt chan_wfD(2) [OF assms] by simp
  then show e: "unat (ring_idx s ch ring j) = (unat (chan_head (chans s ch) ring) + j) mod ?d"
    unfolding ring_idx_def by (rule unat_of_nat_small)
  show "ring_idx s ch ring j < chan_depth (chans s ch)" using lt e by (simp add: word_less_nat_alt)
qed

lemma ring_idx_inj:
  assumes "chan_wf s ch" and "j < unat (chan_depth (chans s ch))" and "k < unat (chan_depth (chans s ch))"
    and "ring_idx s ch ring j = ring_idx s ch ring k"
  shows "j = k"
proof -
  have "unat (ring_idx s ch ring j) = unat (ring_idx s ch ring k)" using assms(4) by simp
  then show ?thesis unfolding ring_idx_bound(2) [OF assms(1)] by (rule mod_offset_inj) (use assms in auto)
qed

lemma ring_slot_inj:
  assumes "chan_wf s ch" and "ring \<in> {0, 1}" and "ring' \<in> {0, 1}"
    and "i < chan_depth (chans s ch)" and "i' < chan_depth (chans s ch)" and "k < MSG_CAPS" and "k' < MSG_CAPS"
    and "chan_ring_cap (chans s ch) ring i k = chan_ring_cap (chans s ch) ring' i' k'"
  shows "ring = ring' \<and> i = i' \<and> k = k'"
  using inj_onD [OF chan_wfD(3) [OF assms(1)], of "(ring, i, k)" "(ring', i', k')"] assms by auto

lemma ring_slot_in:
  "ring \<in> {0, 1} \<Longrightarrow> i < chan_depth c \<Longrightarrow> k < MSG_CAPS \<Longrightarrow> chan_ring_cap c ring i k \<in> ring_slots c"
  unfolding ring_slots_def by force

section \<open>Send\<close>

definition sent_chan :: "nat \<Rightarrow> u32 \<Rightarrow> u8 list \<Rightarrow> channel_obj \<Rightarrow> channel_obj" where
  "sent_chan e i data c = c\<lparr>
     chan_msg_len := (chan_msg_len c)(e := (chan_msg_len c e)(i := of_nat (length data))),
     chan_payload := (chan_payload c)(e := (chan_payload c e)(i :=
       (\<lambda>j. if j < min (length data) MSG_PAYLOAD then data ! j else chan_payload c e i j))),
     chan_count := (chan_count c)(e := chan_count c e + 1)\<rparr>"

lemma sent_chan_simps [simp]:
  "chan_depth (sent_chan e i data c) = chan_depth c" "chan_head (sent_chan e i data c) = chan_head c"
  "chan_ring_cap (sent_chan e i data c) = chan_ring_cap c"
  "chan_end_caps (sent_chan e i data c) = chan_end_caps c"
  "chan_binding (sent_chan e i data c) = chan_binding c"
  "chan_count (sent_chan e i data c) = (chan_count c)(e := chan_count c e + 1)"
  by (simp_all add: sent_chan_def)

lemma send_index:
  assumes "chan_wf s ch" and "e \<in> {0, 1}"
  shows "(chan_head (chans s ch) e + chan_count (chans s ch) e) mod chan_depth (chans s ch) =
    ring_idx s ch e (unat (chan_count (chans s ch) e))"
proof -
  let ?c = "chans s ch"
  have "unat (chan_head ?c e) + unat (chan_count ?c e) < 2 ^ 32"
    using chan_wfD(2,4,5) [OF assms(1)] assms(2) by force
  then have "unat (chan_head ?c e + chan_count ?c e) = unat (chan_head ?c e) + unat (chan_count ?c e)"
    by (simp add: unat_word_ariths)
  then show ?thesis
    unfolding word_unat_eq_iff ring_idx_bound(2) [OF assms(1)] by (simp add: unat_mod)
qed

lemma ring_msgs_cong:
  assumes "chans s' ch = chans s ch" and "slots s' = slots s"
  shows "ring_msgs s' ch = ring_msgs s ch" and "chan_wf s' ch = chan_wf s ch"
  by (rule ext, simp_all add: ring_msgs_def msg_at_def ring_idx_def chan_wf_def assms)

context slot_invariant
begin

lemma send:
  assumes inv: "kinv s" and I: "I (slots s)" and wf: "chan_wf s ch" and len: "length caps = MSG_CAPS"
    and src: "\<forall>k. Some k \<in> set caps \<longrightarrow> k \<notin> ring_slots (chans s ch)"
    and room: "chan_count (chans s ch) (end_idx end') \<noteq> chan_depth (chans s ch)"
    and "chan_end_caps (chans s ch) (1 - end_idx end') \<noteq> 0"
  defines "e \<equiv> end_idx end'"
  defines "i \<equiv> ring_idx s ch e (unat (chan_count (chans s ch) e))"
  shows "\<exists>m. send ch end' data caps s = Some (Inr (), fire ch (1 - e) EV_READABLE
        (s\<lparr>slots := m, chans := (chans s)(ch := sent_chan e i data (chans s ch))\<rparr>)) \<and>
      kinv (s\<lparr>slots := m, chans := (chans s)(ch := sent_chan e i data (chans s ch))\<rparr>) \<and> I m \<and>
      (\<forall>j < MSG_CAPS. slot_cap m (chan_ring_cap (chans s ch) e i j) =
         fst (take_caps (slot_cap (slots s)) caps) ! j) \<and>
      (\<forall>k. k \<notin> chan_ring_cap (chans s ch) e i ` {0 ..< MSG_CAPS} \<longrightarrow>
         slot_cap m k = snd (take_caps (slot_cap (slots s)) caps) k)"
proof -
  have e: "e \<in> {0, 1}" using end_idx_cases [of end'] by (auto simp: e_def)
  have i: "i < chan_depth (chans s ch)" unfolding i_def by (rule ring_idx_bound(1) [OF wf])
  have cnt: "unat (chan_count (chans s ch) e) < unat (chan_depth (chans s ch))"
    using chan_wfD(5) [OF wf e] room by (simp add: e_def word_unat_eq_iff)
  define s2 where "s2 = chan_msg_write ch e i data (set_chan_msg_len ch e i (of_nat (length data)) s)"
  have "shrunk s (set_chan_msg_len ch e i (of_nat (length data)) s)"
    unfolding set_chan_msg_len_def by (rule upd_chan_shrunk [OF inv]) simp_all
  then have k2: "kinv s2"
    unfolding s2_def chan_msg_write_def
    using shrunk_kinv [OF upd_chan_shrunk [OF shrunk_kinv]] by simp
  have s2: "slots s2 = slots s" "chan_ring_cap (chans s2 ch) = chan_ring_cap (chans s ch)"
    by (simp_all add: s2_def store_defs)
  have empty: "empty_slot (slots s) (chan_ring_cap (chans s ch) e i j)" if "j < MSG_CAPS" for j
    unfolding i_def by (rule chan_wfD(6) [OF wf e _ cnt that]) simp
  have inj: "inj_on (chan_ring_cap (chans s ch) e i) {0 ..< 0 + length caps}"
    using ring_slot_inj [OF wf e e i i] len by (auto simp: inj_on_def)
  have apart: "chan_ring_cap (chans s ch) e i j \<noteq> k" if "j < MSG_CAPS" "Some k \<in> set caps" for j k
    using src that ring_slot_in [OF e i] by blast
  obtain m where m: "send_caps ch e i 0 caps s2 = Some (s2\<lparr>slots := m\<rparr>)" "kinv (s2\<lparr>slots := m\<rparr>)" "I m"
    "\<forall>j < length caps. slot_cap m (chan_ring_cap (chans s ch) e i (0 + j)) =
       fst (take_caps (slot_cap (slots s)) caps) ! j"
    "\<forall>k. k \<notin> chan_ring_cap (chans s ch) e i ` {0 ..< 0 + length caps} \<longrightarrow>
       slot_cap m k = snd (take_caps (slot_cap (slots s)) caps) k"
    using send_caps [OF k2, of 0 caps ch e i] I empty inj apart len unfolding s2 by auto
  let ?s3 = "s\<lparr>slots := m, chans := (chans s)(ch := sent_chan e i data (chans s ch))\<rparr>"
  have s3: "set_chan_count ch e (chan_count (chans (s2\<lparr>slots := m\<rparr>) ch) e + 1) (s2\<lparr>slots := m\<rparr>) = ?s3"
    by (simp add: s2_def store_defs sent_chan_def cong: if_cong)
  have "kinv ?s3"
    unfolding s3 [symmetric] set_chan_count_def
    by (rule shrunk_kinv [OF upd_chan_shrunk [OF m(2)]]) simp_all
  moreover have "send ch end' data caps s = Some (Inr (), fire ch (1 - e) EV_READABLE ?s3)"
    using assms(6,7) m(1) s3 unfolding e_def [symmetric]
    by (simp add: send_def Let_def e_def [symmetric] send_index [OF wf e] i_def [symmetric] s2_def [symmetric])
  ultimately show ?thesis using m(3-5) len by auto
qed

end

text \<open>The rings after a message was stored at the index behind the last one.\<close>

lemma sent_ring:
  assumes wf: "chan_wf s ch" and e: "e \<in> {0, 1}"
    and room: "unat (chan_count (chans s ch) e) < unat (chan_depth (chans s ch))"
    and data: "length data \<le> MSG_PAYLOAD"
  defines "i \<equiv> ring_idx s ch e (unat (chan_count (chans s ch) e))"
  assumes s': "chans s' ch = sent_chan e i data (chans s ch)" "slots s' = m"
    and here: "\<forall>j < MSG_CAPS. slot_cap m (chan_ring_cap (chans s ch) e i j) = cs ! j" "length cs = MSG_CAPS"
    and other: "\<forall>k \<in> ring_slots (chans s ch). k \<notin> chan_ring_cap (chans s ch) e i ` {0 ..< MSG_CAPS} \<longrightarrow>
      slot_cap m k = slot_cap (slots s) k"
  shows "ring_msgs s' ch e = ring_msgs s ch e @ [(data, cs)]"
    and "ring_msgs s' ch (1 - e) = ring_msgs s ch (1 - e)" and "chan_wf s' ch"
proof -
  let ?c = "chans s ch"
  let ?n = "unat (chan_count ?c e)"
  have i: "i < chan_depth ?c" unfolding i_def by (rule ring_idx_bound(1) [OF wf])
  have idx: "ring_idx s' ch r j = ring_idx s ch r j" for r j by (simp add: ring_idx_def s')
  have keep: "slot_cap m (chan_ring_cap ?c r i' k) = slot_cap (slots s) (chan_ring_cap ?c r i' k)"
    if "r \<in> {0, 1}" "i' < chan_depth ?c" "k < MSG_CAPS" "r \<noteq> e \<or> i' \<noteq> i" for r i' k
  proof -
    have "chan_ring_cap ?c r i' k \<notin> chan_ring_cap ?c e i ` {0 ..< MSG_CAPS}"
    proof
      assume "chan_ring_cap ?c r i' k \<in> chan_ring_cap ?c e i ` {0 ..< MSG_CAPS}"
      then obtain x where "chan_ring_cap ?c r i' k = chan_ring_cap ?c e i x" "x < MSG_CAPS" by auto
      then show False using ring_slot_inj [OF wf that(1) e that(2) i that(3)] that(4) by blast
    qed
    then show ?thesis using other ring_slot_in [OF that(1-3)] by blast
  qed
  have old: "msg_at s' ch r i' = msg_at s ch r i'"
    if "r \<in> {0, 1}" "i' < chan_depth ?c" "r \<noteq> e \<or> i' \<noteq> i" for r i'
  proof -
    have "chan_payload (chans s' ch) r i' = chan_payload ?c r i'" "chan_msg_len (chans s' ch) r i' = chan_msg_len ?c r i'"
      using that(3) by (auto simp: s' sent_chan_def)
    then show ?thesis using keep [OF that(1,2) _ that(3)] by (simp add: msg_at_def s')
  qed
  have new: "msg_at s' ch e i = (data, cs)"
  proof -
    have "unat (of_nat (length data) :: u16) = length data"
      using data by (intro unat_of_nat_small) (simp add: MSG_PAYLOAD_def)
    then have "unat (chan_msg_len (chans s' ch) e i) = length data" by (simp add: s' sent_chan_def)
    moreover have "chan_payload (chans s' ch) e i j = data ! j" if "j < length data" for j
      using that data by (simp add: s' sent_chan_def)
    ultimately have "map (chan_payload (chans s' ch) e i) [0..<unat (chan_msg_len (chans s' ch) e i)] = data"
      by (intro nth_equalityI) simp_all
    moreover have "map (\<lambda>c. slot_cap m (chan_ring_cap ?c e i c)) [0..<MSG_CAPS] = cs"
      using here by (simp add: list_eq_iff_nth_eq)
    ultimately show ?thesis by (simp add: msg_at_def s')
  qed
  have cnt: "unat (chan_count ?c e + 1) = ?n + 1"
    using room chan_wfD(2) [OF wf] by (simp add: unat_word_ariths)
  have ne: "ring_idx s ch e j \<noteq> i" if "j < unat (chan_depth ?c)" "j \<noteq> ?n" for j
    using ring_idx_inj [OF wf that(1) room] that(2) by (auto simp: i_def)
  show "ring_msgs s' ch e = ring_msgs s ch e @ [(data, cs)]"
  proof -
    have "msg_at s' ch e (ring_idx s' ch e j) = msg_at s ch e (ring_idx s ch e j)" if "j < ?n" for j
      using old [OF e ring_idx_bound(1) [OF wf]] ne [of j] that room by (simp add: idx)
    then show ?thesis by (simp add: ring_msgs_def s' cnt idx new flip: i_def)
  qed
  have e': "1 - e \<in> {0, 1}" "1 - e \<noteq> e" using e by auto
  show "ring_msgs s' ch (1 - e) = ring_msgs s ch (1 - e)"
    using old [OF e'(1) ring_idx_bound(1) [OF wf]] e'(2) by (simp add: ring_msgs_def idx) (simp add: s')
  have "empty_slot m (chan_ring_cap ?c r (ring_idx s ch r j) k)"
    if r: "r \<in> {0, 1}" and j: "unat (((chan_count ?c)(e := chan_count ?c e + 1)) r) \<le> j" "j < unat (chan_depth ?c)"
      and k: "k < MSG_CAPS" for r j k
  proof -
    have "unat (chan_count ?c r) \<le> j" and ne': "r \<noteq> e \<or> ring_idx s ch r j \<noteq> i"
      using j cnt ne [of j] by (auto split: if_splits)
    then have "empty_slot (slots s) (chan_ring_cap ?c r (ring_idx s ch r j) k)"
      using chan_wfD(6) [OF wf r _ j(2) k] by blast
    then show ?thesis
      using keep [OF r ring_idx_bound(1) [OF wf] k ne'] by (metis slot_cap_None)
  qed
  moreover have "unat (chan_msg_len (sent_chan e i data ?c) r i') \<le> MSG_PAYLOAD" if "r \<in> {0, 1}" for r i'
    using chan_wfD(7) [OF wf that] data unat_of_nat_small [of "length data", where 'a = 16]
    by (auto simp: sent_chan_def MSG_PAYLOAD_def)
  ultimately show "chan_wf s' ch"
    using wf room cnt unfolding chan_wf_def s' idx
    by (auto simp: word_le_nat_alt)
qed

text \<open>
  C12: \<open>send\<close> appends. On a well-formed channel with an open peer and room in the ring, the
  message (its bytes, and the capabilities taken out of the sender's slots) becomes the
  last one of the sender's ring; the other ring is untouched, the sent capabilities have
  left their slots and all others stay; the invariant and the confinement of authority
  are kept. With the peer closed or the ring full, the call is refused and changes nothing.
\<close>

theorem send_appends:
  assumes "kinv s" and "confined (slots s)" and "chan_wf s ch"
    and "length caps = MSG_CAPS" and "length data \<le> MSG_PAYLOAD"
    and "\<forall>k. Some k \<in> set caps \<longrightarrow> k \<notin> ring_slots (chans s ch)"
  shows "let e = end_idx end' in
    if chan_end_caps (chans s ch) (1 - e) = 0 then send ch end' data caps s = Some (Inl PeerClosed, s)
    else if chan_count (chans s ch) e = chan_depth (chans s ch) then send ch end' data caps s = Some (Inl Full, s)
    else \<exists>s'. send ch end' data caps s = Some (Inr (), s') \<and> kinv s' \<and> confined (slots s') \<and> chan_wf s' ch \<and>
      (let (cs, M) = take_caps (slot_cap (slots s)) caps in
       ring_msgs s' ch e = ring_msgs s ch e @ [(data, cs)] \<and> ring_msgs s' ch (1 - e) = ring_msgs s ch (1 - e) \<and>
       (\<forall>k. k \<notin> ring_slots (chans s ch) \<longrightarrow> slot_cap (slots s') k = M k))"
proof -
  define e where "e = end_idx end'"
  have e: "e \<in> {0, 1}" using end_idx_cases [of end'] by (auto simp: e_def)
  show ?thesis
  proof (cases "chan_end_caps (chans s ch) (1 - e) = 0 \<or> chan_count (chans s ch) e = chan_depth (chans s ch)")
    case True
    then show ?thesis by (auto simp: send_def Let_def e_def)
  next
    case False
    then have open': "chan_count (chans s ch) (end_idx end') \<noteq> chan_depth (chans s ch)"
      "chan_end_caps (chans s ch) (1 - end_idx end') \<noteq> 0" by (auto simp: e_def)
    let ?i = "ring_idx s ch e (unat (chan_count (chans s ch) e))"
    let ?T = "take_caps (slot_cap (slots s)) caps"
    obtain m where m: "send ch end' data caps s = Some (Inr (), fire ch (1 - e) EV_READABLE
        (s\<lparr>slots := m, chans := (chans s)(ch := sent_chan e ?i data (chans s ch))\<rparr>))"
      "kinv (s\<lparr>slots := m, chans := (chans s)(ch := sent_chan e ?i data (chans s ch))\<rparr>)" "confined m"
      "\<forall>j < MSG_CAPS. slot_cap m (chan_ring_cap (chans s ch) e ?i j) = fst ?T ! j"
      "\<forall>k. k \<notin> chan_ring_cap (chans s ch) e ?i ` {0 ..< MSG_CAPS} \<longrightarrow> slot_cap m k = snd ?T k"
      using conf.send [OF assms(1-4,6) open', of data, folded e_def] by blast
    define s' where "s' = fire ch (1 - e) EV_READABLE
        (s\<lparr>slots := m, chans := (chans s)(ch := sent_chan e ?i data (chans s ch))\<rparr>)"
    have s': "chans s' ch = sent_chan e ?i data (chans s ch)" "slots s' = m" by (simp_all add: s'_def)
    have room: "unat (chan_count (chans s ch) e) < unat (chan_depth (chans s ch))"
      using chan_wfD(5) [OF assms(3) e] False by (simp add: word_unat_eq_iff)
    have other: "\<forall>k \<in> ring_slots (chans s ch). k \<notin> chan_ring_cap (chans s ch) e ?i ` {0 ..< MSG_CAPS} \<longrightarrow>
        slot_cap m k = slot_cap (slots s) k"
      using m(5) take_caps_other assms(6) by metis
    note r = sent_ring [OF assms(3) e room assms(5) s' m(4) _ other]
    have "chan_ring_cap (chans s ch) e ?i j \<in> ring_slots (chans s ch)" if "j < MSG_CAPS" for j
      by (rule ring_slot_in [OF e ring_idx_bound(1) [OF assms(3)] that])
    then have "chan_ring_cap (chans s ch) e ?i ` {0 ..< MSG_CAPS} \<subseteq> ring_slots (chans s ch)" by auto
    then have "slot_cap m k = snd ?T k" if "k \<notin> ring_slots (chans s ch)" for k
      using m(5) that by blast
    moreover have "kinv s'" unfolding s'_def by (rule shrunk_kinv [OF fire_shrunk [OF m(2)]])
    moreover have "send ch end' data caps s = Some (Inr (), s')" unfolding s'_def by (rule m(1))
    ultimately show ?thesis
      using m(3) r assms(4) False s'(2) unfolding Let_def e_def [symmetric]
      by (simp add: case_prod_unfold)
  qed
qed

section \<open>Receive\<close>

definition recvd_chan :: "nat \<Rightarrow> u32 \<Rightarrow> channel_obj \<Rightarrow> channel_obj" where
  "recvd_chan ring i c = c\<lparr>
     chan_msg_len := (chan_msg_len c)(ring := (chan_msg_len c ring)(i := 0)),
     chan_head := (chan_head c)(ring := (i + 1) mod chan_depth c),
     chan_count := (chan_count c)(ring := chan_count c ring - 1)\<rparr>"

lemma recvd_chan_simps [simp]:
  "chan_depth (recvd_chan ring i c) = chan_depth c"
  "chan_ring_cap (recvd_chan ring i c) = chan_ring_cap c"
  "chan_end_caps (recvd_chan ring i c) = chan_end_caps c"
  "chan_binding (recvd_chan ring i c) = chan_binding c"
  "chan_payload (recvd_chan ring i c) = chan_payload c"
  "chan_head (recvd_chan ring i c) = (chan_head c)(ring := (i + 1) mod chan_depth c)"
  "chan_count (recvd_chan ring i c) = (chan_count c)(ring := chan_count c ring - 1)"
  by (simp_all add: recvd_chan_def)

lemma recv_check_iff:
  "recv_check ch ring hd' c dests s \<longleftrightarrow>
     (\<forall>j < length dests. \<not> empty_slot (slots s) (chan_ring_cap (chans s ch) ring hd' (c + j)) \<longrightarrow>
        (\<exists>k. dests ! j = Some k \<and> empty_slot (slots s) k))"
proof (induction dests arbitrary: c)
  case (Cons d dests)
  show ?case
    unfolding recv_check.simps length_Cons All_less_Suc2 Cons.IH
    by (auto split: option.split)
qed simp

context slot_invariant
begin

lemma recv:
  assumes inv: "kinv s" and I: "I (slots s)" and wf: "chan_wf s ch" and len: "length dests = MSG_CAPS"
    and dist: "distinct (filter (\<lambda>d. d \<noteq> None) dests)"
    and dst: "\<forall>k. Some k \<in> set dests \<longrightarrow> k \<notin> ring_slots (chans s ch)"
    and some: "chan_count (chans s ch) (1 - end_idx end') \<noteq> 0"
  defines "ring \<equiv> 1 - end_idx end'"
  defines "i \<equiv> chan_head (chans s ch) ring"
  assumes check: "recv_check ch ring i 0 dests s"
  shows "\<exists>m msk. recv ch end' buf dests s = Some (Inr (unat (chan_msg_len (chans s ch) ring i), msk,
          chan_msg_read s ch ring i (unat (chan_msg_len (chans s ch) ring i)) buf),
        fire ch ring EV_WRITABLE (s\<lparr>slots := m, chans := (chans s)(ch := recvd_chan ring i (chans s ch))\<rparr>)) \<and>
      kinv (s\<lparr>slots := m, chans := (chans s)(ch := recvd_chan ring i (chans s ch))\<rparr>) \<and> I m \<and>
      (\<forall>j < MSG_CAPS. slot_cap m (chan_ring_cap (chans s ch) ring i j) = None) \<and>
      (\<forall>j < MSG_CAPS. \<forall>k. dests ! j = Some k \<longrightarrow> slot_cap m k =
         (case slot_cap (slots s) (chan_ring_cap (chans s ch) ring i j) of
            None \<Rightarrow> slot_cap (slots s) k | Some x \<Rightarrow> Some x)) \<and>
      (\<forall>k. Some k \<notin> set dests \<longrightarrow> k \<notin> chan_ring_cap (chans s ch) ring i ` {0 ..< MSG_CAPS} \<longrightarrow>
         slot_cap m k = slot_cap (slots s) k) \<and>
      (\<forall>j < MSG_CAPS. bit msk j \<longleftrightarrow> \<not> empty_slot (slots s) (chan_ring_cap (chans s ch) ring i j))"
proof -
  have e: "ring \<in> {0, 1}" using end_idx_cases [of end'] by (auto simp: ring_def)
  have i: "i < chan_depth (chans s ch)" unfolding i_def word_less_nat_alt by (rule chan_wfD(4) [OF wf e])
  have inj: "inj_on (chan_ring_cap (chans s ch) ring i) {0 ..< 0 + length dests}"
    using ring_slot_inj [OF wf e e i i] len by (auto simp: inj_on_def)
  have apart: "\<forall>k. Some k \<in> set dests \<longrightarrow> k \<notin> chan_ring_cap (chans s ch) ring i ` {0 ..< 0 + length dests}"
    using dst ring_slot_in [OF e i] len by auto
  obtain m msk where m: "recv_caps ch ring i 0 dests 0 s = Some (msk, s\<lparr>slots := m\<rparr>)" "kinv (s\<lparr>slots := m\<rparr>)" "I m"
    "\<forall>j < length dests. slot_cap m (chan_ring_cap (chans s ch) ring i (0 + j)) = None"
    "\<forall>j < length dests. \<forall>k. dests ! j = Some k \<longrightarrow> slot_cap m k =
       (case slot_cap (slots s) (chan_ring_cap (chans s ch) ring i (0 + j)) of
          None \<Rightarrow> slot_cap (slots s) k | Some x \<Rightarrow> Some x)"
    "\<forall>k. Some k \<notin> set dests \<longrightarrow> k \<notin> chan_ring_cap (chans s ch) ring i ` {0 ..< 0 + length dests} \<longrightarrow>
       slot_cap m k = slot_cap (slots s) k"
    "\<forall>j. bit msk j \<longleftrightarrow> bit (0 :: u8) j \<or> 0 \<le> j \<and> j < 0 + length dests \<and>
       \<not> empty_slot (slots s) (chan_ring_cap (chans s ch) ring i j)"
    using recv_caps [OF inv I check inj dist apart, of 0] len by (auto simp: MSG_CAPS_def)
  let ?s3 = "s\<lparr>slots := m, chans := (chans s)(ch := recvd_chan ring i (chans s ch))\<rparr>"
  have "shrunk (s\<lparr>slots := m\<rparr>) (upd_chan ch (recvd_chan ring i) (s\<lparr>slots := m\<rparr>))"
    by (rule upd_chan_shrunk [OF m(2)]) simp_all
  then have "kinv ?s3" using shrunk_kinv by (fastforce simp: upd_chan_def)
  moreover have "recv ch end' buf dests s = Some (Inr (unat (chan_msg_len (chans s ch) ring i), msk,
      chan_msg_read s ch ring i (unat (chan_msg_len (chans s ch) ring i)) buf), fire ch ring EV_WRITABLE ?s3)"
    using some check m(1) unfolding recv_def Let_def ring_def [symmetric] i_def [symmetric]
    by (simp add: store_defs recvd_chan_def chan_msg_read_def Let_def cong: if_cong)
  moreover have "\<forall>j < MSG_CAPS. bit msk j \<longleftrightarrow> \<not> empty_slot (slots s) (chan_ring_cap (chans s ch) ring i j)"
    using m(7) len by simp
  ultimately show ?thesis using m(3-6) unfolding add_0 len by blast
qed

end

text \<open>The rings after the first message was taken out.\<close>

lemma recvd_ring:
  assumes wf: "chan_wf s ch" and r: "ring \<in> {0, 1}" and some: "chan_count (chans s ch) ring \<noteq> 0"
  defines "i \<equiv> chan_head (chans s ch) ring"
  assumes s': "chans s' ch = recvd_chan ring i (chans s ch)" "slots s' = m"
    and here: "\<forall>j < MSG_CAPS. slot_cap m (chan_ring_cap (chans s ch) ring i j) = None"
    and other: "\<forall>k \<in> ring_slots (chans s ch). k \<notin> chan_ring_cap (chans s ch) ring i ` {0 ..< MSG_CAPS} \<longrightarrow>
      slot_cap m k = slot_cap (slots s) k"
  shows "ring_msgs s ch ring = msg_at s ch ring i # ring_msgs s' ch ring"
    and "ring_msgs s' ch (1 - ring) = ring_msgs s ch (1 - ring)" and "chan_wf s' ch"
proof -
  let ?c = "chans s ch"
  let ?n = "unat (chan_count ?c ring)" and ?d = "unat (chan_depth ?c)"
  have n: "0 < ?n" "?n \<le> ?d" using some chan_wfD(5) [OF wf r] by (simp_all add: unat_gt_0)
  have hd: "unat i < ?d" unfolding i_def by (rule chan_wfD(4) [OF wf r])
  have i: "i < chan_depth ?c" using hd by (simp add: word_less_nat_alt)
  have idx0: "ring_idx s ch ring 0 = i" using hd by (simp add: ring_idx_def i_def [symmetric])
  have nxt: "unat ((i + 1) mod chan_depth ?c) = Suc (unat i) mod ?d"
    using hd chan_wfD(2) [OF wf] by (simp add: unat_mod unat_word_ariths)
  have idx: "ring_idx s' ch ring j = ring_idx s ch ring (Suc j)" for j
    by (simp add: ring_idx_def s' nxt i_def [symmetric] mod_add_left_eq)
  have idx': "ring_idx s' ch q j = ring_idx s ch q j" if "q \<noteq> ring" for q j
    using that by (simp add: ring_idx_def s')
  have cnt: "unat (chan_count ?c ring - 1) = ?n - 1" using n(1) by (simp add: unat_minus_one some)
  have keep: "slot_cap m (chan_ring_cap ?c q i' k) = slot_cap (slots s) (chan_ring_cap ?c q i' k)"
    if "q \<in> {0, 1}" "i' < chan_depth ?c" "k < MSG_CAPS" "q \<noteq> ring \<or> i' \<noteq> i" for q i' k
  proof -
    have "chan_ring_cap ?c q i' k \<notin> chan_ring_cap ?c ring i ` {0 ..< MSG_CAPS}"
    proof
      assume "chan_ring_cap ?c q i' k \<in> chan_ring_cap ?c ring i ` {0 ..< MSG_CAPS}"
      then obtain x where "chan_ring_cap ?c q i' k = chan_ring_cap ?c ring i x" "x < MSG_CAPS" by auto
      then show False using ring_slot_inj [OF wf that(1) r that(2) i that(3)] that(4) by blast
    qed
    then show ?thesis using other ring_slot_in [OF that(1-3)] by blast
  qed
  have old: "msg_at s' ch q i' = msg_at s ch q i'"
    if "q \<in> {0, 1}" "i' < chan_depth ?c" "q \<noteq> ring \<or> i' \<noteq> i" for q i'
  proof -
    have "chan_msg_len (chans s' ch) q i' = chan_msg_len ?c q i'"
      using that(3) by (auto simp: s' recvd_chan_def)
    then show ?thesis using keep [OF that(1,2) _ that(3)] by (simp add: msg_at_def s')
  qed
  have ne: "ring_idx s ch ring (Suc j) \<noteq> i" if "Suc j < ?d" for j
    using ring_idx_inj [OF wf that, of 0 ring] hd that unfolding idx0 by auto
  show "ring_msgs s ch ring = msg_at s ch ring i # ring_msgs s' ch ring"
  proof -
    have *: "[0..<?n] = 0 # map Suc [0..<?n - 1]"
      using n(1) by (simp add: map_Suc_upt upt_conv_Cons)
    have "msg_at s' ch ring (ring_idx s' ch ring j) = msg_at s ch ring (ring_idx s ch ring (Suc j))"
      if "j < ?n - 1" for j
      using old [OF r ring_idx_bound(1) [OF wf]] ne [of j] that n by (simp add: idx)
    then show ?thesis by (simp add: ring_msgs_def s' cnt * idx0)
  qed
  have r': "1 - ring \<in> {0, 1}" "1 - ring \<noteq> ring" using r by auto
  show "ring_msgs s' ch (1 - ring) = ring_msgs s ch (1 - ring)"
    using old [OF r'(1) ring_idx_bound(1) [OF wf]] r'(2) by (simp add: ring_msgs_def idx') (simp add: s')
  have emp: "empty_slot m (chan_ring_cap ?c q (ring_idx s' ch q j) k)"
    if q: "q \<in> {0, 1}" and j: "unat (((chan_count ?c)(ring := chan_count ?c ring - 1)) q) \<le> j" "j < ?d"
      and k: "k < MSG_CAPS" for q j k
  proof (cases "q = ring")
    case False
    then show ?thesis
      using chan_wfD(6) [OF wf q _ j(2) k] keep [OF q ring_idx_bound(1) [OF wf, of q j] k] j(1) idx'
      by (metis fun_upd_other slot_cap_None)
  next
    case True
    show ?thesis
    proof (cases "Suc j = ?d")
      case True
      then have "ring_idx s ch ring (Suc j) = i" using hd by (simp add: ring_idx_def i_def [symmetric])
      then show ?thesis using here k idx \<open>q = ring\<close> by (metis slot_cap_None)
    next
      case False
      then have "Suc j < ?d" "?n \<le> Suc j" using j cnt True by auto
      then show ?thesis
        using chan_wfD(6) [OF wf r _ _ k, of "Suc j"] keep [OF r ring_idx_bound(1) [OF wf, of ring "Suc j"] k]
          ne [of j] idx True by (metis slot_cap_None)
    qed
  qed
  have lens: "unat (chan_msg_len (recvd_chan ring i ?c) q i') \<le> MSG_PAYLOAD" if "q \<in> {0, 1}" for q i'
    using chan_wfD(7) [OF wf that] by (auto simp: recvd_chan_def)
  have heads: "((chan_head ?c)(ring := (i + 1) mod chan_depth ?c)) q < chan_depth ?c \<and>
      ((chan_count ?c)(ring := chan_count ?c ring - 1)) q \<le> chan_depth ?c" if "q \<in> {0, 1}" for q
    using chan_wfD(4,5) [OF wf that] n cnt nxt hd by (auto simp: word_less_nat_alt word_le_nat_alt)
  show "chan_wf s' ch"
    unfolding chan_wf_def s' recvd_chan_simps
    using emp lens heads wf [unfolded chan_wf_def] by blast
qed

text \<open>
  C13: \<open>recv\<close> takes the first message. On a well-formed channel, with different destination
  slots outside the channel: an empty ring answers \<open>ChanEmpty\<close>; a message with a capability
  for which no empty destination is given stays queued and \<open>NoCapSlot\<close> is answered, both
  without any change. Otherwise the length and the bytes of the oldest message are
  delivered, its capabilities appear in the destinations given for them (and the bits of
  the mask say which), the message has left its ring, the other ring and all other slots
  are untouched, and the invariant and the confinement of authority are kept.
\<close>

theorem recv_pops:
  assumes "kinv s" and "confined (slots s)" and "chan_wf s ch"
    and "length dests = MSG_CAPS" and "length buf = MSG_PAYLOAD"
    and "distinct (filter (\<lambda>d. d \<noteq> None) dests)"
    and "\<forall>k. Some k \<in> set dests \<longrightarrow> k \<notin> ring_slots (chans s ch)"
  shows "let ring = 1 - end_idx end' in
    case ring_msgs s ch ring of
      [] \<Rightarrow> recv ch end' buf dests s = Some (Inl ChanEmpty, s)
    | (data, cs) # rest \<Rightarrow>
        if \<exists>j < MSG_CAPS. cs ! j \<noteq> None \<and> (\<forall>k. dests ! j = Some k \<longrightarrow> slot_cap (slots s) k \<noteq> None)
        then recv ch end' buf dests s = Some (Inl NoCapSlot, s)
        else \<exists>msk buf' s'. recv ch end' buf dests s = Some (Inr (length data, msk, buf'), s') \<and>
          kinv s' \<and> confined (slots s') \<and> chan_wf s' ch \<and> take (length data) buf' = data \<and>
          ring_msgs s' ch ring = rest \<and> ring_msgs s' ch (1 - ring) = ring_msgs s ch (1 - ring) \<and>
          (\<forall>j < MSG_CAPS. bit msk j \<longleftrightarrow> cs ! j \<noteq> None) \<and>
          (\<forall>j < MSG_CAPS. \<forall>k. dests ! j = Some k \<longrightarrow> cs ! j \<noteq> None \<longrightarrow> slot_cap (slots s') k = cs ! j) \<and>
          (\<forall>k. Some k \<notin> set dests \<longrightarrow> k \<notin> ring_slots (chans s ch) \<longrightarrow> slot_cap (slots s') k = slot_cap (slots s) k)"
proof -
  define ring where "ring = 1 - end_idx end'"
  have r: "ring \<in> {0, 1}" using end_idx_cases [of end'] by (auto simp: ring_def)
  let ?c = "chans s ch"
  let ?i = "chan_head ?c ring"
  show ?thesis
  proof (cases "chan_count ?c ring = 0")
    case True
    then show ?thesis unfolding ring_msgs_def recv_def Let_def ring_def [symmetric] by simp
  next
    case False
    obtain rest where rest: "ring_msgs s ch ring = msg_at s ch ring ?i # rest"
    proof -
      have "ring_idx s ch ring 0 = ?i" using chan_wfD(4) [OF assms(3) r] by (simp add: ring_idx_def)
      moreover have "[0..<unat (chan_count ?c ring)] = 0 # [1..<unat (chan_count ?c ring)]"
        using False by (simp add: upt_conv_Cons unat_gt_0)
      ultimately show ?thesis using that by (simp add: ring_msgs_def)
    qed
    obtain data cs where msg: "msg_at s ch ring ?i = (data, cs)" by force
    have cs: "cs ! j = slot_cap (slots s) (chan_ring_cap ?c ring ?i j)" if "j < MSG_CAPS" for j
      using msg that by (auto simp: msg_at_def)
    have data: "length data = unat (chan_msg_len ?c ring ?i)"
      "data = map (chan_payload ?c ring ?i) [0..<unat (chan_msg_len ?c ring ?i)]"
      using msg by (auto simp: msg_at_def)
    have chk: "recv_check ch ring ?i 0 dests s \<longleftrightarrow>
        \<not> (\<exists>j < MSG_CAPS. cs ! j \<noteq> None \<and> (\<forall>k. dests ! j = Some k \<longrightarrow> slot_cap (slots s) k \<noteq> None))"
      unfolding recv_check_iff assms(4) using cs by auto
    show ?thesis
    proof (cases "recv_check ch ring ?i 0 dests s")
      case check: False
      then have "recv ch end' buf dests s = Some (Inl NoCapSlot, s)"
        using False unfolding recv_def Let_def ring_def [symmetric] by simp
      then show ?thesis using check chk rest msg unfolding Let_def ring_def [symmetric] by simp
    next
      case check: True
      obtain m msk where m: "recv ch end' buf dests s = Some (Inr (unat (chan_msg_len ?c ring ?i), msk,
            chan_msg_read s ch ring ?i (unat (chan_msg_len ?c ring ?i)) buf),
          fire ch ring EV_WRITABLE (s\<lparr>slots := m, chans := (chans s)(ch := recvd_chan ring ?i ?c)\<rparr>))"
        "kinv (s\<lparr>slots := m, chans := (chans s)(ch := recvd_chan ring ?i ?c)\<rparr>)" "confined m"
        "\<forall>j < MSG_CAPS. slot_cap m (chan_ring_cap ?c ring ?i j) = None"
        "\<forall>j < MSG_CAPS. \<forall>k. dests ! j = Some k \<longrightarrow> slot_cap m k =
           (case slot_cap (slots s) (chan_ring_cap ?c ring ?i j) of
              None \<Rightarrow> slot_cap (slots s) k | Some x \<Rightarrow> Some x)"
        "\<forall>k. Some k \<notin> set dests \<longrightarrow> k \<notin> chan_ring_cap ?c ring ?i ` {0 ..< MSG_CAPS} \<longrightarrow>
           slot_cap m k = slot_cap (slots s) k"
        "\<forall>j < MSG_CAPS. bit msk j \<longleftrightarrow> \<not> empty_slot (slots s) (chan_ring_cap ?c ring ?i j)"
        using conf.recv [OF assms(1-4,6,7), where end' = end' and buf = buf, folded ring_def, OF False check] by blast
      define s' where "s' = fire ch ring EV_WRITABLE (s\<lparr>slots := m, chans := (chans s)(ch := recvd_chan ring ?i ?c)\<rparr>)"
      have s': "chans s' ch = recvd_chan ring ?i ?c" "slots s' = m" by (simp_all add: s'_def)
      have sub: "chan_ring_cap ?c ring ?i ` {0 ..< MSG_CAPS} \<subseteq> ring_slots ?c"
        using ring_slot_in [OF r] chan_wfD(4) [OF assms(3) r] by (auto simp: word_less_nat_alt)
      have other: "\<forall>k \<in> ring_slots ?c. k \<notin> chan_ring_cap ?c ring ?i ` {0 ..< MSG_CAPS} \<longrightarrow>
          slot_cap m k = slot_cap (slots s) k"
        using m(6) assms(7) by blast
      note rr = recvd_ring [OF assms(3) r False s' m(4) other]
      have "kinv s'" unfolding s'_def by (rule shrunk_kinv [OF fire_shrunk [OF m(2)]])
      moreover have "take (length data) (chan_msg_read s ch ring ?i (unat (chan_msg_len ?c ring ?i)) buf) = data"
        using data chan_wfD(7) [OF assms(3) r, of ?i] assms(5) by (simp add: chan_msg_read_def Let_def)
      moreover have "slot_cap m k = cs ! j" if "j < MSG_CAPS" "dests ! j = Some k" "cs ! j \<noteq> None" for j k
        using m(5) that cs [OF that(1)] by (auto simp del: slot_cap_None)
      moreover have "bit msk j \<longleftrightarrow> cs ! j \<noteq> None" if "j < MSG_CAPS" for j
        using m(7) that cs by simp
      moreover have "slot_cap m k = slot_cap (slots s) k" if "Some k \<notin> set dests" "k \<notin> ring_slots ?c" for k
        using m(6) that sub by blast
      moreover have "recv ch end' buf dests s = Some (Inr (length data, msk,
            chan_msg_read s ch ring ?i (unat (chan_msg_len ?c ring ?i)) buf), s')"
        using m(1) data(1) unfolding s'_def by simp
      ultimately have "\<exists>msk buf' s'. recv ch end' buf dests s = Some (Inr (length data, msk, buf'), s') \<and>
          kinv s' \<and> confined (slots s') \<and> chan_wf s' ch \<and> take (length data) buf' = data \<and>
          ring_msgs s' ch ring = rest \<and> ring_msgs s' ch (1 - ring) = ring_msgs s ch (1 - ring) \<and>
          (\<forall>j < MSG_CAPS. bit msk j \<longleftrightarrow> cs ! j \<noteq> None) \<and>
          (\<forall>j < MSG_CAPS. \<forall>k. dests ! j = Some k \<longrightarrow> cs ! j \<noteq> None \<longrightarrow> slot_cap (slots s') k = cs ! j) \<and>
          (\<forall>k. Some k \<notin> set dests \<longrightarrow> k \<notin> ring_slots ?c \<longrightarrow> slot_cap (slots s') k = slot_cap (slots s) k)"
        using m(3) rr rest s'(2) by (intro exI [of _ msk] exI [of _ s'] exI) (auto simp del: slot_cap_None)
      moreover have "\<not> (\<exists>j < MSG_CAPS. cs ! j \<noteq> None \<and> (\<forall>k. dests ! j = Some k \<longrightarrow> slot_cap (slots s) k \<noteq> None))"
        using check chk by blast
      ultimately show ?thesis
        unfolding Let_def ring_def [symmetric] rest msg list.case prod.case by (simp only: if_False)
    qed
  qed
qed

end
