(* ===== verification/Examples.thy ===== *)
theory Examples
  imports Threads Untypeds Chanrings
begin

text \<open>
  Concrete stores, and the properties that have hypotheses applied to them. \<open>boot_store\<close> is
  a store with one capability, the way \<open>kernel/src/main.rs\<close> plants a root capability;
  \<open>pair_store\<close> adds one derived from it.
\<close>

definition boot_store :: "capability \<Rightarrow> kstore" where
  "boot_store c = set_slot (SlotId 1) (slot_empty\<lparr>cap := c\<rparr>) blank_store"

definition pair_store :: "capability \<Rightarrow> capability \<Rightarrow> kstore" where
  "pair_store c c' = (let s = boot_store c
     in s\<lparr>slots := cdt_insert_child (SlotId 1) (SlotId 2)
            ((slots s)(SlotId 2 := (slots s (SlotId 2))\<lparr>cap := c'\<rparr>))\<rparr>)"

definition notif_cap :: capability where
  "notif_cap = \<lparr>kind = Notification (ObjId 9), rights = RIGHTS_ALL\<rparr>"

lemma notif_cap_nonempty [simp]: "\<not> cap_is_empty notif_cap"
  by (simp add: cap_is_empty_iff notif_cap_def)

lemma kinv_blank: "kinv blank_store"
proof -
  have "timer_rep blank_store []" by (simp add: timer_rep_def blank_store_def init_defs)
  then show ?thesis
    using sched_rep_blank unfolding kinv_def sched_wf_def timer_wf_def
    by (auto simp: blank_store_def init_defs irq_wf_def cdt_wf_empty)
qed

lemma boot_store_slots: "slots (boot_store c) = (\<lambda>_. slot_empty)(SlotId 1 := slot_empty\<lparr>cap := c\<rparr>)"
  by (simp add: boot_store_def set_slot_def blank_store_def store_init_def)

lemma boot_store_empty: "empty_slot (slots (boot_store c)) k \<longleftrightarrow> k \<noteq> SlotId 1 \<or> cap_is_empty c"
  by (simp add: boot_store_slots)

lemma boot_store_kinv: "kinv (boot_store c)"
proof (rule kinv_slots_frame [OF kinv_blank])
  show "cdt_wf (slots (boot_store c))"
    by (rule cdt_wf_cong [OF _ _ cdt_wf_empty]) (simp_all add: boot_store_slots detached_def)
qed (simp_all add: boot_store_def set_slot_def)

lemma boot_store_confined: "confined (slots (boot_store c))"
  by (auto simp: confined_def authority_mono_def mem_disjoint_def boot_store_slots split: if_splits)

lemma pair_store:
  assumes "\<not> cap_is_empty c" and "\<not> cap_is_empty c'"
  shows "kinv (pair_store c c')"
    and "slot_cap (slots (pair_store c c')) = [SlotId 1 \<mapsto> c, SlotId 2 \<mapsto> c']"
    and "desc (slots (pair_store c c')) (SlotId 1) (SlotId 2)"
proof -
  have e: "\<not> empty_slot (slots (boot_store c)) (SlotId 1)" "empty_slot (slots (boot_store c)) (SlotId 2)"
    using assms(1) by (simp_all add: boot_store_empty)
  note inst = install_child [OF kinvD(1) [OF boot_store_kinv] e assms(2)]
  have sl: "slots (pair_store c c') = cdt_insert_child (SlotId 1) (SlotId 2)
      ((slots (boot_store c))(SlotId 2 := (slots (boot_store c) (SlotId 2))\<lparr>cap := c'\<rparr>))"
    by (simp add: pair_store_def Let_def)
  show "kinv (pair_store c c')"
    by (rule kinv_slots_frame [OF boot_store_kinv [of c]])
       (use inst(1) sl in \<open>simp_all add: pair_store_def Let_def\<close>)
  have "slot_cap (slots (boot_store c)) = [SlotId 1 \<mapsto> c]"
    using assms(1) by (auto simp: slot_cap_def boot_store_slots)
  then show "slot_cap (slots (pair_store c c')) = [SlotId 1 \<mapsto> c, SlotId 2 \<mapsto> c']"
    using inst(2) by (simp add: sl)
  show "desc (slots (pair_store c c')) (SlotId 1) (SlotId 2)"
    using inst(3) by (simp add: sl)
qed

lemmas notif_pair = pair_store [OF notif_cap_nonempty notif_cap_nonempty]

theorem delete_sound_witness:
  "\<exists>s'. delete (SlotId 1) (pair_store notif_cap notif_cap) = Some s' \<and> kinv s' \<and>
     slot_cap (slots s') (SlotId 1) = None"
proof -
  have "slot_cap (slots (pair_store notif_cap notif_cap)) (SlotId 1) \<noteq> None"
    by (simp add: notif_pair del: slot_cap_None)
  then have "\<not> empty_slot (slots (pair_store notif_cap notif_cap)) (SlotId 1)" by simp
  from delete_sound [OF notif_pair(1) this] show ?thesis by blast
qed

theorem revoke_complete_witness:
  "\<exists>s'. revoke (SlotId 1) (pair_store notif_cap notif_cap) = Some s' \<and>
     (slot_cap (slots s') (SlotId 1) = None \<or> slot_cap (slots s') (SlotId 2) = None)"
  using revoke_complete [OF notif_pair(1), of "SlotId 1"] notif_pair(3) by blast

theorem revoke_step_progress_witness:
  "\<exists>st s'. revoke_step (SlotId 1) 16 (pair_store notif_cap notif_cap) = Some (st, s') \<and> kinv s'"
  using revoke_step_progress [OF notif_pair(1), of "SlotId 1" 16] by blast

theorem derive_monotone_witness:
  "\<exists>r s'. derive (SlotId 1) (SlotId 2) 1 0 (boot_store notif_cap) = Some (r, s') \<and> kinv s'"
  using derive_monotone [OF boot_store_kinv [of notif_cap] boot_store_confined] by blast

theorem derive_refused_under_revoke_witness:
  "\<exists>s. revoking (slots s (SlotId 1)) \<and> derive (SlotId 2) (SlotId 3) 3 0 s = Some (Inl (), s)"
proof -
  let ?s0 = "pair_store notif_cap notif_cap"
  let ?s = "set_slot (SlotId 1) ((slots ?s0 (SlotId 1))\<lparr>revoking := True\<rparr>) ?s0"
  have k: "kinv ?s" and d: "desc (slots ?s) (SlotId 1) (SlotId 2)"
    using set_revoking_kinv [OF notif_pair(1)] notif_pair(3) by simp_all
  have r: "revoking (slots ?s (SlotId 1))" by (simp add: set_slot_def)
  from derive_refused_under_revoke [OF k r] d r show ?thesis by blast
qed


section \<open>Memory\<close>

definition small_platform :: platform where
  "small_platform = \<lparr>sz_cspace = 16, sz_capslot = 64, sz_channel = 128, sz_msgslot = 528, sz_tcb = 1024,
     sz_notif = 32, sz_timer = 64, off_msg_caps = 272, off_bind_slots = 512,
     kernel_l1 = (\<lambda>_. 0), page_mem = (\<lambda>_ _. 0)\<rparr>"

definition untyped_cap :: capability where
  "untyped_cap = \<lparr>kind = Untyped 0 65536 0, rights = RIGHTS_ALL\<rparr>"

lemma untyped_cap_nonempty [simp]: "\<not> cap_is_empty untyped_cap"
  by (simp add: cap_is_empty_iff untyped_cap_def)

lemma boot_untyped: "slot_cap (slots (boot_store untyped_cap)) (SlotId 1) = Some untyped_cap"
  by (simp add: slot_cap_def boot_store_slots)


theorem revoke_reset_reclaims_witness:
  "\<exists>s1. revoke (SlotId 1) (boot_store untyped_cap) = Some s1 \<and>
     (slot_cap (slots s1) (SlotId 1) = None \<or> (\<exists>s2. reset (SlotId 1) s1 = (Inr (), s2) \<and> kinv s2))"
  using revoke_reset_reclaims [OF boot_store_kinv boot_store_confined, of untyped_cap "SlotId 1"]
    boot_untyped unfolding untyped_cap_def by blast

theorem aspace_topup_sound_witness:
  "\<exists>s'. aspace_topup (SlotId 1) (ObjId 7) 2 (boot_store untyped_cap) = (Inr (), s') \<and> kinv s' \<and>
     length (asp_pool (aspaces s' (ObjId 7))) = 2"
proof -
  let ?s = "boot_store untyped_cap"
  have a: "asp_pool_base (aspaces ?s (ObjId 7)) = 0" "asp_pool (aspaces ?s (ObjId 7)) = []"
    "kind (cap (slots ?s (SlotId 1))) = Untyped 0 65536 0"
    by (simp_all add: boot_store_def set_slot_def blank_store_def init_defs untyped_cap_def)
  have "fst (aspace_topup (SlotId 1) (ObjId 7) 2 ?s) = Inr ()"
    by (simp add: aspace_topup_def a topup_carve_def carve_place_eq
        checked_mul_def checked_add_def PAGE_def Let_def)
  with aspace_topup_sound [OF boot_store_kinv [of untyped_cap] boot_store_confined, of "ObjId 7" 2 "SlotId 1"] a
  show ?thesis by (cases "aspace_topup (SlotId 1) (ObjId 7) 2 ?s") auto
qed

section \<open>Channels\<close>

text \<open>A channel of depth one whose ends are both held, beside one capability.\<close>

definition ring_slot :: "nat \<Rightarrow> nat \<Rightarrow> slot_id" where
  "ring_slot ring k = SlotId (of_nat (100 + 10 * ring + k))"

definition chan_store :: kstore where
  "chan_store = upd_chan (ObjId 5) (\<lambda>c. (channel_init 1 (\<lambda>ring i k. ring_slot ring k) (\<lambda>_ _ _. 0))
     \<lparr>chan_end_caps := (\<lambda>_. 1)\<rparr>) (boot_store notif_cap)"

lemma chan_store_slots [simp]: "slots chan_store = slots (boot_store notif_cap)"
  by (simp add: chan_store_def upd_chan_def)

lemma chan_store_kinv: "kinv chan_store"
  by (rule kinv_slots_frame [OF boot_store_kinv [of notif_cap]])
     (simp_all add: kinvD(1) [OF boot_store_kinv], simp_all add: chan_store_def upd_chan_def)

lemma chan_store_obj: "chans chan_store (ObjId 5) =
    (channel_init 1 (\<lambda>ring i k. ring_slot ring k) (\<lambda>_ _ _. 0))\<lparr>chan_end_caps := (\<lambda>_. 1)\<rparr>"
  by (simp add: chan_store_def upd_chan_def)

lemma ring_slot_addr:
  assumes "ring \<le> 1" and "k < MSG_CAPS"
  shows "unat (slot_raw (ring_slot ring k)) = 100 + 10 * ring + k"
  unfolding ring_slot_def slot_id.sel by (rule unat_of_nat_small) (use assms in \<open>auto simp: MSG_CAPS_def\<close>)

lemma ring_slot_distinct:
  assumes "ring \<le> 1" and "ring' \<le> 1" and "k < MSG_CAPS" and "k' < MSG_CAPS" and "ring_slot ring k = ring_slot ring' k'"
  shows "ring = ring' \<and> k = k'"
proof -
  have "100 + 10 * ring + k = 100 + 10 * ring' + k'"
    using ring_slot_addr assms by metis
  moreover have "ring = 0 \<or> ring = 1" "ring' = 0 \<or> ring' = 1" using assms(1,2) by auto
  ultimately show ?thesis using assms(3,4) by (elim disjE) (simp_all add: MSG_CAPS_def)
qed

lemma ring_slot_high: "ring \<le> 1 \<Longrightarrow> k < MSG_CAPS \<Longrightarrow> n < 100 \<Longrightarrow> ring_slot ring k \<noteq> SlotId n"
  using ring_slot_addr [of ring k] by (auto simp: word_less_nat_alt)

lemma chan_store_wf: "chan_wf chan_store (ObjId 5)"
proof -
  have "inj_on (\<lambda>(ring, i, k). chan_ring_cap (chans chan_store (ObjId 5)) ring i k)
      ({0, 1} \<times> {..<chan_depth (chans chan_store (ObjId 5))} \<times> {..<MSG_CAPS})"
    unfolding chan_store_obj
    by (auto simp: inj_on_def channel_init_def word_less_nat_alt unat_eq_0 dest: ring_slot_distinct [rotated -1])
  moreover have "empty_slot (slots chan_store) (ring_slot ring k)" if "ring \<in> {0, 1}" "k < MSG_CAPS" for ring k
    using ring_slot_high [OF _ that(2), of ring 1] that(1) by (auto simp: boot_store_empty)
  ultimately show ?thesis
    unfolding chan_wf_def by (simp add: chan_store_obj channel_init_def MSG_PAYLOAD_def)
qed

lemma chan_store_apart: "SlotId n \<notin> ring_slots (chans chan_store (ObjId 5))" if "n < 100"
  using ring_slot_high [OF _ _ that] unfolding ring_slots_def chan_store_obj
  by (auto simp: channel_init_def dest: sym)

lemma chan_store_fields [simp]:
  "chan_end_caps (chans chan_store (ObjId 5)) e = 1" "chan_count (chans chan_store (ObjId 5)) e = 0"
  "chan_depth (chans chan_store (ObjId 5)) = 1"
  by (simp_all add: chan_store_obj channel_init_def)

lemma chan_store_msgs [simp]: "ring_msgs chan_store (ObjId 5) ring = []"
  by (simp add: ring_msgs_def)

lemma chan_store_confined: "confined (slots chan_store)"
  by (simp add: boot_store_confined)

theorem send_appends_witness:
  "\<exists>s'. send (ObjId 5) EndA [7, 8] [Some (SlotId 1), None, None, None] chan_store = Some (Inr (), s') \<and> kinv s' \<and>
     ring_msgs s' (ObjId 5) 0 = [([7, 8], [Some notif_cap, None, None, None])]"
proof -
  let ?caps = "[Some (SlotId 1), None, None, None]"
  have src: "\<forall>k. Some k \<in> set ?caps \<longrightarrow> k \<notin> ring_slots (chans chan_store (ObjId 5))"
    using chan_store_apart [of 1] by simp
  have len: "length ?caps = MSG_CAPS" "length [7 :: u8, 8] \<le> MSG_PAYLOAD" by (simp_all add: MSG_CAPS_def MSG_PAYLOAD_def)
  have t: "fst (take_caps (slot_cap (slots chan_store)) ?caps) = [Some notif_cap, None, None, None]"
    by (simp add: slot_cap_def boot_store_slots case_prod_unfold)
  show ?thesis
    using send_appends [OF chan_store_kinv chan_store_confined chan_store_wf len src, of EndA] t
    unfolding Let_def case_prod_unfold chan_store_fields chan_store_msgs by (auto simp: end_idx_def)
qed

theorem recv_pops_witness:
  "recv (ObjId 5) EndB (replicate 256 0) [Some (SlotId 2), None, None, None] chan_store =
     Some (Inl ChanEmpty, chan_store)"
proof -
  let ?dests = "[Some (SlotId 2), None, None, None]"
  have dst: "\<forall>k. Some k \<in> set ?dests \<longrightarrow> k \<notin> ring_slots (chans chan_store (ObjId 5))"
    using chan_store_apart [of 2] by simp
  have len: "length ?dests = MSG_CAPS" "length (replicate 256 (0 :: u8)) = MSG_PAYLOAD"
    "distinct (filter (\<lambda>d. d \<noteq> None) ?dests)" by (simp_all add: MSG_CAPS_def MSG_PAYLOAD_def)
  show ?thesis
    using recv_pops [OF chan_store_kinv chan_store_confined chan_store_wf len dst, of EndB]
    by (simp only: Let_def chan_store_msgs list.case)
qed

end
