(* ===== verification/Sysabi.thy ===== *)
theory Sysabi
  imports Carve Kstore
begin

text \<open>
  The system-call boundary: the kernel's decoder of the register file (\<open>kcore/src/sysabi.rs\<close>)
  and the encoder of the user-space library (\<open>eunomia-sys/src/encode.rs\<close>). The seven
  argument registers are a list. The two sides are written independently, each with its own
  range checks; the theorems say that they agree.
\<close>

section \<open>The kernel side\<close>

definition NO_PRIO_CEILING :: u8 where "NO_PRIO_CEILING = 0xFF"
definition DEBUG_WRITE_MAX :: u64 where "DEBUG_WRITE_MAX = 1024"

datatype sys =
    SysDebugPutc u64
  | SysDebugWrite u64 u64
  | SysYield
  | SysRetype u64 obj_type u64 u64 u64
  | SysCapCopy u64 u64 u64 u64
  | SysCapDelete u64
  | SysCapRevoke u64
  | SysCapInstall u64 u64 u64
  | SysChanSend u64 u64 u64 u64
  | SysChanRecv u64 u64 u64
  | SysChanBind u64 nat u64 u64
  | SysNotifSignal u64 u64
  | SysNotifWait u64
  | SysThreadStart u64 u64 u64 u64 u8 u64
  | SysTimerArm u64 u64 u64 u64
  | SysThreadExit u64
  | SysMap u64 u64 u64 u64
  | SysFrameWrite u64 u64 u64 u64
  | SysThreadStartAs u64 u64 u64 u64 u64 u8 u64
  | SysFramePaddr u64
  | SysThreadBind u64 nat u64 u64
  | SysReadReport u64
  | SysUntypedReset u64
  | SysAspaceTopUp u64 u64 u64
  | SysIrqBind u64 u64 u64
  | SysIrqAck u64

datatype sys_error = UnknownCall | BadObjType | MsgTooLong | BadEvent | BadWhich | BadPrio

definition decode_prio :: "u64 \<Rightarrow> sys_error + u8" where
  "decode_prio raw =
     (let prio = ucast (raw AND 0xFF) :: u8 in
      if NUM_PRIOS \<le> unat prio then Inl BadPrio else Inr prio)"

definition sys_decode :: "u64 \<Rightarrow> u64 list \<Rightarrow> sys_error + sys" where
  "sys_decode nr a =
     (if nr = 0 then Inr (SysDebugPutc (a ! 0))
      else if nr = 1 then Inr (SysDebugWrite (a ! 0) (a ! 1))
      else if nr = 2 then Inr SysYield
      else if nr = 3 then (case obj_type_from_u64 (a ! 1) of
           Some ty \<Rightarrow> Inr (SysRetype (a ! 0) ty (a ! 2) (a ! 3) (a ! 4))
         | None \<Rightarrow> Inl BadObjType)
      else if nr = 4 then Inr (SysCapCopy (a ! 0) (a ! 1) (a ! 2) (a ! 3))
      else if nr = 5 then Inr (SysCapDelete (a ! 0))
      else if nr = 6 then Inr (SysCapRevoke (a ! 0))
      else if nr = 7 then Inr (SysCapInstall (a ! 0) (a ! 1) (a ! 2))
      else if nr = 8 then (if of_nat MSG_PAYLOAD < a ! 2 then Inl MsgTooLong
         else Inr (SysChanSend (a ! 0) (a ! 1) (a ! 2) (a ! 3)))
      else if nr = 9 then Inr (SysChanRecv (a ! 0) (a ! 1) (a ! 2))
      else if nr = 10 then (if 2 < a ! 1 then Inl BadEvent else Inr (SysChanBind (a ! 0) (unat (a ! 1)) (a ! 2) (a ! 3)))
      else if nr = 11 then Inr (SysNotifSignal (a ! 0) (a ! 1))
      else if nr = 12 then Inr (SysNotifWait (a ! 0))
      else if nr = 13 then (case decode_prio (a ! 4) of
           Inr prio \<Rightarrow> Inr (SysThreadStart (a ! 0) (a ! 1) (a ! 2) (a ! 3) prio (a ! 5))
         | Inl e \<Rightarrow> Inl e)
      else if nr = 14 then Inr (SysTimerArm (a ! 0) (a ! 1) (a ! 2) (a ! 3))
      else if nr = 15 then Inr (SysThreadExit (a ! 0))
      else if nr = 16 then Inr (SysMap (a ! 0) (a ! 1) (a ! 2) (a ! 3))
      else if nr = 17 then Inr (SysFrameWrite (a ! 0) (a ! 1) (a ! 2) (a ! 3))
      else if nr = 18 then (case decode_prio (a ! 5) of
           Inr prio \<Rightarrow> Inr (SysThreadStartAs (a ! 0) (a ! 1) (a ! 2) (a ! 3) (a ! 4) prio (a ! 6))
         | Inl e \<Rightarrow> Inl e)
      else if nr = 19 then Inr (SysFramePaddr (a ! 0))
      else if nr = 21 then (if 1 < a ! 1 then Inl BadWhich else Inr (SysThreadBind (a ! 0) (unat (a ! 1)) (a ! 2) (a ! 3)))
      else if nr = 22 then Inr (SysReadReport (a ! 0))
      else if nr = 23 then Inr (SysUntypedReset (a ! 0))
      else if nr = 24 then Inr (SysAspaceTopUp (a ! 0) (a ! 1) (a ! 2))
      else if nr = 25 then Inr (SysIrqBind (a ! 0) (a ! 1) (a ! 2))
      else if nr = 26 then Inr (SysIrqAck (a ! 0))
      else Inl UnknownCall)"

lemma sys_decode_simps:
  "sys_decode 0 a = Inr (SysDebugPutc (a ! 0))"
  "sys_decode 1 a = Inr (SysDebugWrite (a ! 0) (a ! 1))"
  "sys_decode 2 a = Inr SysYield"
  "sys_decode 3 a = (case obj_type_from_u64 (a ! 1) of
           Some ty \<Rightarrow> Inr (SysRetype (a ! 0) ty (a ! 2) (a ! 3) (a ! 4))
         | None \<Rightarrow> Inl BadObjType)"
  "sys_decode 4 a = Inr (SysCapCopy (a ! 0) (a ! 1) (a ! 2) (a ! 3))"
  "sys_decode 5 a = Inr (SysCapDelete (a ! 0))"
  "sys_decode 6 a = Inr (SysCapRevoke (a ! 0))"
  "sys_decode 7 a = Inr (SysCapInstall (a ! 0) (a ! 1) (a ! 2))"
  "sys_decode 8 a = (if of_nat MSG_PAYLOAD < a ! 2 then Inl MsgTooLong
         else Inr (SysChanSend (a ! 0) (a ! 1) (a ! 2) (a ! 3)))"
  "sys_decode 9 a = Inr (SysChanRecv (a ! 0) (a ! 1) (a ! 2))"
  "sys_decode 10 a = (if 2 < a ! 1 then Inl BadEvent else Inr (SysChanBind (a ! 0) (unat (a ! 1)) (a ! 2) (a ! 3)))"
  "sys_decode 11 a = Inr (SysNotifSignal (a ! 0) (a ! 1))"
  "sys_decode 12 a = Inr (SysNotifWait (a ! 0))"
  "sys_decode 13 a = (case decode_prio (a ! 4) of
           Inr prio \<Rightarrow> Inr (SysThreadStart (a ! 0) (a ! 1) (a ! 2) (a ! 3) prio (a ! 5))
         | Inl e \<Rightarrow> Inl e)"
  "sys_decode 14 a = Inr (SysTimerArm (a ! 0) (a ! 1) (a ! 2) (a ! 3))"
  "sys_decode 15 a = Inr (SysThreadExit (a ! 0))"
  "sys_decode 16 a = Inr (SysMap (a ! 0) (a ! 1) (a ! 2) (a ! 3))"
  "sys_decode 17 a = Inr (SysFrameWrite (a ! 0) (a ! 1) (a ! 2) (a ! 3))"
  "sys_decode 18 a = (case decode_prio (a ! 5) of
           Inr prio \<Rightarrow> Inr (SysThreadStartAs (a ! 0) (a ! 1) (a ! 2) (a ! 3) (a ! 4) prio (a ! 6))
         | Inl e \<Rightarrow> Inl e)"
  "sys_decode 19 a = Inr (SysFramePaddr (a ! 0))"
  "sys_decode 21 a = (if 1 < a ! 1 then Inl BadWhich else Inr (SysThreadBind (a ! 0) (unat (a ! 1)) (a ! 2) (a ! 3)))"
  "sys_decode 22 a = Inr (SysReadReport (a ! 0))"
  "sys_decode 23 a = Inr (SysUntypedReset (a ! 0))"
  "sys_decode 24 a = Inr (SysAspaceTopUp (a ! 0) (a ! 1) (a ! 2))"
  "sys_decode 25 a = Inr (SysIrqBind (a ! 0) (a ! 1) (a ! 2))"
  "sys_decode 26 a = Inr (SysIrqAck (a ! 0))"
  by (simp_all add: sys_decode_def)

section \<open>The user side\<close>

record encoded =
  enc_nr :: u64
  enc_a0 :: u64
  enc_a1 :: u64
  enc_a2 :: u64
  enc_a3 :: u64
  enc_a4 :: u64
  enc_a5 :: u64
  enc_a6 :: u64

datatype call_error = CallBadObjType | CallMsgTooLong | CallBadEvent | CallBadWhich | CallBadPrio

datatype sys_call =
    CallDebugPutc u64
  | CallDebugWrite u64 u64
  | CallYield
  | CallRetype u64 u64 u64 u64 u64
  | CallCapCopy u64 u64 u64 u64
  | CallCapDelete u64
  | CallCapRevoke u64
  | CallCapInstall u64 u64 u64
  | CallChanSend u64 u64 u64 u64
  | CallChanRecv u64 u64 u64
  | CallChanBind u64 u64 u64 u64
  | CallNotifSignal u64 u64
  | CallNotifWait u64
  | CallThreadStart u64 u64 u64 u64 u64 u64
  | CallTimerArm u64 u64 u64 u64
  | CallThreadExit u64
  | CallMap u64 u64 u64 u64
  | CallFrameWrite u64 u64 u64 u64
  | CallThreadStartAs u64 u64 u64 u64 u64 u64 u64
  | CallFramePaddr u64
  | CallThreadBind u64 u64 u64 u64
  | CallReadReport u64
  | CallUntypedReset u64
  | CallAspaceTopUp u64 u64 u64
  | CallIrqBind u64 u64 u64
  | CallIrqAck u64

definition ABI_MSG_PAYLOAD :: u64 where "ABI_MSG_PAYLOAD = 256"
definition ABI_NUM_PRIOS :: u64 where "ABI_NUM_PRIOS = 32"
definition OBJ_COUNT :: u64 where "OBJ_COUNT = 8"

fun sys_encode :: "sys_call \<Rightarrow> call_error + encoded" where
  "sys_encode (CallDebugPutc ch) = Inr \<lparr>enc_nr = 0, enc_a0 = ch, enc_a1 = 0, enc_a2 = 0, enc_a3 = 0, enc_a4 = 0, enc_a5 = 0, enc_a6 = 0\<rparr>"
| "sys_encode (CallDebugWrite ptr len) = Inr \<lparr>enc_nr = 1, enc_a0 = ptr, enc_a1 = len, enc_a2 = 0, enc_a3 = 0, enc_a4 = 0, enc_a5 = 0, enc_a6 = 0\<rparr>"
| "sys_encode CallYield = Inr \<lparr>enc_nr = 2, enc_a0 = 0, enc_a1 = 0, enc_a2 = 0, enc_a3 = 0, enc_a4 = 0, enc_a5 = 0, enc_a6 = 0\<rparr>"
| "sys_encode (CallRetype ut ty param dst dst2) = 
     (if OBJ_COUNT \<le> ty then Inl CallBadObjType else Inr \<lparr>enc_nr = 3, enc_a0 = ut, enc_a1 = ty, enc_a2 = param, enc_a3 = dst, enc_a4 = dst2, enc_a5 = 0, enc_a6 = 0\<rparr>)"
| "sys_encode (CallCapCopy src dst mask' prio_ceiling) = Inr \<lparr>enc_nr = 4, enc_a0 = src, enc_a1 = dst, enc_a2 = mask', enc_a3 = prio_ceiling, enc_a4 = 0, enc_a5 = 0, enc_a6 = 0\<rparr>"
| "sys_encode (CallCapDelete slot') = Inr \<lparr>enc_nr = 5, enc_a0 = slot', enc_a1 = 0, enc_a2 = 0, enc_a3 = 0, enc_a4 = 0, enc_a5 = 0, enc_a6 = 0\<rparr>"
| "sys_encode (CallCapRevoke slot') = Inr \<lparr>enc_nr = 6, enc_a0 = slot', enc_a1 = 0, enc_a2 = 0, enc_a3 = 0, enc_a4 = 0, enc_a5 = 0, enc_a6 = 0\<rparr>"
| "sys_encode (CallCapInstall cs src dst_index) = Inr \<lparr>enc_nr = 7, enc_a0 = cs, enc_a1 = src, enc_a2 = dst_index, enc_a3 = 0, enc_a4 = 0, enc_a5 = 0, enc_a6 = 0\<rparr>"
| "sys_encode (CallChanSend chan buf len caps) = 
     (if ABI_MSG_PAYLOAD < len then Inl CallMsgTooLong else Inr \<lparr>enc_nr = 8, enc_a0 = chan, enc_a1 = buf, enc_a2 = len, enc_a3 = caps, enc_a4 = 0, enc_a5 = 0, enc_a6 = 0\<rparr>)"
| "sys_encode (CallChanRecv chan buf dests) = Inr \<lparr>enc_nr = 9, enc_a0 = chan, enc_a1 = buf, enc_a2 = dests, enc_a3 = 0, enc_a4 = 0, enc_a5 = 0, enc_a6 = 0\<rparr>"
| "sys_encode (CallChanBind chan event notif bits) = 
     (if 2 < event then Inl CallBadEvent else Inr \<lparr>enc_nr = 10, enc_a0 = chan, enc_a1 = event, enc_a2 = notif, enc_a3 = bits, enc_a4 = 0, enc_a5 = 0, enc_a6 = 0\<rparr>)"
| "sys_encode (CallNotifSignal slot' bits) = Inr \<lparr>enc_nr = 11, enc_a0 = slot', enc_a1 = bits, enc_a2 = 0, enc_a3 = 0, enc_a4 = 0, enc_a5 = 0, enc_a6 = 0\<rparr>"
| "sys_encode (CallNotifWait slot') = Inr \<lparr>enc_nr = 12, enc_a0 = slot', enc_a1 = 0, enc_a2 = 0, enc_a3 = 0, enc_a4 = 0, enc_a5 = 0, enc_a6 = 0\<rparr>"
| "sys_encode (CallThreadStart tcb cspace entry sp prio arg) = 
     (if ABI_NUM_PRIOS \<le> prio then Inl CallBadPrio else Inr \<lparr>enc_nr = 13, enc_a0 = tcb, enc_a1 = cspace, enc_a2 = entry, enc_a3 = sp, enc_a4 = prio, enc_a5 = arg, enc_a6 = 0\<rparr>)"
| "sys_encode (CallTimerArm timer notif bits delta) = Inr \<lparr>enc_nr = 14, enc_a0 = timer, enc_a1 = notif, enc_a2 = bits, enc_a3 = delta, enc_a4 = 0, enc_a5 = 0, enc_a6 = 0\<rparr>"
| "sys_encode (CallThreadExit status) = Inr \<lparr>enc_nr = 15, enc_a0 = status, enc_a1 = 0, enc_a2 = 0, enc_a3 = 0, enc_a4 = 0, enc_a5 = 0, enc_a6 = 0\<rparr>"
| "sys_encode (CallMap aspace frame va perms) = Inr \<lparr>enc_nr = 16, enc_a0 = aspace, enc_a1 = frame, enc_a2 = va, enc_a3 = perms, enc_a4 = 0, enc_a5 = 0, enc_a6 = 0\<rparr>"
| "sys_encode (CallFrameWrite frame off buf len) = Inr \<lparr>enc_nr = 17, enc_a0 = frame, enc_a1 = off, enc_a2 = buf, enc_a3 = len, enc_a4 = 0, enc_a5 = 0, enc_a6 = 0\<rparr>"
| "sys_encode (CallThreadStartAs tcb cspace aspace entry sp prio arg) = 
     (if ABI_NUM_PRIOS \<le> prio then Inl CallBadPrio else Inr \<lparr>enc_nr = 18, enc_a0 = tcb, enc_a1 = cspace, enc_a2 = aspace, enc_a3 = entry, enc_a4 = sp, enc_a5 = prio, enc_a6 = arg\<rparr>)"
| "sys_encode (CallFramePaddr slot') = Inr \<lparr>enc_nr = 19, enc_a0 = slot', enc_a1 = 0, enc_a2 = 0, enc_a3 = 0, enc_a4 = 0, enc_a5 = 0, enc_a6 = 0\<rparr>"
| "sys_encode (CallThreadBind tcb which notif bits) = 
     (if 1 < which then Inl CallBadWhich else Inr \<lparr>enc_nr = 21, enc_a0 = tcb, enc_a1 = which, enc_a2 = notif, enc_a3 = bits, enc_a4 = 0, enc_a5 = 0, enc_a6 = 0\<rparr>)"
| "sys_encode (CallReadReport tcb) = Inr \<lparr>enc_nr = 22, enc_a0 = tcb, enc_a1 = 0, enc_a2 = 0, enc_a3 = 0, enc_a4 = 0, enc_a5 = 0, enc_a6 = 0\<rparr>"
| "sys_encode (CallUntypedReset slot') = Inr \<lparr>enc_nr = 23, enc_a0 = slot', enc_a1 = 0, enc_a2 = 0, enc_a3 = 0, enc_a4 = 0, enc_a5 = 0, enc_a6 = 0\<rparr>"
| "sys_encode (CallAspaceTopUp aspace ut pages) = Inr \<lparr>enc_nr = 24, enc_a0 = aspace, enc_a1 = ut, enc_a2 = pages, enc_a3 = 0, enc_a4 = 0, enc_a5 = 0, enc_a6 = 0\<rparr>"
| "sys_encode (CallIrqBind irq notif bits) = Inr \<lparr>enc_nr = 25, enc_a0 = irq, enc_a1 = notif, enc_a2 = bits, enc_a3 = 0, enc_a4 = 0, enc_a5 = 0, enc_a6 = 0\<rparr>"
| "sys_encode (CallIrqAck irq) = Inr \<lparr>enc_nr = 26, enc_a0 = irq, enc_a1 = 0, enc_a2 = 0, enc_a3 = 0, enc_a4 = 0, enc_a5 = 0, enc_a6 = 0\<rparr>"

section \<open>The correspondence of the two sides\<close>

text \<open>The system call a user call stands for; it is defined for the calls in range.\<close>

fun sys_of_call :: "sys_call \<Rightarrow> sys option" where
  "sys_of_call (CallDebugPutc ch) = Some (SysDebugPutc ch)"
| "sys_of_call (CallDebugWrite ptr len) = Some (SysDebugWrite ptr len)"
| "sys_of_call CallYield = Some SysYield"
| "sys_of_call (CallRetype ut ty param dst dst2) = map_option (\<lambda>ty. SysRetype ut ty param dst dst2) (obj_type_from_u64 ty)"
| "sys_of_call (CallCapCopy src dst mask' prio_ceiling) = Some (SysCapCopy src dst mask' prio_ceiling)"
| "sys_of_call (CallCapDelete slot') = Some (SysCapDelete slot')"
| "sys_of_call (CallCapRevoke slot') = Some (SysCapRevoke slot')"
| "sys_of_call (CallCapInstall cs src dst_index) = Some (SysCapInstall cs src dst_index)"
| "sys_of_call (CallChanSend chan buf len caps) = Some (SysChanSend chan buf len caps)"
| "sys_of_call (CallChanRecv chan buf dests) = Some (SysChanRecv chan buf dests)"
| "sys_of_call (CallChanBind chan event notif bits) = Some (SysChanBind chan (unat event) notif bits)"
| "sys_of_call (CallNotifSignal slot' bits) = Some (SysNotifSignal slot' bits)"
| "sys_of_call (CallNotifWait slot') = Some (SysNotifWait slot')"
| "sys_of_call (CallThreadStart tcb cspace entry sp prio arg) = Some (SysThreadStart tcb cspace entry sp (ucast prio) arg)"
| "sys_of_call (CallTimerArm timer notif bits delta) = Some (SysTimerArm timer notif bits delta)"
| "sys_of_call (CallThreadExit status) = Some (SysThreadExit status)"
| "sys_of_call (CallMap aspace frame va perms) = Some (SysMap aspace frame va perms)"
| "sys_of_call (CallFrameWrite frame off buf len) = Some (SysFrameWrite frame off buf len)"
| "sys_of_call (CallThreadStartAs tcb cspace aspace entry sp prio arg) = Some (SysThreadStartAs tcb cspace aspace entry sp (ucast prio) arg)"
| "sys_of_call (CallFramePaddr slot') = Some (SysFramePaddr slot')"
| "sys_of_call (CallThreadBind tcb which notif bits) = Some (SysThreadBind tcb (unat which) notif bits)"
| "sys_of_call (CallReadReport tcb) = Some (SysReadReport tcb)"
| "sys_of_call (CallUntypedReset slot') = Some (SysUntypedReset slot')"
| "sys_of_call (CallAspaceTopUp aspace ut pages) = Some (SysAspaceTopUp aspace ut pages)"
| "sys_of_call (CallIrqBind irq notif bits) = Some (SysIrqBind irq notif bits)"
| "sys_of_call (CallIrqAck irq) = Some (SysIrqAck irq)"

definition enc_regs :: "encoded \<Rightarrow> u64 list" where
  "enc_regs e = [enc_a0 e, enc_a1 e, enc_a2 e, enc_a3 e, enc_a4 e, enc_a5 e, enc_a6 e]"

text \<open>The ranges the rest of the kernel relies on.\<close>

fun sys_ok :: "sys \<Rightarrow> bool" where
  "sys_ok (SysChanSend chan buf len caps) \<longleftrightarrow> unat len \<le> MSG_PAYLOAD"
| "sys_ok (SysChanBind chan event notif bits) \<longleftrightarrow> event < 3"
| "sys_ok (SysThreadBind tcb which notif bits) \<longleftrightarrow> which < 2"
| "sys_ok (SysThreadStart tcb cspace entry sp prio arg) \<longleftrightarrow> unat prio < NUM_PRIOS"
| "sys_ok (SysThreadStartAs tcb cspace aspace entry sp prio arg) \<longleftrightarrow> unat prio < NUM_PRIOS"
| "sys_ok _ \<longleftrightarrow> True"

lemma obj_type_from_u64_None: "obj_type_from_u64 v = None \<longleftrightarrow> 8 \<le> v"
proof -
  have "unat v < 8 \<longleftrightarrow> v \<in> {0, 1, 2, 3, 4, 5, 6, 7}"
  proof -
    have "unat v \<in> {0, 1, 2, 3, 4, 5, 6, 7} \<longleftrightarrow> v \<in> {0, 1, 2, 3, 4, 5, 6, 7}"
      by (simp add: word_unat_eq_iff)
    moreover have "unat v < 8 \<longleftrightarrow> unat v \<in> {0, 1, 2, 3, 4, 5, 6, 7}" by auto
    ultimately show ?thesis by blast
  qed
  then show ?thesis by (auto simp: obj_type_from_u64_def word_le_nat_alt not_le [symmetric])
qed

lemma decode_prio_small:
  assumes "prio < 32"
  shows "decode_prio prio = Inr (ucast prio)"
proof -
  have m: "prio AND 0xFF = take_bit 8 prio" unfolding take_bit_eq_mask by (simp add: mask_eq_exp_minus_1)
  have "prio AND 0xFF = prio"
    unfolding m word_unat_eq_iff using assms by (simp add: take_bit_eq_mod unat_mod word_less_nat_alt)
  moreover have "unat (ucast prio :: u8) = unat prio"
    using assms by (simp add: unsigned_ucast_eq word_less_nat_alt take_bit_eq_mod)
  ultimately show ?thesis using assms by (simp add: decode_prio_def Let_def NUM_PRIOS_def word_less_nat_alt)
qed

text \<open>A call for every system call in range.\<close>

fun obj_code :: "obj_type \<Rightarrow> u64" where
  "obj_code ObjCSpace = 0"
| "obj_code ObjThread = 1"
| "obj_code ObjChannel = 2"
| "obj_code ObjNotification = 3"
| "obj_code ObjTimer = 4"
| "obj_code ObjFrame = 5"
| "obj_code ObjAspace = 6"
| "obj_code ObjUntyped = 7"

fun call_of_sys :: "sys \<Rightarrow> sys_call" where
  "call_of_sys (SysDebugPutc ch) = CallDebugPutc ch"
| "call_of_sys (SysDebugWrite ptr len) = CallDebugWrite ptr len"
| "call_of_sys SysYield = CallYield"
| "call_of_sys (SysRetype ut ty param dst dst2) = CallRetype ut (obj_code ty) param dst dst2"
| "call_of_sys (SysCapCopy src dst mask' prio_ceiling) = CallCapCopy src dst mask' prio_ceiling"
| "call_of_sys (SysCapDelete slot') = CallCapDelete slot'"
| "call_of_sys (SysCapRevoke slot') = CallCapRevoke slot'"
| "call_of_sys (SysCapInstall cs src dst_index) = CallCapInstall cs src dst_index"
| "call_of_sys (SysChanSend chan buf len caps) = CallChanSend chan buf len caps"
| "call_of_sys (SysChanRecv chan buf dests) = CallChanRecv chan buf dests"
| "call_of_sys (SysChanBind chan event notif bits) = CallChanBind chan (of_nat event) notif bits"
| "call_of_sys (SysNotifSignal slot' bits) = CallNotifSignal slot' bits"
| "call_of_sys (SysNotifWait slot') = CallNotifWait slot'"
| "call_of_sys (SysThreadStart tcb cspace entry sp prio arg) = CallThreadStart tcb cspace entry sp (ucast prio) arg"
| "call_of_sys (SysTimerArm timer notif bits delta) = CallTimerArm timer notif bits delta"
| "call_of_sys (SysThreadExit status) = CallThreadExit status"
| "call_of_sys (SysMap aspace frame va perms) = CallMap aspace frame va perms"
| "call_of_sys (SysFrameWrite frame off buf len) = CallFrameWrite frame off buf len"
| "call_of_sys (SysThreadStartAs tcb cspace aspace entry sp prio arg) = CallThreadStartAs tcb cspace aspace entry sp (ucast prio) arg"
| "call_of_sys (SysFramePaddr slot') = CallFramePaddr slot'"
| "call_of_sys (SysThreadBind tcb which notif bits) = CallThreadBind tcb (of_nat which) notif bits"
| "call_of_sys (SysReadReport tcb) = CallReadReport tcb"
| "call_of_sys (SysUntypedReset slot') = CallUntypedReset slot'"
| "call_of_sys (SysAspaceTopUp aspace ut pages) = CallAspaceTopUp aspace ut pages"
| "call_of_sys (SysIrqBind irq notif bits) = CallIrqBind irq notif bits"
| "call_of_sys (SysIrqAck irq) = CallIrqAck irq"

lemma obj_code_inverse [simp]: "obj_type_from_u64 (obj_code ty) = Some ty" "\<not> OBJ_COUNT \<le> obj_code ty"
  by (cases ty; simp add: obj_type_from_u64_def OBJ_COUNT_def word_le_nat_alt)+

lemma sys_encode_decode:
  assumes "sys_encode c = Inr e"
  shows "sys_of_call c = Some s \<Longrightarrow> sys_decode (enc_nr e) (enc_regs e) = Inr s" and "sys_of_call c \<noteq> None"
proof -
  have "sys_of_call c \<noteq> None \<and> sys_decode (enc_nr e) (enc_regs e) = Inr (the (sys_of_call c))"
  proof (cases c)
    case (CallRetype ut ty param dst dst2)
    then have "obj_type_from_u64 ty \<noteq> None"
      using assms by (simp add: obj_type_from_u64_None OBJ_COUNT_def split: if_splits)
    then show ?thesis
      using assms CallRetype by (auto simp: sys_decode_simps enc_regs_def split: if_splits)
  next
    case (CallThreadStart tcb cspace entry sp prio arg)
    then show ?thesis
      using assms decode_prio_small [of prio]
      by (auto simp: sys_decode_simps enc_regs_def ABI_NUM_PRIOS_def not_le split: if_splits)
  next
    case (CallThreadStartAs tcb cspace aspace entry sp prio arg)
    then show ?thesis
      using assms decode_prio_small [of prio]
      by (auto simp: sys_decode_simps enc_regs_def ABI_NUM_PRIOS_def not_le split: if_splits)
  qed (use assms in \<open>auto simp: sys_decode_simps enc_regs_def MSG_PAYLOAD_def ABI_MSG_PAYLOAD_def split: if_splits\<close>)
  then show "sys_of_call c = Some s \<Longrightarrow> sys_decode (enc_nr e) (enc_regs e) = Inr s" "sys_of_call c \<noteq> None" by auto
qed

lemma ucast_u8: "unat (ucast w :: u64) = unat w" "ucast (ucast w :: u64) = w" for w :: u8
proof -
  have "unat w < 2 ^ 64" using unsigned_less [of w, where 'a = nat] by simp
  then show u: "unat (ucast w :: u64) = unat w" by (simp add: unsigned_ucast_eq take_bit_nat_eq_self_iff)
  show "ucast (ucast w :: u64) = w" by (rule bit_word_eqI) (simp add: bit_simps)
qed

lemma sys_ok_encodable:
  assumes "sys_ok s"
  shows "\<exists>e. sys_encode (call_of_sys s) = Inr e \<and> sys_of_call (call_of_sys s) = Some s"
proof (cases s)
  case (SysChanBind chan event notif bits)
  then have "event \<in> {0, 1, 2}" using assms by auto
  then show ?thesis using SysChanBind by auto
next
  case (SysThreadBind tcb which notif bits)
  then have "which \<in> {0, 1}" using assms by auto
  then show ?thesis using SysThreadBind by auto
next
  case (SysThreadStart tcb cspace entry sp prio arg)
  then have "\<not> ABI_NUM_PRIOS \<le> ucast prio" "ucast (ucast prio :: u64) = prio"
    using assms by (auto simp: ABI_NUM_PRIOS_def NUM_PRIOS_def word_le_nat_alt ucast_u8)
  then show ?thesis using SysThreadStart by simp
next
  case (SysThreadStartAs tcb cspace aspace entry sp prio arg)
  then have "\<not> ABI_NUM_PRIOS \<le> ucast prio" "ucast (ucast prio :: u64) = prio"
    using assms by (auto simp: ABI_NUM_PRIOS_def NUM_PRIOS_def word_le_nat_alt ucast_u8)
  then show ?thesis using SysThreadStartAs by simp
qed (use assms in \<open>auto simp: ABI_MSG_PAYLOAD_def MSG_PAYLOAD_def word_less_nat_alt\<close>)

lemma decode_prio_ok: "decode_prio raw = Inr p \<Longrightarrow> unat p < NUM_PRIOS"
  by (auto simp: decode_prio_def Let_def split: if_splits)

lemma sys_nr_cases:
  fixes nr :: u64
  assumes "unat nr < 27"
  shows "nr \<in> {0, 1, 2, 3, 4, 5, 6, 7, 8, 9, 10, 11, 12, 13, 14, 15, 16, 17, 18, 19, 20, 21, 22, 23, 24, 25, 26}"
proof -
  have "set [0..<27] = {0, 1, 2, 3, 4, 5, 6, 7, 8, 9, 10, 11, 12, 13, 14, 15, 16, 17, 18, 19, 20, 21, 22, 23, 24, 25, 26 :: nat}"
    by code_simp
  moreover have "unat nr \<in> set [0..<27]" using assms by simp
  ultimately show ?thesis by (simp only: insert_iff empty_iff word_unat_eq_iff) simp
qed

lemma sys_decode_unknown: "27 \<le> nr \<or> nr = 20 \<Longrightarrow> sys_decode nr a = Inl UnknownCall"
proof (elim disjE)
  assume "27 \<le> nr"
  then have "nr \<noteq> 0" "nr \<noteq> 1" "nr \<noteq> 2" "nr \<noteq> 3" "nr \<noteq> 4" "nr \<noteq> 5" "nr \<noteq> 6" "nr \<noteq> 7" "nr \<noteq> 8" "nr \<noteq> 9"
    "nr \<noteq> 10" "nr \<noteq> 11" "nr \<noteq> 12" "nr \<noteq> 13" "nr \<noteq> 14" "nr \<noteq> 15" "nr \<noteq> 16" "nr \<noteq> 17" "nr \<noteq> 18" "nr \<noteq> 19"
    "nr \<noteq> 20" "nr \<noteq> 21" "nr \<noteq> 22" "nr \<noteq> 23" "nr \<noteq> 24" "nr \<noteq> 25" "nr \<noteq> 26"
    by (auto simp: word_le_nat_alt)
  then show ?thesis by (simp add: sys_decode_def)
qed (simp add: sys_decode_def)

lemma sys_decode_ok: "sys_decode nr a = Inr s \<Longrightarrow> sys_ok s"
proof -
  assume d: "sys_decode nr a = Inr s"
  then have "unat nr < 27" using sys_decode_unknown [of nr a] by (force simp: word_le_nat_alt)
  note n = sys_nr_cases [OF this]
  have "sys_decode 20 a = Inl UnknownCall" by (rule sys_decode_unknown) simp
  then show ?thesis
    using n d
    by (elim insertE emptyE;
        auto simp: sys_decode_simps MSG_PAYLOAD_def word_less_nat_alt not_less dest: decode_prio_ok
          split: if_splits option.splits sum.splits)
qed


text \<open>
  C23: what the decoder can deliver. The system calls that come out of the decoder are
  exactly those whose message length, event, report selector and priority are in range,
  and each of them is the image of a call the user library can encode.
\<close>

theorem sys_decode_image:
  "(\<exists>nr a. length a = 7 \<and> sys_decode nr a = Inr s) = sys_ok s \<and>
   (\<exists>c e. sys_encode c = Inr e \<and> sys_of_call c = Some s) = sys_ok s"
proof -
  have "\<exists>nr a. length a = 7 \<and> sys_decode nr a = Inr s" if "sys_encode c = Inr e" "sys_of_call c = Some s" for c e
    using sys_encode_decode(1) [OF that] by (intro exI [of _ "enc_nr e"] exI [of _ "enc_regs e"]) (simp add: enc_regs_def)
  then show ?thesis using sys_ok_encodable sys_decode_ok by blast
qed


end
