(* ===== verification/Sched.thy ===== *)
theory Sched
  imports Ready
begin

text \<open>
  The scheduling decision at exception exit (\<open>maybe_switch\<close> of \<open>kernel/src/thread.rs\<close>):
  strict fixed priorities, round robin within a level on the tick. The trap frame on the
  kernel stack is an argument and a result; the thread whose translation tables are
  installed is the third component of the result (\<open>None\<close> when TTBR0 is left alone).

  \<open>cpu_wf\<close>: the queues are well formed, at most the current thread is \<open>Running\<close>, and its
  priority is one of the 32 levels. \<open>maybe_switch_priority\<close> is the scheduler's promise: the
  thread that leaves the exception is \<open>Running\<close> and no runnable thread outranks it.
\<close>

definition set_tcb_frame :: "obj_id \<Rightarrow> trap_frame \<Rightarrow> kstore \<Rightarrow> kstore" where
  [store_defs]: "set_tcb_frame t f = upd_tcb t (\<lambda>x. x\<lparr>tcb_frame := f\<rparr>)"

text \<open>The tail of \<open>maybe_switch\<close>: take the head of the chosen level and make it current.\<close>

definition switch_to :: "nat \<Rightarrow> trap_frame \<Rightarrow> kstore \<Rightarrow> trap_frame \<times> kstore \<times> obj_id option" where
  "switch_to lvl frame s =
     (case ready_take lvl s of
        None \<Rightarrow> (frame, s, None)
      | Some (nxt, s) \<Rightarrow> (tcb_frame (tcbs s nxt), s\<lparr>current := Some nxt\<rparr>, Some nxt))"

definition maybe_switch ::
    "trap_frame \<Rightarrow> bool \<Rightarrow> kstore \<Rightarrow> trap_frame \<times> kstore \<times> obj_id option" where
  "maybe_switch frame preempt_equal s =
     (case top_ready s of
        None \<Rightarrow> (frame, s, None)
      | Some lvl \<Rightarrow>
          (case current s of
             None \<Rightarrow> switch_to lvl frame s
           | Some cur \<Rightarrow>
               if tcb_state (tcbs s cur) = Running
               then let cp = unat (tcb_priority (tcbs s cur)) in
                    if lvl < cp \<or> (lvl = cp \<and> \<not> preempt_equal) then (frame, s, None)
                    else switch_to lvl frame (ready_enqueue cur (set_tcb_frame cur frame s))
               else switch_to lvl frame (set_tcb_frame cur frame s)))"

definition cpu_wf :: "kstore \<Rightarrow> bool" where
  "cpu_wf s \<longleftrightarrow>
     sched_wf s \<and>
     (\<forall>t. tcb_state (tcbs s t) = Running \<longrightarrow>
        current s = Some t \<and> unat (tcb_priority (tcbs s t)) < NUM_PRIOS)"

lemma set_tcb_frame_rep:
  "sched_rep X s R W \<Longrightarrow> sched_rep X (set_tcb_frame t f s) R W"
  unfolding set_tcb_frame_def by (rule sched_rep_tcb_other) simp_all

lemma ready_take_fields:
  assumes "sched_rep {} s R W" and "l < NUM_PRIOS" and "ready_take l s = Some (t, s')"
  shows "tcb_state (tcbs s' x) = (if x = t then Running else tcb_state (tcbs s x))"
    and "tcb_priority (tcbs s' x) = tcb_priority (tcbs s x)"
    and "tcb_frame (tcbs s' x) = tcb_frame (tcbs s x)"
proof -
  obtain ys where R: "R l = t # ys"
    using assms ready_dequeue_empty [OF assms(1,2)] ready_dequeue_splice [OF assms(1,2)]
    by (cases "R l") (auto simp: ready_take_def)
  have s': "s' = set_tcb_state t Running (ready_splice t l None s)"
    using assms(3) by (simp add: ready_take_def ready_dequeue_splice [OF assms(1,2) R])
  show "tcb_state (tcbs s' x) = (if x = t then Running else tcb_state (tcbs s x))"
    "tcb_priority (tcbs s' x) = tcb_priority (tcbs s x)"
    "tcb_frame (tcbs s' x) = tcb_frame (tcbs s x)"
    by (simp_all add: s' store_defs)
qed

text \<open>A switch to the head of the highest non-empty level.\<close>

lemma switch_to_wf:
  assumes rep: "sched_rep {} s R W" and l: "l < NUM_PRIOS" and ne: "R l \<noteq> []"
    and top: "\<And>k. k < NUM_PRIOS \<Longrightarrow> l < k \<Longrightarrow> R k = []"
    and idle: "\<And>t. tcb_state (tcbs s t) \<noteq> Running"
    and r: "switch_to l frame s = (frame', s', a)"
  shows "cpu_wf s'"
    and "\<exists>t. current s' = Some t \<and> a = Some t \<and> t = hd (R l) \<and> tcb_state (tcbs s' t) = Running \<and>
          frame' = tcb_frame (tcbs s' t) \<and> unat (tcb_priority (tcbs s' t)) = l \<and>
          (\<forall>u. tcb_state (tcbs s' u) = Runnable \<longrightarrow> unat (tcb_priority (tcbs s' u)) \<le> l)"
proof -
  obtain t ys where R: "R l = t # ys" using ne by (cases "R l") auto
  obtain s1 where s1: "ready_take l s = Some (t, s1)" "sched_rep {} s1 (R(l := ys)) W"
    using ready_take_rep [OF rep l R] by blast
  note f = ready_take_fields [OF rep l s1(1)]
  have s': "s' = s1\<lparr>current := Some t\<rparr>" "a = Some t" "frame' = tcb_frame (tcbs s1 t)"
    using r s1(1) by (auto simp: switch_to_def)
  have "t \<in> set (R l)" using R by simp
  then have tl: "unat (tcb_priority (tcbs s t)) = l" using sched_repD(3) [OF rep l] by blast
  have "sched_rep {} s' (R(l := ys)) W"
    by (rule sched_rep_frame [OF s1(2)]) (simp_all add: s')
  then show "cpu_wf s'"
    using idle tl l by (auto simp: cpu_wf_def sched_wf_def s' f split: if_splits)
  have "unat (tcb_priority (tcbs s u)) \<le> l" if "tcb_state (tcbs s u) = Runnable" for u
  proof (rule ccontr)
    assume "\<not> unat (tcb_priority (tcbs s u)) \<le> l"
    moreover have "unat (tcb_priority (tcbs s u)) < NUM_PRIOS"
      using sched_repD(6) [OF rep, of u] that by simp
    ultimately show False
      using that sched_repD(3) [OF rep, of "unat (tcb_priority (tcbs s u))" u]
        top [of "unat (tcb_priority (tcbs s u))"] by simp
  qed
  then show "\<exists>t. current s' = Some t \<and> a = Some t \<and> t = hd (R l) \<and>
          tcb_state (tcbs s' t) = Running \<and>
          frame' = tcb_frame (tcbs s' t) \<and> unat (tcb_priority (tcbs s' t)) = l \<and>
          (\<forall>u. tcb_state (tcbs s' u) = Runnable \<longrightarrow> unat (tcb_priority (tcbs s' u)) \<le> l)"
    using tl R by (auto simp: s' f)
qed

lemma enqueue_running_rep:
  fixes frame
  assumes "cpu_wf s" and "sched_rep {} s R W" and "current s = Some cur"
    and "tcb_state (tcbs s cur) = Running"
  defines "cp \<equiv> unat (tcb_priority (tcbs s cur))"
  defines "s1 \<equiv> ready_enqueue cur (set_tcb_frame cur frame s)"
  shows "sched_rep {} s1 (R(cp := R cp @ [cur])) W"
    and "tcb_state (tcbs s1 t) \<noteq> Running" and "tcb_frame (tcbs s1 cur) = frame"
proof -
  have cp: "cp < NUM_PRIOS" using assms(1,4) by (simp add: cpu_wf_def cp_def)
  have "sched_rep {} (set_tcb_frame cur frame s) R W"
    using assms(2) by (rule set_tcb_frame_rep)
  from make_runnable_rep [OF this, of cp cur]
  show rep: "sched_rep {} s1 (R(cp := R cp @ [cur])) W"
    using cp assms(4) by (simp add: s1_def make_runnable_def ready_ok_def cp_def store_defs)
  have st: "tcb_state (tcbs s t) = Running \<Longrightarrow> t = cur" for t
    using assms(1,3) by (auto simp: cpu_wf_def)
  show "tcb_state (tcbs s1 t) \<noteq> Running" "tcb_frame (tcbs s1 cur) = frame"
    using st [of t] by (auto simp: s1_def store_defs)
qed

lemma maybe_switch_switches:
  assumes wf: "cpu_wf s" and top: "top_ready s = Some l"
    and go: "\<And>c. current s = Some c \<Longrightarrow> tcb_state (tcbs s c) = Running \<Longrightarrow>
        unat (tcb_priority (tcbs s c)) < l \<or> unat (tcb_priority (tcbs s c)) = l \<and> pe"
    and r: "maybe_switch frame pe s = (frame', s', a)"
  shows "cpu_wf s' \<and> (\<exists>t. current s' = Some t \<and> a = Some t \<and> tcb_state (tcbs s' t) = Running \<and>
      frame' = tcb_frame (tcbs s' t) \<and> unat (tcb_priority (tcbs s' t)) = l \<and>
      t = hd (ready_items l s) \<and>
      (\<forall>u. tcb_state (tcbs s' u) = Runnable \<longrightarrow> unat (tcb_priority (tcbs s' u)) \<le> l))"
proof -
  obtain R W where rep: "sched_rep {} s R W" using wf by (auto simp: cpu_wf_def sched_wf_def)
  have l: "l < NUM_PRIOS" and ne: "R l \<noteq> []" and hi: "\<And>k. k < NUM_PRIOS \<Longrightarrow> l < k \<Longrightarrow> R k = []"
    using top top_ready_Some [OF rep] by auto
  note items = ready_items_rep [OF rep l]
  show ?thesis
  proof (cases "\<exists>c. current s = Some c \<and> tcb_state (tcbs s c) = Running")
    case True
    then obtain c where c: "current s = Some c" "tcb_state (tcbs s c) = Running" by blast
    note e = enqueue_running_rep [OF wf rep c, where frame = frame]
    let ?s1 = "ready_enqueue c (set_tcb_frame c frame s)" and ?cp = "unat (tcb_priority (tcbs s c))"
    have "\<not> (l < ?cp \<or> l = ?cp \<and> \<not> pe)" using go [OF c] by linarith
    then have "maybe_switch frame pe s = switch_to l frame ?s1"
      unfolding maybe_switch_def top c Let_def option.case if_P [OF refl] by (rule if_not_P)
    with r have "switch_to l frame ?s1 = (frame', s', a)" by simp
    moreover have "(R(?cp := R ?cp @ [c])) k = []" if "k < NUM_PRIOS" "l < k" for k
      using that hi [OF that] go [OF c] by (cases "k = ?cp") simp_all
    moreover have "(R(?cp := R ?cp @ [c])) l \<noteq> []" using ne by simp
    ultimately have "cpu_wf s'" and
      sw: "\<exists>t. current s' = Some t \<and> a = Some t \<and> t = hd ((R(?cp := R ?cp @ [c])) l) \<and>
          tcb_state (tcbs s' t) = Running \<and>
          frame' = tcb_frame (tcbs s' t) \<and> unat (tcb_priority (tcbs s' t)) = l \<and>
          (\<forall>u. tcb_state (tcbs s' u) = Runnable \<longrightarrow> unat (tcb_priority (tcbs s' u)) \<le> l)"
      using switch_to_wf [OF e(1) l _ _ e(2)] by blast+
    moreover have "hd ((R(?cp := R ?cp @ [c])) l) = hd (R l)" using ne by (cases "l = ?cp") auto
    ultimately show ?thesis unfolding items by metis
  next
    case False
    then have idle: "tcb_state (tcbs s t) \<noteq> Running" for t
      using wf unfolding cpu_wf_def by blast
    obtain s1 where s1: "switch_to l frame s1 = (frame', s', a)" "sched_rep {} s1 R W"
      "\<And>t. tcb_state (tcbs s1 t) \<noteq> Running"
    proof (cases "current s")
      case None
      then show ?thesis using r top rep idle that [of s] by (simp add: maybe_switch_def)
    next
      case (Some c)
      then show ?thesis
        using r top idle set_tcb_frame_rep [OF rep] that [of "set_tcb_frame c frame s"]
        by (simp add: maybe_switch_def store_defs)
    qed
    show ?thesis
      using switch_to_wf [OF s1(2) l ne hi s1(3,1)] by (simp add: items)
  qed
qed

lemma maybe_switch_stays:
  assumes wf: "cpu_wf s" and r: "maybe_switch frame pe s = (frame', s', None)"
  shows "s' = s"
    and "top_ready s = None \<or> (\<exists>l c. top_ready s = Some l \<and> current s = Some c \<and>
          tcb_state (tcbs s c) = Running \<and> l \<le> unat (tcb_priority (tcbs s c)))"
proof -
  have sw: "switch_to l frame s1 \<noteq> (frame', s', None)"
    if "l < NUM_PRIOS" "sched_rep {} s1 R W" "R l \<noteq> []" for l s1 R W
    using ready_take_rep [OF that(2,1)] that(3) by (cases "R l") (fastforce simp: switch_to_def)+
  obtain R W where rep: "sched_rep {} s R W" using wf by (auto simp: cpu_wf_def sched_wf_def)
  have "s' = s \<and> (top_ready s = None \<or> (\<exists>l c. top_ready s = Some l \<and> current s = Some c \<and>
          tcb_state (tcbs s c) = Running \<and> l \<le> unat (tcb_priority (tcbs s c))))"
  proof (cases "top_ready s")
    case None
    then show ?thesis using r by (simp add: maybe_switch_def)
  next
    case (Some l)
    then have l: "l < NUM_PRIOS" "R l \<noteq> []" using top_ready_Some [OF rep] by auto
    have cur: "sched_rep {} (set_tcb_frame c frame s) R W" for c using rep by (rule set_tcb_frame_rep)
    have enq: "switch_to l frame (ready_enqueue c (set_tcb_frame c frame s)) \<noteq> (frame', s', None)"
      if c: "current s = Some c" "tcb_state (tcbs s c) = Running" for c
      using sw [OF l(1) enqueue_running_rep(1) [OF wf rep c]] l(2) by simp
    show ?thesis
      using r Some sw [OF l(1) rep l(2)] sw [OF l(1) cur l(2)] enq
      by (cases "current s") (auto simp: maybe_switch_def Let_def split: if_splits)
  qed
  then show "s' = s" and "top_ready s = None \<or> (\<exists>l c. top_ready s = Some l \<and> current s = Some c \<and>
          tcb_state (tcbs s c) = Running \<and> l \<le> unat (tcb_priority (tcbs s c)))" by auto
qed

lemma sched_rep_boot_thread:
  "sched_rep {} (make_runnable (ObjId 1) blank_store) ((\<lambda>_. [])(0 := [ObjId 1])) (\<lambda>_. [])"
proof -
  have "ready_ok 0 (ObjId 1) blank_store"
    by (simp add: ready_ok_def blank_store_def store_init_def tcb_empty_def)
  then show ?thesis using make_runnable_rep [OF sched_rep_blank] by (simp add: NUM_PRIOS_def)
qed

lemma cpu_wf_boot_thread: "cpu_wf (make_runnable (ObjId 1) blank_store)"
  using sched_rep_boot_thread
  by (auto simp: cpu_wf_def sched_wf_def make_runnable_def blank_store_def store_init_def tcb_empty_def)

text \<open>
  C8: After the scheduling decision the current thread is \<open>Running\<close>, the returned frame is
  its frame whenever a switch happened, and no runnable thread has a higher priority:
  the policy is strict fixed-priority scheduling, for the tick and for every other exit.
\<close>

theorem maybe_switch_priority:
  assumes "cpu_wf s"
    and "\<exists>t. tcb_state (tcbs s t) = Runnable \<or> tcb_state (tcbs s t) = Running"
    and "maybe_switch frame preempt_equal s = (frame', s', a)"
  shows "cpu_wf s' \<and>
    (\<exists>t. current s' = Some t \<and> tcb_state (tcbs s' t) = Running \<and>
         (a \<noteq> None \<longrightarrow> a = Some t \<and> frame' = tcb_frame (tcbs s' t)) \<and>
         (\<forall>u. tcb_state (tcbs s' u) = Runnable \<longrightarrow>
            tcb_priority (tcbs s' u) \<le> tcb_priority (tcbs s' t)))"
proof -
  obtain R W where rep: "sched_rep {} s R W"
    using assms(1) by (auto simp: cpu_wf_def sched_wf_def)
  have low: "\<exists>k. top_ready s = Some k \<and> unat (tcb_priority (tcbs s u)) \<le> k"
    if u: "tcb_state (tcbs s u) = Runnable" for u
  proof -
    have p: "unat (tcb_priority (tcbs s u)) < NUM_PRIOS" using sched_repD(6) [OF rep, of u] u by simp
    then have "u \<in> set (R (unat (tcb_priority (tcbs s u))))" using sched_repD(3) [OF rep p, of u] u by simp
    moreover from this p obtain k where k: "top_ready s = Some k"
      using top_ready_None [OF rep] by (cases "top_ready s") force+
    ultimately show ?thesis
      using top_ready_Some [OF rep, of k] p by (metis empty_iff empty_set not_le)
  qed
  show ?thesis
  proof (cases "a = None")
    case True
    note stay = maybe_switch_stays [OF assms(1) assms(3) [unfolded True]]
    have "\<exists>t. tcb_state (tcbs s t) = Running"
      using assms(2) low stay(2) by (metis option.distinct(1))
    then obtain c where c: "current s = Some c" "tcb_state (tcbs s c) = Running"
      using assms(1) by (auto simp: cpu_wf_def)
    moreover have "tcb_priority (tcbs s u) \<le> tcb_priority (tcbs s c)"
      if "tcb_state (tcbs s u) = Runnable" for u
      using low [OF that] stay(2) c by (fastforce simp: word_le_nat_alt)
    ultimately show ?thesis using assms(1) stay(1) True by blast
  next
    case False
    obtain l where l: "top_ready s = Some l"
      using assms(3) False by (cases "top_ready s") (auto simp: maybe_switch_def)
    have "unat (tcb_priority (tcbs s c)) < l \<or> unat (tcb_priority (tcbs s c)) = l \<and> preempt_equal"
      if "current s = Some c" "tcb_state (tcbs s c) = Running" for c
      using assms(3) False l that by (auto simp: maybe_switch_def Let_def split: if_splits)
    from maybe_switch_switches [OF assms(1) l this assms(3)]
    show ?thesis by (metis word_le_nat_alt)
  qed
qed

theorem maybe_switch_priority_witness:
  "\<exists>t. current (fst (snd (maybe_switch tf_zeroed False (make_runnable (ObjId 1) blank_store)))) = Some t"
proof -
  let ?s = "make_runnable (ObjId 1) blank_store"
  obtain f s' a where r: "maybe_switch tf_zeroed False ?s = (f, s', a)" by (metis prod_cases3)
  have "\<exists>t. tcb_state (tcbs ?s t) = Runnable \<or> tcb_state (tcbs ?s t) = Running"
    by (rule exI [of _ "ObjId 1"]) (simp add: make_runnable_def)
  from maybe_switch_priority [OF cpu_wf_boot_thread this r] r show ?thesis by auto
qed

end
