(* ===== verification/Paging.thy ===== *)
theory Paging
  imports Aspace
begin

text \<open>
  What the page-table walker promises. A well-formed address space (\<open>pt_wf\<close>) is a tree:
  every valid descriptor of a user level-1 entry or of a level-2 table leads to a table of
  the pool that was handed out, and no table is reached in two ways. The abstraction of
  an address space is \<open>leaf\<close>, the descriptor a user address ends at; mapping and unmapping
  change exactly the leaves of the pages they name, and the check of a user range decides
  exactly whether all of its pages are mapped.
\<close>

section \<open>The tree of tables\<close>

definition l2t :: "aspace_obj \<Rightarrow> nat \<Rightarrow> nat option" where
  "l2t a i =
     (if asp_l1_tab a i AND DESC_TABLE = DESC_TABLE
      then pool_index (asp_pool_base a) (length (asp_pool a)) (asp_l1_tab a i) else None)"

definition l3t :: "aspace_obj \<Rightarrow> nat \<Rightarrow> nat \<Rightarrow> nat option" where
  "l3t a i j =
     (case l2t a i of
        None \<Rightarrow> None
      | Some t \<Rightarrow>
          if (asp_pool a ! t) j AND DESC_TABLE = DESC_TABLE
          then pool_index (asp_pool_base a) (length (asp_pool a)) ((asp_pool a ! t) j) else None)"

datatype node = L2 nat | L3 nat nat

fun tbl :: "aspace_obj \<Rightarrow> node \<Rightarrow> nat option" where
  "tbl a (L2 i) = l2t a i"
| "tbl a (L3 i j) = l3t a i j"

text \<open>Level-1 entries 0 and 1 are the kernel's; user addresses start behind them.\<close>

fun user_node :: "node \<Rightarrow> bool" where
  "user_node (L2 i) \<longleftrightarrow> 2 \<le> i"
| "user_node (L3 i j) \<longleftrightarrow> 2 \<le> i"

definition pt_wf :: "aspace_obj \<Rightarrow> bool" where
  "pt_wf a \<longleftrightarrow>
     4096 dvd unat (asp_pool_base a) \<and>
     unat (asp_pool_base a) + length (asp_pool a) * 4096 \<le> 2 ^ 48 \<and>
     unat (asp_pool_used a) \<le> length (asp_pool a) \<and>
     (\<forall>n t. user_node n \<longrightarrow> tbl a n = Some t \<longrightarrow> t < unat (asp_pool_used a)) \<and>
     (\<forall>n n' t. user_node n \<longrightarrow> user_node n' \<longrightarrow> tbl a n = Some t \<longrightarrow> tbl a n' = Some t \<longrightarrow> n = n') \<and>
     (\<forall>i. 2 \<le> i \<longrightarrow> asp_l1_tab a i AND DESC_TABLE = DESC_TABLE \<longrightarrow> l2t a i \<noteq> None) \<and>
     (\<forall>i j t. 2 \<le> i \<longrightarrow> l2t a i = Some t \<longrightarrow> (asp_pool a ! t) j AND DESC_TABLE = DESC_TABLE \<longrightarrow>
        l3t a i j \<noteq> None)"

lemma pt_wfD:
  assumes "pt_wf a"
  shows "4096 dvd unat (asp_pool_base a)"
    and "unat (asp_pool_base a) + length (asp_pool a) * 4096 \<le> 2 ^ 48"
    and "unat (asp_pool_used a) \<le> length (asp_pool a)"
    and "user_node n \<Longrightarrow> tbl a n = Some t \<Longrightarrow> t < unat (asp_pool_used a)"
    and "user_node n \<Longrightarrow> user_node n' \<Longrightarrow> tbl a n = Some t \<Longrightarrow> tbl a n' = Some t \<Longrightarrow> n = n'"
    and "2 \<le> i \<Longrightarrow> asp_l1_tab a i AND DESC_TABLE = DESC_TABLE \<Longrightarrow> l2t a i \<noteq> None"
    and "2 \<le> i \<Longrightarrow> l2t a i = Some t' \<Longrightarrow> (asp_pool a ! t') j AND DESC_TABLE = DESC_TABLE \<Longrightarrow> l3t a i j \<noteq> None"
  using assms unfolding pt_wf_def by blast+

lemma lookup_pt_tbl:
  "lookup_pt a va = map_option (\<lambda>u. (u, l3_index va)) (tbl a (L3 (l1_index va) (l2_index va)))"
  by (auto simp: lookup_pt_def l3t_def l2t_def Let_def split: option.splits)

definition leaf :: "aspace_obj \<Rightarrow> u64 \<Rightarrow> u64" where
  "leaf a va = (case lookup_pt a va of None \<Rightarrow> 0 | Some (l3, e) \<Rightarrow> (asp_pool a ! l3) e)"

definition user_va :: "u64 \<Rightarrow> bool" where
  "user_va va \<longleftrightarrow> USER_VA_BASE \<le> va \<and> va < USER_VA_END"

section \<open>Indices and descriptors\<close>

lemma unat_and_511: "unat (w AND 0x1FF :: u64) = unat w mod 512"
proof -
  have "w AND 0x1FF = take_bit 9 w"
    unfolding take_bit_eq_mask by (simp add: mask_eq_exp_minus_1)
  then show ?thesis by (simp add: take_bit_eq_mod unat_mod)
qed

lemma index_div:
  "l1_index va = unat va div 2 ^ 30 mod 512" "l2_index va = unat va div 2 ^ 21 mod 512"
  "l3_index va = unat va div 2 ^ 12 mod 512"
  unfolding l1_index_def l2_index_def l3_index_def unat_and_511
  by (simp_all add: drop_bit_eq_div unat_div)

lemma user_va_bounds: "user_va va \<longleftrightarrow> 2 ^ 31 \<le> unat va \<and> unat va < 2 ^ 39"
  by (simp add: user_va_def USER_VA_BASE_def USER_VA_END_def word_le_nat_alt word_less_nat_alt)

lemma user_va_index: "user_va va \<Longrightarrow> 2 \<le> l1_index va"
  unfolding user_va_bounds index_div by (auto simp: mod_less less_mult_imp_div_less div_le_mono)

lemma page_index:
  "unat v div 2 ^ 30 = unat v div 4096 div 2 ^ 18" "unat v div 2 ^ 21 = unat v div 4096 div 2 ^ 9"
  for v :: u64 by (simp_all add: div_mult2_eq [symmetric])

lemma same_page:
  assumes "user_va va" and "user_va va'"
  shows "l1_index va = l1_index va' \<and> l2_index va = l2_index va' \<and> l3_index va = l3_index va' \<longleftrightarrow>
    unat va div 4096 = unat va' div 4096"
proof -
  define x y where "x = unat va div 4096" and "y = unat va' div 4096"
  have "x < 2 ^ 27" "y < 2 ^ 27" using assms unfolding user_va_bounds x_def y_def by auto
  then have "x div 2 ^ 18 < 512" "y div 2 ^ 18 < 512" by auto
  moreover have "z = z div 2 ^ 18 * 2 ^ 18 + z div 2 ^ 9 mod 512 * 2 ^ 9 + z mod 512" for z :: nat
  proof -
    define q r p m where "q = z div 2 ^ 9" and "r = z mod 512" and "p = z div 2 ^ 18" and "m = q mod 512"
    have "z = q * 512 + r" by (simp add: q_def r_def)
    moreover have "q = p * 512 + m"
      using div_mult_mod_eq [of q 512] by (simp add: q_def p_def m_def div_mult2_eq [symmetric])
    ultimately have "z = p * 2 ^ 18 + m * 2 ^ 9 + r" by simp
    then show ?thesis unfolding m_def q_def p_def r_def .
  qed
  ultimately have "x div 2 ^ 18 mod 512 = y div 2 ^ 18 mod 512 \<and> x div 2 ^ 9 mod 512 = y div 2 ^ 9 mod 512 \<and>
      x mod 512 = y mod 512 \<longleftrightarrow> x = y"
    by (metis mod_less)
  then show ?thesis unfolding index_div page_index by (simp add: x_def y_def)
qed

lemma mask_low_bits:
  assumes "4096 dvd unat w" and "unat w < 2 ^ 48"
  shows "(w OR 3) AND ADDR_MASK = (w :: u64)" and "(w OR 3) AND 3 = 3"
proof -
  have z: "\<not> bit w i" if "i < 12 \<or> 48 \<le> i" for i
  proof
    assume b: "bit w i"
    have "bit (unat w) i" using b by (simp add: bit_unsigned_iff)
    then have o: "odd (unat w div 2 ^ i)" by (simp add: bit_iff_odd)
    show False
    proof (cases "i < 12")
      case True
      obtain k where k: "unat w = 4096 * k" using assms(1) by blast
      have "(4096 :: nat) = 2 ^ i * (2 * 2 ^ (11 - i))"
        using True by (simp flip: power_Suc power_add)
      then have "unat w = 2 ^ i * (2 * (2 ^ (11 - i) * k))" unfolding k by (simp add: mult.assoc)
      then show ?thesis using o by simp
    next
      case False
      then have "unat w < 2 ^ i"
        using that assms(2) by (meson less_le_trans one_le_numeral power_increasing)
      then show ?thesis using o by simp
    qed
  qed
  have m: "ADDR_MASK = push_bit 12 (mask 36)" by (simp add: ADDR_MASK_def mask_eq_exp_minus_1)
  have three: "(3 :: u64) = mask 2" by (simp add: mask_eq_exp_minus_1)
  show "(w OR 3) AND ADDR_MASK = w"
  proof (rule bit_eqI)
    fix n
    show "bit ((w OR 3) AND ADDR_MASK) n = bit w n"
      unfolding m three using z [of n] by (cases "n < 12 \<or> 48 \<le> n") (auto simp: bit_simps)
  qed
  show "(w OR 3) AND 3 = 3"
    unfolding three by (rule bit_eqI) (auto simp: bit_simps)
qed

text \<open>The descriptor \<open>walk_alloc\<close> writes for a table leads back to it.\<close>

lemma table_desc:
  assumes "pt_wf a" and "idx < length (asp_pool a)"
  shows "pool_index (asp_pool_base a) (length (asp_pool a)) (pa_of_table (asp_pool_base a) idx OR DESC_TABLE) = Some idx"
    and "(pa_of_table (asp_pool_base a) idx OR DESC_TABLE) AND DESC_TABLE = DESC_TABLE"
proof -
  let ?b = "asp_pool_base a" and ?w = "pa_of_table (asp_pool_base a) idx"
  note wf = pt_wfD(1,2) [OF assms(1)]
  have le: "unat ?b + idx * 4096 + 4096 \<le> 2 ^ 48" using wf(2) assms(2) by linarith
  have "unat (of_nat idx :: u64) = idx" by (rule unat_of_nat_small) (use le in simp)
  moreover have "idx * 4096 < 2 ^ 64" using le by simp
  ultimately have o: "unat (of_nat idx * PAGE) = idx * 4096"
    by (simp add: PAGE_def unat_word_ariths)
  have u: "unat ?w = unat ?b + idx * 4096"
    using le unfolding pa_of_table_def by (subst unat_word_ariths) (simp add: o)
  have al: "4096 dvd unat ?w" "unat ?w < 2 ^ 48" unfolding u using wf(1) le by auto
  note low = mask_low_bits [OF al]
  show "(?w OR DESC_TABLE) AND DESC_TABLE = DESC_TABLE" using low(2) by (simp add: DESC_TABLE_def)
  have "(?w - ?b) div PAGE = of_nat idx"
  proof -
    have "?w - ?b = of_nat idx * PAGE" by (simp add: pa_of_table_def)
    then have "unat ((?w - ?b) div PAGE) = idx" using o by (simp add: unat_div PAGE_def)
    then show ?thesis using \<open>unat (of_nat idx :: u64) = idx\<close> by (simp add: word_unat_eq_iff)
  qed
  moreover have "\<not> of_nat (length (asp_pool a)) \<le> (of_nat idx :: u64)"
  proof -
    have "length (asp_pool a) < 2 ^ 64" using wf(2) by simp
    then show ?thesis
      using unat_of_nat_small [of "length (asp_pool a)", where 'a = 64] \<open>unat (of_nat idx :: u64) = idx\<close> assms(2)
      by (simp add: word_le_nat_alt)
  qed
  moreover have "\<not> ?w < ?b" using u by (simp add: word_less_nat_alt)
  ultimately show "pool_index ?b (length (asp_pool a)) (?w OR DESC_TABLE) = Some idx"
    using low(1) \<open>unat (of_nat idx :: u64) = idx\<close> unfolding pool_index_def DESC_TABLE_def by (simp add: Let_def)
qed

section \<open>Allocating tables\<close>

text \<open>
  What allocation keeps: every table that was reachable stays where it was and as it was,
  and a leaf table that became reachable is blank.
\<close>

definition grows :: "aspace_obj \<Rightarrow> aspace_obj \<Rightarrow> bool" where
  "grows a a' \<longleftrightarrow>
     pt_wf a' \<and> asp_asid a' = asp_asid a \<and> asp_l1 a' = asp_l1 a \<and> asp_pool_base a' = asp_pool_base a \<and>
     length (asp_pool a') = length (asp_pool a) \<and>
     (\<forall>n t. user_node n \<longrightarrow> tbl a n = Some t \<longrightarrow> tbl a' n = Some t) \<and>
     (\<forall>i j u. 2 \<le> i \<longrightarrow> l3t a i j = Some u \<longrightarrow> asp_pool a' ! u = asp_pool a ! u) \<and>
     (\<forall>i j u e. 2 \<le> i \<longrightarrow> l3t a' i j = Some u \<longrightarrow> l3t a i j = None \<longrightarrow> (asp_pool a' ! u) e = 0)"

lemma grows_refl: "pt_wf a \<Longrightarrow> grows a a"
  by (simp add: grows_def)

lemma grows_trans:
  assumes "grows a b" and "grows b c"
  shows "grows a c"
proof -
  have up: "l3t b i j = Some u" if "2 \<le> i" "l3t a i j = Some u" for i j u
    using assms(1) that unfolding grows_def by (metis tbl.simps(2) user_node.simps(2))
  have "(asp_pool c ! u) e = 0" if "2 \<le> i" "l3t c i j = Some u" "l3t a i j = None" for i j u e
  proof (cases "l3t b i j")
    case None
    then show ?thesis using assms(2) that unfolding grows_def by blast
  next
    case (Some v)
    then have "l3t c i j = Some v"
      using assms(2) that(1) unfolding grows_def by (metis tbl.simps(2) user_node.simps(2))
    then have "asp_pool c ! u = asp_pool b ! u" "l3t b i j = Some u"
      using that Some assms(2) unfolding grows_def by auto
    then show ?thesis using assms(1) that unfolding grows_def by auto
  qed
  moreover have "asp_pool c ! u = asp_pool a ! u" if "2 \<le> i" "l3t a i j = Some u" for i j u
    using up [OF that] that assms unfolding grows_def by metis
  ultimately show ?thesis using assms unfolding grows_def by simp
qed

lemma grows_leaf:
  assumes "grows a a'" and "user_va va"
  shows "leaf a' va = leaf a va" and "lookup_pt a va = Some x \<Longrightarrow> lookup_pt a' va = Some x"
proof -
  let ?i = "l1_index va" and ?j = "l2_index va"
  have i: "2 \<le> ?i" using user_va_index [OF assms(2)] .
  have up: "l3t a' ?i ?j = Some u" if "l3t a ?i ?j = Some u" for u
    using assms(1) i that unfolding grows_def by (metis tbl.simps(2) user_node.simps(2))
  then show "lookup_pt a va = Some x \<Longrightarrow> lookup_pt a' va = Some x"
    by (auto simp: lookup_pt_tbl)
  show "leaf a' va = leaf a va"
  proof (cases "l3t a ?i ?j")
    case None
    then show ?thesis
      using assms(1) i unfolding grows_def leaf_def lookup_pt_tbl by (auto split: option.split)
  next
    case (Some u)
    then show ?thesis
      using assms(1) i up [OF Some] unfolding grows_def leaf_def lookup_pt_tbl by auto
  qed
qed

text \<open>The two places where a fresh table is linked into the tree.\<close>

lemma alloc_table_Inr:
  assumes "alloc_table a = (a', Inr idx)" and "pt_wf a"
  shows "idx = unat (asp_pool_used a)" and "idx < length (asp_pool a)"
    and "a' = a\<lparr>asp_pool_used := asp_pool_used a + 1, asp_pool := (asp_pool a)[idx := (\<lambda>_. 0)]\<rparr>"
    and "unat (asp_pool_used a + 1) = Suc idx"
proof -
  have l: "length (asp_pool a) < 2 ^ 64" using pt_wfD(2) [OF assms(2)] by simp
  have u: "\<not> of_nat (length (asp_pool a)) \<le> asp_pool_used a" and i: "idx = unat (asp_pool_used a)"
    and "a' = a\<lparr>asp_pool_used := asp_pool_used a + 1, asp_pool := (asp_pool a)[idx := (\<lambda>_. 0)]\<rparr>"
    using assms(1) by (auto simp: alloc_table_def Let_def split: if_splits)
  then show "idx = unat (asp_pool_used a)"
    "a' = a\<lparr>asp_pool_used := asp_pool_used a + 1, asp_pool := (asp_pool a)[idx := (\<lambda>_. 0)]\<rparr>" by blast+
  have "unat (asp_pool_used a) < length (asp_pool a)"
    using u unat_of_nat_small [of "length (asp_pool a)", where 'a = 64] l by (simp add: word_le_nat_alt)
  then show "idx < length (asp_pool a)" "unat (asp_pool_used a + 1) = Suc idx"
    using i l by (simp_all add: unat_word_ariths)
qed

lemma link_l2:
  assumes wf: "pt_wf a" and i: "2 \<le> i" and free: "asp_l1_tab a i AND DESC_TABLE \<noteq> DESC_TABLE"
    and al: "alloc_table a = (a1, Inr idx)"
  defines "a' \<equiv> set_l1 i (pa_of_table (asp_pool_base a) idx OR DESC_TABLE) a1"
  shows "grows a a'" and "l2t a' i = Some idx"
proof -
  note alloc = alloc_table_Inr [OF al wf] and desc = table_desc [OF wf alloc_table_Inr(2) [OF al wf]]
  have f: "asp_pool_base a' = asp_pool_base a" "length (asp_pool a') = length (asp_pool a)"
    "asp_l1_tab a' = (asp_l1_tab a)(i := pa_of_table (asp_pool_base a) idx OR DESC_TABLE)"
    "asp_pool a' = (asp_pool a)[idx := (\<lambda>_. 0)]" "asp_pool_used a' = asp_pool_used a + 1"
    "asp_asid a' = asp_asid a" "asp_l1 a' = asp_l1 a"
    by (simp_all add: a'_def set_l1_def alloc(3))
  show i2: "l2t a' i = Some idx" using desc by (simp add: l2t_def f)
  have none: "l2t a i = None" using free by (simp add: l2t_def)
  have other: "l2t a' k = l2t a k" if "k \<noteq> i" for k using that by (simp add: l2t_def f)
  have old: "asp_pool a' ! t = asp_pool a ! t" if "user_node n" "tbl a n = Some t" for n t
    using pt_wfD(4) [OF wf that] alloc(1) by (simp add: f)
  have zero: "asp_pool a' ! idx = (\<lambda>_. 0)" using alloc(2) by (simp add: f)
  have l3: "l3t a' k j = (if k = i then None else l3t a k j)" if "2 \<le> k" for k j
  proof (cases "k = i")
    case True
    then show ?thesis by (simp add: l3t_def i2 zero DESC_TABLE_def)
  next
    case False
    then show ?thesis
      using old [of "L2 k"] that by (simp add: l3t_def other f(1,2) split: option.split)
  qed
  have new: "tbl a' n = (if n = L2 i then Some idx else tbl a n)" if "user_node n" for n
    using that i2 other l3 none by (cases n) (auto simp: l3t_def)
  have fresh: "tbl a n \<noteq> Some idx" if "user_node n" for n
    using pt_wfD(4) [OF wf that] alloc(1) by blast
  have "pt_wf a'"
    unfolding pt_wf_def
  proof (intro conjI allI impI)
    show "4096 dvd unat (asp_pool_base a')" "unat (asp_pool_base a') + length (asp_pool a') * 4096 \<le> 2 ^ 48"
      using pt_wfD(1,2) [OF wf] by (simp_all add: f)
    show "unat (asp_pool_used a') \<le> length (asp_pool a')" using alloc(2,4) by (simp add: f)
  next
    fix n t assume "user_node n" "tbl a' n = Some t"
    then show "t < unat (asp_pool_used a')"
      using new pt_wfD(4) [OF wf, of n t] alloc(1,4) by (auto simp: f split: if_splits)
  next
    fix n n' t assume "user_node n" "user_node n'" "tbl a' n = Some t" "tbl a' n' = Some t"
    then show "n = n'" using new fresh pt_wfD(5) [OF wf, of n n' t] by (auto split: if_splits)
  next
    fix k assume "2 \<le> k" "asp_l1_tab a' k AND DESC_TABLE = DESC_TABLE"
    then show "l2t a' k \<noteq> None" using other i2 pt_wfD(6) [OF wf, of k] by (cases "k = i") (auto simp: f)
  next
    fix k j t assume k: "2 \<le> k" "l2t a' k = Some t" "(asp_pool a' ! t) j AND DESC_TABLE = DESC_TABLE"
    show "l3t a' k j \<noteq> None"
    proof (cases "k = i")
      case True
      then show ?thesis using k i2 zero by (auto simp: DESC_TABLE_def)
    next
      case False
      then show ?thesis
        using k other l3 old [of "L2 k" t] pt_wfD(7) [OF wf k(1), of t j] by simp
    qed
  qed
  then show "grows a a'"
    unfolding grows_def using new f l3 old [of "L3 _ _"] none by (auto simp: l3t_def split: if_splits)
qed

lemma link_l3:
  assumes wf: "pt_wf a" and i: "2 \<le> i" "l2t a i = Some t" and free: "(asp_pool a ! t) j AND DESC_TABLE \<noteq> DESC_TABLE"
    and al: "alloc_table a = (a1, Inr idx)"
  defines "a' \<equiv> set_pool t j (pa_of_table (asp_pool_base a) idx OR DESC_TABLE) a1"
  shows "grows a a'" and "l2t a' i = Some t" and "l3t a' i j = Some idx"
proof -
  note alloc = alloc_table_Inr [OF al wf] and desc = table_desc [OF wf alloc_table_Inr(2) [OF al wf]]
  have t: "t < idx" using pt_wfD(4) [OF wf, of "L2 i" t] i alloc(1) by simp
  have f: "asp_pool_base a' = asp_pool_base a" "length (asp_pool a') = length (asp_pool a)"
    "asp_l1_tab a' = asp_l1_tab a" "asp_pool_used a' = asp_pool_used a + 1"
    "asp_pool a' = (asp_pool a)[idx := (\<lambda>_. 0), t := (asp_pool a ! t)(j := pa_of_table (asp_pool_base a) idx OR DESC_TABLE)]"
    "asp_asid a' = asp_asid a" "asp_l1 a' = asp_l1 a"
    using t by (simp_all add: a'_def set_pool_def alloc(3))
  have l2: "l2t a' = l2t a" by (rule ext) (simp add: l2t_def f)
  then show "l2t a' i = Some t" using i by simp
  have tt: "asp_pool a' ! t = (asp_pool a ! t)(j := pa_of_table (asp_pool_base a) idx OR DESC_TABLE)"
    using t alloc(2) by (simp add: f)
  have old: "asp_pool a' ! v = asp_pool a ! v" if "user_node n" "tbl a n = Some v" "n \<noteq> L2 i" for n v
  proof -
    have "v < idx" using pt_wfD(4) [OF wf that(1,2)] alloc(1) by simp
    moreover have "v \<noteq> t" using pt_wfD(5) [OF wf that(1) _ that(2), of "L2 i"] i that(3) by auto
    ultimately show ?thesis by (simp add: f)
  qed
  have zero: "asp_pool a' ! idx = (\<lambda>_. 0)" using alloc(2) t by (simp add: f)
  have l3i: "l3t a' i q = (if q = j then Some idx else l3t a i q)" for q
    using desc i tt by (simp add: l3t_def l2 f(1,2))
  then show "l3t a' i j = Some idx" by simp
  have none: "l3t a i j = None" using free i by (simp add: l3t_def)
  have l3: "l3t a' k q = (if k = i \<and> q = j then Some idx else l3t a k q)" if "2 \<le> k" for k q
  proof (cases "k = i")
    case False
    then show ?thesis using old [of "L2 k"] that by (simp add: l3t_def l2 f(1,2) split: option.split)
  qed (simp add: l3i)
  have new: "tbl a' n = (if n = L3 i j then Some idx else tbl a n)" if "user_node n" for n
    using that l2 l3 by (cases n) auto
  have fresh: "tbl a n \<noteq> Some idx" if "user_node n" for n
    using pt_wfD(4) [OF wf that] alloc(1) by blast
  have "pt_wf a'"
    unfolding pt_wf_def
  proof (intro conjI allI impI)
    show "4096 dvd unat (asp_pool_base a')" "unat (asp_pool_base a') + length (asp_pool a') * 4096 \<le> 2 ^ 48"
      using pt_wfD(1,2) [OF wf] by (simp_all add: f)
    show "unat (asp_pool_used a') \<le> length (asp_pool a')" using alloc(2,4) by (simp add: f)
  next
    fix n v assume "user_node n" "tbl a' n = Some v"
    then show "v < unat (asp_pool_used a')"
      using new pt_wfD(4) [OF wf, of n v] alloc(1,4) by (auto simp: f split: if_splits)
  next
    fix n n' v assume "user_node n" "user_node n'" "tbl a' n = Some v" "tbl a' n' = Some v"
    then show "n = n'" using new fresh pt_wfD(5) [OF wf, of n n' v] by (auto split: if_splits)
  next
    fix k assume "2 \<le> k" "asp_l1_tab a' k AND DESC_TABLE = DESC_TABLE"
    then show "l2t a' k \<noteq> None" using l2 pt_wfD(6) [OF wf, of k] by (simp add: f)
  next
    fix k q v assume k: "2 \<le> k" "l2t a' k = Some v" "(asp_pool a' ! v) q AND DESC_TABLE = DESC_TABLE"
    show "l3t a' k q \<noteq> None"
    proof (cases "k = i")
      case True
      then show ?thesis
        using k l2 i tt l3i pt_wfD(7) [OF wf k(1), of t q] by (auto split: if_splits)
    next
      case False
      then show ?thesis
        using k l2 l3 [OF k(1), of q] old [of "L2 k" v] pt_wfD(7) [OF wf k(1), of v q] by simp
    qed
  qed
  moreover have "asp_pool a' ! u = asp_pool a ! u" if "2 \<le> k" "l3t a k q = Some u" for k q u
    using old [of "L3 k q" u] that by simp
  moreover have "(asp_pool a' ! u) e = 0" if "2 \<le> k" "l3t a' k q = Some u" "l3t a k q = None" for k q u e
    using that l3 [OF that(1), of q] zero by (auto split: if_splits)
  ultimately show "grows a a'"
    unfolding grows_def using new fresh f none by (auto simp: none)
qed

definition pool_full :: "aspace_obj \<Rightarrow> bool" where
  "pool_full a \<longleftrightarrow> unat (asp_pool_used a) = length (asp_pool a)"

lemma alloc_table_Inl:
  assumes "alloc_table a = (a', Inl e)" and "pt_wf a"
  shows "a' = a \<and> e = NeedMemory \<and> pool_full a'"
proof -
  have "length (asp_pool a) < 2 ^ 64" using pt_wfD(2) [OF assms(2)] by simp
  then have "of_nat (length (asp_pool a)) \<le> asp_pool_used a \<Longrightarrow> pool_full a"
    using unat_of_nat_small [of "length (asp_pool a)", where 'a = 64] pt_wfD(3) [OF assms(2)]
    by (simp add: pool_full_def word_le_nat_alt)
  then show ?thesis using assms(1) by (auto simp: alloc_table_def Let_def split: if_splits)
qed

text \<open>The walk: it only ever adds blank tables, and when it succeeds it ends where \<open>lookup\<close> does.\<close>

lemma walk_l2_grows:
  assumes "pt_wf a" and "2 \<le> l1_index va" and "walk_l2 a va = (a', r)"
  shows "grows a a'" and "r = Inr t \<Longrightarrow> l2t a' (l1_index va) = Some t"
    and "l2t a (l1_index va) = Some t \<Longrightarrow> a' = a \<and> r = Inr t" and "r = Inl e \<Longrightarrow> e = NeedMemory \<and> pool_full a'"
proof -
  let ?i = "l1_index va"
  have "grows a a' \<and> (\<forall>t. r = Inr t \<longrightarrow> l2t a' ?i = Some t) \<and> (\<forall>e. r = Inl e \<longrightarrow> e = NeedMemory \<and> pool_full a')"
  proof (cases "asp_l1_tab a ?i AND DESC_TABLE = DESC_TABLE")
    case True
    then show ?thesis
      using assms(3) grows_refl [OF assms(1)] pt_wfD(6) [OF assms(1,2) True]
      by (auto simp: walk_l2_def Let_def l2t_def)
  next
    case False
    show ?thesis
    proof (cases "alloc_table a")
      case (Pair a1 q)
      show ?thesis
      proof (cases q)
        case (Inl e)
        then show ?thesis
          using assms(3) False Pair grows_refl [OF assms(1)] alloc_table_Inl [OF _ assms(1), of a1 e]
          by (auto simp: walk_l2_def Let_def)
      next
        case (Inr idx)
        note L = link_l2 [OF assms(1,2) False Pair [unfolded Inr]]
        let ?a = "set_l1 ?i (pa_of_table (asp_pool_base a) idx OR DESC_TABLE) a1"
        have "asp_l1_tab ?a ?i AND DESC_TABLE = DESC_TABLE"
          using L(2) by (auto simp: l2t_def split: if_splits)
        then have "walk_l2 a va = (?a, Inr idx)"
          using False Pair Inr L(2) by (simp add: walk_l2_def Let_def l2t_def)
        then show ?thesis using L assms(3) by auto
      qed
    qed
  qed
  then show "grows a a'" "r = Inr t \<Longrightarrow> l2t a' ?i = Some t" "r = Inl e \<Longrightarrow> e = NeedMemory \<and> pool_full a'" by blast+
  show "l2t a ?i = Some t \<Longrightarrow> a' = a \<and> r = Inr t"
    using assms(3) by (auto simp: walk_l2_def Let_def l2t_def split: if_splits)
qed

lemma walk_alloc_grows:
  assumes wf: "pt_wf a" and va: "user_va va" and w: "walk_alloc a va = (a', r)"
  shows "grows a a'" and "r = Inr x \<Longrightarrow> lookup_pt a' va = Some x"
    and "lookup_pt a va = Some x \<Longrightarrow> a' = a \<and> r = Inr x" and "r = Inl e \<Longrightarrow> e = NeedMemory \<and> pool_full a'"
proof -
  let ?i = "l1_index va" and ?j = "l2_index va"
  have i: "2 \<le> ?i" by (rule user_va_index [OF va])
  obtain a1 r1 where w2: "walk_l2 a va = (a1, r1)" by force
  note W = walk_l2_grows [OF wf i w2]
  have "grows a a' \<and> (\<forall>x. r = Inr x \<longrightarrow> lookup_pt a' va = Some x) \<and> (\<forall>e. r = Inl e \<longrightarrow> e = NeedMemory \<and> pool_full a')"
  proof (cases r1)
    case (Inl e)
    then show ?thesis using w w2 W(1,4) by (auto simp: walk_alloc_def)
  next
    case (Inr t)
    have wf1: "pt_wf a1" using W(1) by (simp add: grows_def)
    note t = W(2) [OF Inr]
    show ?thesis
    proof (cases "(asp_pool a1 ! t) ?j AND DESC_TABLE = DESC_TABLE")
      case True
      then show ?thesis
        using w w2 Inr W(1) t pt_wfD(7) [OF wf1 i t True] by (auto simp: walk_alloc_def Let_def lookup_pt_tbl l3t_def)
    next
      case False
      show ?thesis
      proof (cases "alloc_table a1")
        case (Pair a2 q)
        show ?thesis
        proof (cases q)
          case (Inl e)
          then show ?thesis
            using w w2 Inr False Pair W(1) alloc_table_Inl [OF _ wf1, of a2 e] by (auto simp: walk_alloc_def Let_def)
        next
          case q: (Inr idx)
          note L = link_l3 [OF wf1 i t False Pair [unfolded q]]
          let ?a = "set_pool t ?j (pa_of_table (asp_pool_base a1) idx OR DESC_TABLE) a2"
          have "(asp_pool ?a ! t) ?j AND DESC_TABLE = DESC_TABLE"
            using L(2,3) by (auto simp: l3t_def split: if_splits)
          then have "walk_alloc a va = (?a, Inr (idx, l3_index va))"
            using w2 Inr False Pair q L(2,3) by (simp add: walk_alloc_def Let_def l3t_def)
          then show ?thesis using L(1,3) grows_trans [OF W(1)] w by (auto simp: lookup_pt_tbl)
        qed
      qed
    qed
  qed
  then show "grows a a'" "r = Inr x \<Longrightarrow> lookup_pt a' va = Some x" "r = Inl e \<Longrightarrow> e = NeedMemory \<and> pool_full a'" by blast+
  show "lookup_pt a va = Some x \<Longrightarrow> a' = a \<and> r = Inr x"
    using w w2 W(3) by (auto simp: walk_alloc_def Let_def lookup_pt_tbl l3t_def split: option.splits if_splits)
qed

section \<open>Mapping\<close>

text \<open>Writing a leaf changes the descriptor of its page and nothing else.\<close>

lemma set_leaf:
  assumes wf: "pt_wf a" and va: "user_va va" and l: "lookup_pt a va = Some (u, e)"
  shows "pt_wf (set_pool u e d a)" and "user_va x \<Longrightarrow> lookup_pt (set_pool u e d a) x = lookup_pt a x"
    and "user_va x \<Longrightarrow> leaf (set_pool u e d a) x = (if unat x div 4096 = unat va div 4096 then d else leaf a x)"
proof -
  let ?i = "l1_index va" and ?j = "l2_index va" and ?a = "set_pool u e d a"
  have i: "2 \<le> ?i" by (rule user_va_index [OF va])
  have u: "l3t a ?i ?j = Some u" "e = l3_index va" using l by (auto simp: lookup_pt_tbl)
  have ul: "u < length (asp_pool a)" using pt_wfD(3) [OF wf] pt_wfD(4) [OF wf, of "L3 ?i ?j" u] i u by simp
  have f: "asp_pool_base ?a = asp_pool_base a" "length (asp_pool ?a) = length (asp_pool a)"
    "asp_l1_tab ?a = asp_l1_tab a" "asp_pool_used ?a = asp_pool_used a"
    "asp_pool ?a = (asp_pool a)[u := (asp_pool a ! u)(e := d)]"
    by (simp_all add: set_pool_def)
  have l2: "l2t ?a = l2t a" by (rule ext) (simp add: l2t_def f)
  have nu: "t \<noteq> u" if "2 \<le> k" "l2t a k = Some t" for k t
    using pt_wfD(5) [OF wf, of "L2 k" "L3 ?i ?j" t] that i u by auto
  have l3: "l3t ?a k q = l3t a k q" if "2 \<le> k" for k q
    using nu [OF that] by (auto simp: l3t_def l2 f split: option.split)
  have t: "tbl ?a n = tbl a n" if "user_node n" for n using that l2 l3 by (cases n) auto
  have "l3t ?a k q \<noteq> None"
    if "2 \<le> k" "l2t ?a k = Some v" "(asp_pool ?a ! v) q AND DESC_TABLE = DESC_TABLE" for k q v
    using that nu [of k v] pt_wfD(7) [OF wf that(1), of v q] l3 l2 by (simp add: f)
  then show "pt_wf ?a"
    using wf t unfolding pt_wf_def f(1-4) l2 by (auto simp: l2)
  show lk: "lookup_pt ?a x = lookup_pt a x" if "user_va x" for x
    using l3 [OF user_va_index [OF that]] by (simp add: lookup_pt_tbl)
  show "leaf ?a x = (if unat x div 4096 = unat va div 4096 then d else leaf a x)" if x: "user_va x"
  proof (cases "unat x div 4096 = unat va div 4096")
    case True
    then have "lookup_pt a x = Some (u, e)" using same_page [OF x va] u by (simp add: lookup_pt_tbl)
    then show ?thesis using True lk [OF x] ul by (simp add: leaf_def f)
  next
    case False
    have "\<not> (v = u \<and> l3_index x = e)" if "l3t a (l1_index x) (l2_index x) = Some v" for v
      using pt_wfD(5) [OF wf, of "L3 (l1_index x) (l2_index x)" "L3 ?i ?j" v] that i u user_va_index [OF x]
        same_page [OF x va] False by auto
    then show ?thesis
      using False lk [OF x] ul by (auto simp: leaf_def lookup_pt_tbl f nth_list_update split: option.split)
  qed
qed

lemma set_pool_same [simp]: "asp_asid (set_pool u e d a) = asp_asid a" "asp_l1 (set_pool u e d a) = asp_l1 a"
  "asp_pool_base (set_pool u e d a) = asp_pool_base a" "length (asp_pool (set_pool u e d a)) = length (asp_pool a)"
  by (simp_all add: set_pool_def)

lemma page_addr:
  assumes "unat va + n * 4096 \<le> 2 ^ 39" and "k < n"
  shows "unat (va + of_nat k * PAGE) = unat va + k * 4096"
proof -
  have k: "k * 4096 + 4096 \<le> n * 4096" using assms(2) by auto
  have "unat (of_nat k :: u64) = k" by (rule unat_of_nat_small) (use assms k in simp)
  then have "unat (of_nat k * PAGE) = k * 4096" using assms k by (simp add: PAGE_def unat_word_ariths)
  then show ?thesis using assms k by (simp add: unat_word_ariths)
qed

lemma va_range_ok_iff:
  "va_range_ok va pages \<longleftrightarrow>
     4096 dvd unat va \<and> 2 ^ 31 \<le> unat va \<and> unat va + unat pages * 4096 \<le> 2 ^ 39"
proof -
  have m: "unat (saturating_mul pages PAGE) = min (unat pages * 4096) (2 ^ 64 - 1)"
    by (auto simp: saturating_mul_def checked_mul_def PAGE_def unat_word_ariths unsigned_minus_1_eq_mask mask_eq_exp_minus_1)
  have a: "unat (saturating_add va w) = min (unat va + unat w) (2 ^ 64 - 1)" for w
    by (auto simp: saturating_add_def checked_add_def unat_word_ariths unsigned_minus_1_eq_mask mask_eq_exp_minus_1)
  have "unat (saturating_add va (saturating_mul pages PAGE)) \<le> 2 ^ 39 \<longleftrightarrow> unat va + unat pages * 4096 \<le> 2 ^ 39"
    unfolding a m by auto
  moreover have "va mod PAGE = 0 \<longleftrightarrow> 4096 dvd unat va"
    by (simp add: PAGE_def word_unat_eq_iff unat_mod dvd_eq_mod_eq_0)
  ultimately show ?thesis
    by (simp add: va_range_ok_def USER_VA_BASE_def USER_VA_END_def word_le_nat_alt)
qed

lemma page_in_range:
  assumes "4096 dvd unat va"
  shows "unat va div 4096 \<le> unat x div 4096 \<and> unat x div 4096 - unat va div 4096 \<in> set [0..<n] \<longleftrightarrow>
      unat va \<le> unat x \<and> unat x < unat va + n * 4096"
    and "unat va \<le> unat x \<Longrightarrow> unat x div 4096 - unat va div 4096 = (unat x - unat va) div 4096"
proof -
  obtain q where q: "unat va = 4096 * q" using assms by blast
  show "unat va div 4096 \<le> unat x div 4096 \<and> unat x div 4096 - unat va div 4096 \<in> set [0..<n] \<longleftrightarrow>
      unat va \<le> unat x \<and> unat x < unat va + n * 4096"
    and "unat va \<le> unat x \<Longrightarrow> unat x div 4096 - unat va div 4096 = (unat x - unat va) div 4096"
    unfolding q by (auto simp: less_mult_imp_div_less div_less_iff_less_mult algebra_simps)
qed

lemma map_check_loop_ok:
  assumes "pt_wf a" and "\<forall>k \<in> set ks. user_va (va + of_nat k * PAGE)" and "map_check_loop va ks a = (a', r)"
  shows "grows a a'"
    and "r = Inr () \<Longrightarrow> k \<in> set ks \<Longrightarrow>
      lookup_pt a' (va + of_nat k * PAGE) \<noteq> None \<and> leaf a (va + of_nat k * PAGE) = 0"
    and "r = Inl e \<Longrightarrow> e = AlreadyMapped \<and> (\<exists>k \<in> set ks. leaf a (va + of_nat k * PAGE) \<noteq> 0) \<or>
      e = NeedMemory \<and> pool_full a'"
proof -
  have "grows a a' \<and>
    (r = Inr () \<longrightarrow> (\<forall>k \<in> set ks. lookup_pt a' (va + of_nat k * PAGE) \<noteq> None \<and> leaf a (va + of_nat k * PAGE) = 0)) \<and>
    (\<forall>e. r = Inl e \<longrightarrow> e = AlreadyMapped \<and> (\<exists>k \<in> set ks. leaf a (va + of_nat k * PAGE) \<noteq> 0) \<or>
      e = NeedMemory \<and> pool_full a')"
    using assms
  proof (induction ks arbitrary: a)
    case Nil
    then show ?case using grows_refl by auto
  next
    case (Cons k ks)
    let ?p = "va + of_nat k * PAGE"
    have p: "user_va ?p" using Cons.prems(2) by simp
    obtain a1 q where w: "walk_alloc a ?p = (a1, q)" by force
    note W = walk_alloc_grows [OF Cons.prems(1) p w]
    show ?case
    proof (cases q)
      case (Inl e)
      then show ?thesis using Cons.prems(3) w W(1,4) by auto
    next
      case (Inr x)
      obtain l3 i where x: "x = (l3, i)" by force
      have lf: "leaf a ?p = (asp_pool a1 ! l3) i"
        using grows_leaf(1) [OF W(1) p] W(2) [OF Inr] x by (simp add: leaf_def)
      show ?thesis
      proof (cases "(asp_pool a1 ! l3) i = 0")
        case False
        then show ?thesis using Cons.prems(3) w Inr x W(1) lf by auto
      next
        case True
        have wf1: "pt_wf a1" using W(1) by (simp add: grows_def)
        have rest: "map_check_loop va ks a1 = (a', r)" using Cons.prems(3) w Inr x True by simp
        note IH = Cons.IH [OF wf1 _ rest]
        have u: "\<forall>k \<in> set ks. user_va (va + of_nat k * PAGE)" using Cons.prems(2) by simp
        have "leaf a1 (va + of_nat k' * PAGE) = leaf a (va + of_nat k' * PAGE)" if "k' \<in> set ks" for k'
          using grows_leaf(1) [OF W(1)] u that by blast
        then show ?thesis
          using IH [OF u] grows_trans [OF W(1)] lf True grows_leaf(2) [OF _ p, of a1 a'] W(2) [OF Inr] by auto
      qed
    qed
  qed
  then show "grows a a'"
    and "r = Inr () \<Longrightarrow> k \<in> set ks \<Longrightarrow>
      lookup_pt a' (va + of_nat k * PAGE) \<noteq> None \<and> leaf a (va + of_nat k * PAGE) = 0"
    and "r = Inl e \<Longrightarrow> e = AlreadyMapped \<and> (\<exists>k \<in> set ks. leaf a (va + of_nat k * PAGE) \<noteq> 0) \<or>
      e = NeedMemory \<and> pool_full a'" by blast+
qed

lemma map_write_loop_ok:
  assumes "pt_wf a" and "unat va + n * 4096 \<le> 2 ^ 39" and "2 ^ 31 \<le> unat va" and "4096 dvd unat va"
    and "set ks \<subseteq> {..<n}" and "distinct ks"
    and "\<forall>k \<in> set ks. lookup_pt a (va + of_nat k * PAGE) \<noteq> None"
  shows "\<exists>a'. map_write_loop pa va perms ks a = (a', Inr ()) \<and> pt_wf a' \<and>
    asp_asid a' = asp_asid a \<and> asp_l1 a' = asp_l1 a \<and> asp_pool_base a' = asp_pool_base a \<and>
    length (asp_pool a') = length (asp_pool a) \<and>
    (\<forall>x. user_va x \<longrightarrow> leaf a' x =
       (if unat va div 4096 \<le> unat x div 4096 \<and> unat x div 4096 - unat va div 4096 \<in> set ks
        then pte_encode (pa + of_nat (unat x div 4096 - unat va div 4096) * PAGE) perms else leaf a x))"
  using assms
proof (induction ks arbitrary: a)
  case Nil
  then show ?case by simp
next
  case (Cons k ks)
  let ?p = "va + of_nat k * PAGE"
  have k: "k < n" using Cons.prems(5) by simp
  have pu: "unat ?p = unat va + k * 4096" by (rule page_addr [OF Cons.prems(2) k])
  have "k * 4096 + 4096 \<le> n * 4096" using k by auto
  then have p: "user_va ?p" using pu Cons.prems(2,3) by (simp add: user_va_bounds)
  obtain l3 i where l: "lookup_pt a ?p = Some (l3, i)" using Cons.prems(7) by auto
  obtain a1 q where w: "walk_alloc a ?p = (a1, q)" by force
  have aq: "a1 = a" "q = Inr (l3, i)" using walk_alloc_grows(3) [OF Cons.prems(1) p w l] by auto
  let ?a = "set_pool l3 i (pte_encode (pa + of_nat k * PAGE) perms) a"
  note S = set_leaf [OF Cons.prems(1) p l]
  have u: "user_va (va + of_nat k' * PAGE)" if "k' \<in> set ks" for k'
  proof -
    have "k' < n" using Cons.prems(5) that by auto
    moreover from this have "k' * 4096 + 4096 \<le> n * 4096" by auto
    ultimately show ?thesis using page_addr [OF Cons.prems(2), of k'] Cons.prems(2,3) by (simp add: user_va_bounds)
  qed
  have lk: "\<forall>k' \<in> set ks. lookup_pt ?a (va + of_nat k' * PAGE) \<noteq> None"
    using Cons.prems(7) S(2) u by simp
  obtain a' where a': "map_write_loop pa va perms ks ?a = (a', Inr ())" "pt_wf a'"
    "asp_asid a' = asp_asid ?a \<and> asp_l1 a' = asp_l1 ?a \<and> asp_pool_base a' = asp_pool_base ?a \<and>
     length (asp_pool a') = length (asp_pool ?a)"
    "\<forall>x. user_va x \<longrightarrow> leaf a' x =
       (if unat va div 4096 \<le> unat x div 4096 \<and> unat x div 4096 - unat va div 4096 \<in> set ks
        then pte_encode (pa + of_nat (unat x div 4096 - unat va div 4096) * PAGE) perms else leaf ?a x)"
    using Cons.IH [OF S(1) Cons.prems(2,3,4) _ _ lk] Cons.prems(5,6) by auto
  have pd: "unat ?p div 4096 = unat va div 4096 + k"
    unfolding pu by simp
  have "leaf a' x =
       (if unat va div 4096 \<le> unat x div 4096 \<and> unat x div 4096 - unat va div 4096 \<in> set (k # ks)
        then pte_encode (pa + of_nat (unat x div 4096 - unat va div 4096) * PAGE) perms else leaf a x)"
    if x: "user_va x" for x
  proof (cases "unat x div 4096 = unat va div 4096 + k")
    case True
    then have "unat x div 4096 - unat va div 4096 = k" "k \<notin> set ks" using Cons.prems(6) by auto
    then show ?thesis using True a'(4) x S(3) [OF x] pd by simp
  next
    case False
    then show ?thesis using a'(4) x S(3) [OF x] pd by auto
  qed
  then show ?case using a'(1-3) w aq by simp
qed

lemma map_in_ok:
  assumes wf: "pt_wf a"
  shows "case map_in pa va pages perms a of (a', r) \<Rightarrow> pt_wf a' \<and> (r = Inl BadVa \<longleftrightarrow> \<not> va_range_ok va pages) \<and>
    (case r of
       Inl e \<Rightarrow> (\<forall>x. user_va x \<longrightarrow> leaf a' x = leaf a x) \<and>
         (e = AlreadyMapped \<longrightarrow> (\<exists>k < unat pages. leaf a (va + of_nat k * PAGE) \<noteq> 0)) \<and>
         (e = NeedMemory \<longrightarrow> pool_full a')
     | Inr _ \<Rightarrow> (\<forall>k < unat pages. leaf a (va + of_nat k * PAGE) = 0) \<and>
         (\<forall>x. user_va x \<longrightarrow> leaf a' x =
            (if unat va \<le> unat x \<and> unat x < unat va + unat pages * 4096
             then pte_encode (pa + of_nat ((unat x - unat va) div 4096) * PAGE) perms else leaf a x)))"
proof (cases "va_range_ok va pages")
  case False
  then show ?thesis using wf by (simp add: map_in_def)
next
  case True
  note R = True [unfolded va_range_ok_iff]
  let ?n = "unat pages"
  have u: "\<forall>k \<in> set [0..<?n]. user_va (va + of_nat k * PAGE)"
  proof
    fix k assume "k \<in> set [0..<?n]"
    then have k: "k < ?n" by simp
    moreover from this have "k * 4096 + 4096 \<le> ?n * 4096" by auto
    ultimately show "user_va (va + of_nat k * PAGE)"
      using page_addr [of va ?n k] R by (simp add: user_va_bounds)
  qed
  obtain a1 r1 where c: "map_check_loop va [0..<?n] a = (a1, r1)" by force
  note C = map_check_loop_ok [OF wf u c]
  have lf: "leaf a1 x = leaf a x" if "user_va x" for x by (rule grows_leaf(1) [OF C(1) that])
  have wf1: "pt_wf a1" using C(1) by (simp add: grows_def)
  show ?thesis
  proof (cases r1)
    case (Inl e)
    then show ?thesis
      using True c C(3) [OF Inl] wf1 lf by (auto simp: map_in_def)
  next
    case (Inr r)
    have lk: "\<forall>k \<in> set [0..<?n]. lookup_pt a1 (va + of_nat k * PAGE) \<noteq> None" using C(2) Inr by simp
    have z: "\<forall>k < ?n. leaf a (va + of_nat k * PAGE) = 0" using C(2) Inr by simp
    obtain a' where a': "map_write_loop pa va perms [0..<?n] a1 = (a', Inr ())" "pt_wf a'"
      "\<forall>x. user_va x \<longrightarrow> leaf a' x =
       (if unat va div 4096 \<le> unat x div 4096 \<and> unat x div 4096 - unat va div 4096 \<in> set [0..<?n]
        then pte_encode (pa + of_nat (unat x div 4096 - unat va div 4096) * PAGE) perms else leaf a1 x)"
      using map_write_loop_ok [OF wf1 _ _ _ _ _ lk, of ?n pa perms] R by (auto simp: atLeast0LessThan)
    have "leaf a' x = (if unat va \<le> unat x \<and> unat x < unat va + unat pages * 4096
        then pte_encode (pa + of_nat ((unat x - unat va) div 4096) * PAGE) perms else leaf a x)" if "user_va x" for x
      using a'(3) [rule_format, OF that] lf [OF that] R page_in_range(2) [of va x]
      unfolding page_in_range(1) [OF R [THEN conjunct1]] by presburger
    then show ?thesis using True c Inr a'(1,2) z by (simp add: map_in_def)
  qed
qed

text \<open>
  C17: mapping. In a well-formed address space \<open>map_in\<close> maps a range of frames at a range of
  user pages all or nothing. On success every page of the range was unmapped before and now
  has the descriptor of its frame, and the descriptors of all other user addresses are
  unchanged. On an error no descriptor has changed: \<open>BadVa\<close> exactly when the range is not a
  page-aligned user range, \<open>AlreadyMapped\<close> only when one of its pages is mapped, and
  \<open>NeedMemory\<close> only when the table pool is used up. The table tree stays well formed.
\<close>

theorem map_in_exact:
  assumes wf: "pt_wf a"
  shows "case map_in pa va pages perms a of (a', r) \<Rightarrow> pt_wf a' \<and> (r = Inl BadVa \<longleftrightarrow> \<not> va_range_ok va pages) \<and>
    (case r of
       Inl e \<Rightarrow> (\<forall>x. user_va x \<longrightarrow> leaf a' x = leaf a x) \<and>
         (e = AlreadyMapped \<longrightarrow> (\<exists>k < unat pages. leaf a (va + of_nat k * PAGE) \<noteq> 0)) \<and>
         (e = NeedMemory \<longrightarrow> pool_full a')
     | Inr _ \<Rightarrow> (\<forall>k < unat pages. leaf a (va + of_nat k * PAGE) = 0) \<and>
         (\<forall>x. user_va x \<longrightarrow> leaf a' x =
            (if unat va \<le> unat x \<and> unat x < unat va + unat pages * 4096
             then pte_encode (pa + of_nat ((unat x - unat va) div 4096) * PAGE) perms else leaf a x)))"
  by (rule map_in_ok [OF wf])

section \<open>Unmapping\<close>

lemma unmap_loop_ok:
  assumes "pt_wf a" and "unat va + n * 4096 \<le> 2 ^ 39" and "2 ^ 31 \<le> unat va" and "4096 dvd unat va"
    and "set ks \<subseteq> {..<n}" and "unmap_loop va ks a = (a', log)"
  shows "pt_wf a' \<and> asp_asid a' = asp_asid a \<and>
    (\<forall>x. user_va x \<longrightarrow> lookup_pt a' x = lookup_pt a x) \<and>
    (\<forall>x. user_va x \<longrightarrow> leaf a' x =
       (if unat va div 4096 \<le> unat x div 4096 \<and> unat x div 4096 - unat va div 4096 \<in> set ks then 0 else leaf a x)) \<and>
    log = map (\<lambda>k. (asp_asid a, va + of_nat k * PAGE)) (filter (\<lambda>k. lookup_pt a (va + of_nat k * PAGE) \<noteq> None) ks)"
  using assms
proof (induction ks arbitrary: a log)
  case Nil
  then show ?case by auto
next
  case (Cons k ks)
  let ?p = "va + of_nat k * PAGE"
  have k: "k < n" using Cons.prems(5) by simp
  have pu: "unat ?p = unat va + k * 4096" by (rule page_addr [OF Cons.prems(2) k])
  have kb: "j * 4096 + 4096 \<le> n * 4096" if "j < n" for j using that by auto
  have user: "user_va (va + of_nat j * PAGE)" if "j \<in> set (k # ks)" for j
    using page_addr [OF Cons.prems(2), of j] kb [of j] that Cons.prems(2,3,5) by (auto simp: user_va_bounds)
  have p: "user_va ?p" using user by simp
  have pd: "unat ?p div 4096 = unat va div 4096 + k" unfolding pu by simp
  have sub: "set ks \<subseteq> {..<n}" using Cons.prems(5) by simp
  show ?case
  proof (cases "lookup_pt a ?p")
    case None
    then have "unmap_loop va ks a = (a', log)" using Cons.prems(6) by simp
    note IH = Cons.IH [OF Cons.prems(1-4) sub this]
    have "leaf a x = 0" if "user_va x" "unat x div 4096 = unat va div 4096 + k" for x
      using same_page [OF that(1) p] pd that(2) None by (simp add: leaf_def lookup_pt_tbl)
    then show ?thesis using IH None by auto
  next
    case (Some y)
    obtain l3 i where y: "y = (l3, i)" by force
    note S = set_leaf [OF Cons.prems(1) p Some [unfolded y], where d = 0]
    obtain log1 where r: "unmap_loop va ks (set_pool l3 i 0 a) = (a', log1)" and log: "log = (asp_asid a, ?p) # log1"
      using Cons.prems(6) Some y by (auto split: prod.splits)
    note IH = Cons.IH [OF S(1) Cons.prems(2-4) sub r]
    have lf: "leaf a' x = (if unat va div 4096 \<le> unat x div 4096 \<and> unat x div 4096 - unat va div 4096 \<in> set (k # ks)
        then 0 else leaf a x)" if "user_va x" for x
      using IH S(3) [OF that] pd that by auto
    have "filter (\<lambda>k. lookup_pt (set_pool l3 i 0 a) (va + of_nat k * PAGE) \<noteq> None) ks =
        filter (\<lambda>k. lookup_pt a (va + of_nat k * PAGE) \<noteq> None) ks"
      by (rule filter_cong) (use S(2) user in auto)
    then show ?thesis using IH lf log Some S(2) by simp
  qed
qed

text \<open>
  C18: unmapping. Unmapping a user range clears exactly the leaves of its pages, keeps the
  table tree well formed, and invalidates the translation of every page of the range that
  was mapped, in the address space's own ASID.
\<close>

theorem unmap_in_exact:
  assumes "pt_wf a" and "va_range_ok va pages"
  shows "case unmap_in va pages a of (a', log) \<Rightarrow> pt_wf a' \<and>
    (\<forall>x. user_va x \<longrightarrow> leaf a' x =
       (if unat va \<le> unat x \<and> unat x < unat va + unat pages * 4096 then 0 else leaf a x)) \<and>
    (\<forall>k < unat pages. leaf a (va + of_nat k * PAGE) \<noteq> 0 \<longrightarrow> (asp_asid a, va + of_nat k * PAGE) \<in> set log) \<and>
    (\<forall>(asid, page) \<in> set log. asid = asp_asid a \<and> unat va \<le> unat page \<and> unat page < unat va + unat pages * 4096)"
proof -
  note R = assms(2) [unfolded va_range_ok_iff]
  let ?n = "unat pages"
  obtain a' log where u: "unmap_loop va [0..<?n] a = (a', log)" by force
  have U: "pt_wf a'"
    "\<forall>x. user_va x \<longrightarrow> leaf a' x =
       (if unat va div 4096 \<le> unat x div 4096 \<and> unat x div 4096 - unat va div 4096 \<in> set [0..<?n] then 0 else leaf a x)"
    "log = map (\<lambda>k. (asp_asid a, va + of_nat k * PAGE)) (filter (\<lambda>k. lookup_pt a (va + of_nat k * PAGE) \<noteq> None) [0..<?n])"
    using unmap_loop_ok [OF assms(1) _ _ _ _ u, of ?n] R by (auto simp: atLeast0LessThan)
  have "\<forall>x. user_va x \<longrightarrow> leaf a' x =
       (if unat va \<le> unat x \<and> unat x < unat va + ?n * 4096 then 0 else leaf a x)"
    using U(2) unfolding page_in_range(1) [OF R [THEN conjunct1]] .
  moreover have "(asp_asid a, va + of_nat k * PAGE) \<in> set log" if "k < ?n" "leaf a (va + of_nat k * PAGE) \<noteq> 0" for k
    using that unfolding U(3) by (auto simp: leaf_def split: option.splits)
  moreover have "asid = asp_asid a \<and> unat va \<le> unat page \<and> unat page < unat va + ?n * 4096" if "(asid, page) \<in> set log" for asid page
    using that page_addr [of va ?n] R unfolding U(3) by auto
  ultimately show ?thesis using u U(1) by (auto simp: unmap_in_def)
qed

section \<open>User ranges\<close>

lemma clear_page_offset: "unat (va AND NOT PAGE_MASK) = unat va div 4096 * 4096"
proof -
  have m: "PAGE_MASK = mask 12" by (simp add: PAGE_MASK_def PAGE_def mask_eq_exp_minus_1)
  have "va AND NOT PAGE_MASK = push_bit 12 (drop_bit 12 va)"
    unfolding m by (rule bit_eqI) (auto simp: bit_simps)
  moreover have "unat va div 4096 * 4096 < 2 ^ 64"
    using unsigned_less [of va, where 'a = nat] by (simp add: le_less_trans [OF div_times_less_eq_dividend])
  ultimately show ?thesis by (simp add: push_bit_eq_mult drop_bit_eq_div unat_div unat_word_ariths)
qed

lemma range_mapped_loop_ok:
  assumes "unat end' \<le> 2 ^ 39" and "n = (unat end' + 4095 - unat page) div 4096"
  shows "range_mapped_loop a write page end' =
    Some (\<forall>k. unat page + k * 4096 < unat end' \<longrightarrow> page_mapped a (page + of_nat k * PAGE) write)"
  using assms
proof (induction n arbitrary: page)
  case 0
  then have "\<not> page < end'" "\<not> unat page + k * 4096 < unat end'" for k
    by (auto simp: word_less_nat_alt div_eq_0_iff)
  then show ?case by (subst range_mapped_loop.simps) simp
next
  case (Suc n)
  show ?case
  proof (cases "page < end'")
    case False
    then have "\<not> unat page + k * 4096 < unat end'" for k by (simp add: word_less_nat_alt)
    then show ?thesis using False by (subst range_mapped_loop.simps) simp
  next
    case True
    then have p: "unat (page + PAGE) = unat page + 4096"
      using Suc.prems(1) by (simp add: PAGE_def unat_word_ariths word_less_nat_alt)
    have "n = (unat end' + 4095 - unat (page + PAGE)) div 4096"
      using Suc.prems(2) True unfolding p by (simp add: word_less_nat_alt)
    note IH = Suc.IH [OF Suc.prems(1) this]
    have "(\<forall>k. unat page + k * 4096 < unat end' \<longrightarrow> page_mapped a (page + of_nat k * PAGE) write) \<longleftrightarrow>
      page_mapped a page write \<and>
      (\<forall>k. unat (page + PAGE) + k * 4096 < unat end' \<longrightarrow> page_mapped a (page + PAGE + of_nat k * PAGE) write)"
      (is "?l \<longleftrightarrow> ?r")
    proof
      assume l: ?l
      show ?r
      proof (intro conjI allI impI)
        show "page_mapped a page write" using l [rule_format, of 0] True by (simp add: word_less_nat_alt)
        fix k assume "unat (page + PAGE) + k * 4096 < unat end'"
        then show "page_mapped a (page + PAGE + of_nat k * PAGE) write"
          using l [rule_format, of "Suc k"] p by (simp add: algebra_simps)
      qed
    next
      assume r: ?r
      show ?l
      proof (intro allI impI)
        fix k assume k: "unat page + k * 4096 < unat end'"
        show "page_mapped a (page + of_nat k * PAGE) write"
        proof (cases k)
          case 0
          then show ?thesis using r by simp
        next
          case (Suc j)
          then show ?thesis using r p k by (auto simp: algebra_simps)
        qed
      qed
    qed
    then show ?thesis using True IH by (subst range_mapped_loop.simps) simp
  qed
qed

lemma range_mapped_eq:
  "range_mapped_in a va len write =
     Some (if len = 0 then user_va va
           else 2 ^ 31 \<le> unat va \<and> unat va + unat len \<le> 2 ^ 39 \<and>
             (\<forall>i < unat len. leaf a (va + of_nat i) \<noteq> 0 \<and>
                (write \<longrightarrow> drop_bit 6 (leaf a (va + of_nat i)) AND 3 = 1)))"
proof (cases "len = 0")
  case True
  then show ?thesis by (simp add: range_mapped_in_def user_va_def)
next
  case nz: False
  show ?thesis
  proof (cases "2 ^ 31 \<le> unat va \<and> unat va + unat len \<le> 2 ^ 39")
    case False
    then show ?thesis
      using nz by (auto simp: range_mapped_in_def checked_add_def USER_VA_BASE_def USER_VA_END_def
          word_less_nat_alt word_le_nat_alt unat_word_ariths)
  next
    case True
    let ?e = "va + len" and ?p = "va AND NOT PAGE_MASK"
    have e: "unat ?e = unat va + unat len" using True by (simp add: unat_word_ariths)
    have "range_mapped_in a va len write = range_mapped_loop a write ?p ?e"
      using nz True by (auto simp: range_mapped_in_def checked_add_def USER_VA_BASE_def USER_VA_END_def
          word_less_nat_alt word_le_nat_alt e)
    also have "\<dots> = Some (\<forall>k. unat ?p + k * 4096 < unat ?e \<longrightarrow> page_mapped a (?p + of_nat k * PAGE) write)"
      by (rule range_mapped_loop_ok [OF _ refl]) (use True e in simp)
    finally have run: "range_mapped_in a va len write =
        Some (\<forall>k. unat ?p + k * 4096 < unat ?e \<longrightarrow> page_mapped a (?p + of_nat k * PAGE) write)" .
    have p: "unat ?p = unat va div 4096 * 4096" by (rule clear_page_offset)
    have pm: "page_mapped a x write \<longleftrightarrow> leaf a x \<noteq> 0 \<and> (write \<longrightarrow> drop_bit 6 (leaf a x) AND 3 = 1)" for x
      by (auto simp: page_mapped_def leaf_def split: option.split)
    have addr: "unat (?p + of_nat k * PAGE) = unat ?p + k * 4096" if "unat ?p + k * 4096 < unat ?e" for k
    proof -
      have "(unat va div 4096 + k) * 4096 < 2 ^ 27 * 4096" using that True unfolding e p by (simp add: algebra_simps)
      then have "unat va div 4096 + k < 2 ^ 27" by (simp only: mult_less_cancel2)
      then have "unat ?p + (k + 1) * 4096 \<le> 2 ^ 39" unfolding p by simp
      then show ?thesis by (intro page_addr [of ?p "Suc k"]) simp_all
    qed
    have byte: "unat (va + of_nat i) = unat va + i" if "i < unat len" for i
      using that True unat_of_nat_small [of i, where 'a = 64] by (simp add: unat_word_ariths)
    have same: "leaf a x = leaf a y" if "unat x div 4096 = unat y div 4096" for x y
    proof -
      have "l1_index x = l1_index y" "l2_index x = l2_index y" "l3_index x = l3_index y"
        unfolding index_div page_index using that by simp_all
      then show ?thesis by (simp add: leaf_def lookup_pt_tbl)
    qed
    have "(\<forall>k. unat ?p + k * 4096 < unat ?e \<longrightarrow> page_mapped a (?p + of_nat k * PAGE) write) \<longleftrightarrow>
      (\<forall>i < unat len. page_mapped a (va + of_nat i) write)"
    proof (intro iffI allI impI)
      fix i assume l: "\<forall>k. unat ?p + k * 4096 < unat ?e \<longrightarrow> page_mapped a (?p + of_nat k * PAGE) write" and i: "i < unat len"
      let ?k = "(unat va + i) div 4096 - unat va div 4096"
      have k: "unat ?p + ?k * 4096 = (unat va + i) div 4096 * 4096"
        unfolding p by (simp add: diff_mult_distrib div_le_mono)
      then have lt: "unat ?p + ?k * 4096 < unat ?e" using i unfolding e by (simp add: le_less_trans [OF div_times_less_eq_dividend])
      have "unat (?p + of_nat ?k * PAGE) div 4096 = unat (va + of_nat i) div 4096"
        unfolding addr [OF lt] byte [OF i] k by simp
      then show "page_mapped a (va + of_nat i) write" using l lt same unfolding pm by metis
    next
      fix k assume r: "\<forall>i < unat len. page_mapped a (va + of_nat i) write" and k: "unat ?p + k * 4096 < unat ?e"
      let ?i = "unat ?p + k * 4096 - unat va"
      have "0 < unat len" using nz by (simp add: unat_gt_0)
      then have i: "?i < unat len" using k unfolding e by linarith
      have "unat (?p + of_nat k * PAGE) div 4096 = unat (va + of_nat ?i) div 4096"
      proof (cases k)
        case 0
        then show ?thesis unfolding addr [OF k] byte [OF i] by (simp add: p)
      next
        case (Suc j)
        have "unat va \<le> unat ?p + 4096" unfolding p using div_mult_mod_eq [of "unat va" 4096] by linarith
        then have "unat va + ?i = unat ?p + k * 4096" using Suc by simp
        then show ?thesis unfolding addr [OF k] byte [OF i] by simp
      qed
      then show "page_mapped a (?p + of_nat k * PAGE) write" using r i same unfolding pm by metis
    qed
    then show ?thesis using run nz True unfolding pm by simp
  qed
qed

text \<open>
  C19: the check of a user range. \<open>range_mapped_in\<close> returns, and it accepts a non-empty range
  exactly when the range lies in the user half without wrapping and the page of every byte
  of it is mapped, with write access if that is asked for. An accepted range is one the
  kernel can dereference on behalf of the process.
\<close>

theorem range_mapped_in_exact:
  "range_mapped_in a va len write =
     Some (if len = 0 then user_va va
           else 2 ^ 31 \<le> unat va \<and> unat va + unat len \<le> 2 ^ 39 \<and>
             (\<forall>i < unat len. leaf a (va + of_nat i) \<noteq> 0 \<and>
                (write \<longrightarrow> drop_bit 6 (leaf a (va + of_nat i)) AND 3 = 1)))"
  by (rule range_mapped_eq)

section \<open>Descriptors\<close>

lemma bits_of_pte:
  "pte_encode pa perms AND ADDR_MASK = pa AND ADDR_MASK"
  "pte_encode pa perms AND 3 = 3"
  "pte_encode pa perms AND 0x1C = (if perms AND PERM_DEVICE \<noteq> 0 then ATTR_DEVICE else ATTR_NORMAL)"
  "pte_encode pa perms AND 0xC0 = (if perms AND PERM_W \<noteq> 0 then AP_EL0_RW else AP_EL0_RO)"
  "pte_encode pa perms AND UXN = (if perms AND PERM_X \<noteq> 0 \<and> perms AND PERM_DEVICE = 0 then 0 else UXN)"
  "pte_encode pa perms AND PXN = PXN"
  unfolding pte_encode_def Let_def
  by (simp_all add: aspace_consts bit.conj_disj_distrib2 and.assoc)

lemma pte_bits:
  "pte_output_pa (pte_encode pa perms) = pa AND ADDR_MASK \<and>
   pte_encode pa perms AND 3 = DESC_PAGE \<and> pte_encode pa perms \<noteq> 0 \<and>
   (drop_bit 6 (pte_encode pa perms) AND 3 = 1 \<longleftrightarrow> perms AND PERM_W \<noteq> 0) \<and>
   (pte_encode pa perms AND UXN = 0 \<longleftrightarrow> perms AND PERM_X \<noteq> 0 \<and> perms AND PERM_DEVICE = 0) \<and>
   (pte_encode pa perms AND 0x1C = ATTR_DEVICE \<longleftrightarrow> perms AND PERM_DEVICE \<noteq> 0) \<and>
   pte_encode pa perms AND PXN = PXN"
proof -
  have d: "drop_bit 6 w AND 3 = drop_bit 6 (w AND 0xC0)" for w :: u64
  proof -
    have "(3 :: u64) = mask 2" "(0xC0 :: u64) = push_bit 6 (mask 2)" by (simp_all add: mask_eq_exp_minus_1)
    then show ?thesis by (auto intro!: bit_eqI simp: bit_simps)
  qed
  have "pte_encode pa perms \<noteq> 0" using bits_of_pte(2) [of pa perms] by auto
  then show ?thesis
    unfolding d bits_of_pte pte_output_pa_def by (auto simp: aspace_consts)
qed

text \<open>
  C20: descriptors. A leaf descriptor is valid, carries the frame's address back, is
  writable for user code exactly when write permission was asked for, is executable for
  user code exactly when execution was asked for and the memory is not a device, and is
  never executable for the kernel.
\<close>

theorem pte_encode_sound:
  "pte_output_pa (pte_encode pa perms) = pa AND ADDR_MASK \<and>
   pte_encode pa perms AND 3 = DESC_PAGE \<and> pte_encode pa perms \<noteq> 0 \<and>
   (drop_bit 6 (pte_encode pa perms) AND 3 = 1 \<longleftrightarrow> perms AND PERM_W \<noteq> 0) \<and>
   (pte_encode pa perms AND UXN = 0 \<longleftrightarrow> perms AND PERM_X \<noteq> 0 \<and> perms AND PERM_DEVICE = 0) \<and>
   (pte_encode pa perms AND 0x1C = ATTR_DEVICE \<longleftrightarrow> perms AND PERM_DEVICE \<noteq> 0) \<and>
   pte_encode pa perms AND PXN = PXN"
  by (rule pte_bits)

text \<open>
  C21: mapping and access agree. After a successful mapping, a non-empty user buffer that
  starts at the mapped address and lies inside the mapped pages passes the kernel's check,
  for writing exactly when the mapping is writable.
\<close>

theorem map_then_access:
  assumes "pt_wf a" and "map_in pa va pages perms a = (a', Inr ())"
    and "len \<noteq> 0" and "unat len \<le> unat pages * 4096"
  shows "range_mapped_in a' va len write = Some (write \<longrightarrow> perms AND PERM_W \<noteq> 0)"
proof -
  have M: "va_range_ok va pages"
    "\<forall>x. user_va x \<longrightarrow> leaf a' x =
       (if unat va \<le> unat x \<and> unat x < unat va + unat pages * 4096
        then pte_encode (pa + of_nat ((unat x - unat va) div 4096) * PAGE) perms else leaf a x)"
    using map_in_ok [OF assms(1), of va pages pa perms] assms(2) by auto
  note R = M(1) [unfolded va_range_ok_iff]
  have bytes: "leaf a' (va + of_nat i) = pte_encode (pa + of_nat (i div 4096) * PAGE) perms" if "i < unat len" for i
  proof -
    have u: "unat (va + of_nat i) = unat va + i"
      using that R assms(4) unat_of_nat_small [of i, where 'a = 64] by (simp add: unat_word_ariths)
    then have "user_va (va + of_nat i)" using R that assms(4) by (simp add: user_va_bounds)
    then show ?thesis using M(2) u that assms(4) by simp
  qed
  have w: "drop_bit 6 (pte_encode p perms) AND 3 = 1 \<longleftrightarrow> perms AND PERM_W \<noteq> 0" "pte_encode p perms \<noteq> 0" for p
    using pte_bits [of p perms] by blast+
  have "0 < unat len" using assms(3) by (simp add: unat_gt_0)
  then show ?thesis
    using range_mapped_eq [of a' va len "write"] assms(3,4) R bytes w by auto
qed

section \<open>Construction and growth\<close>

lemma pt_wf_blank:
  assumes "4096 dvd unat (asp_pool_base a)" and "unat (asp_pool_base a) + length (asp_pool a) * 4096 \<le> 2 ^ 48"
    and "asp_pool_used a = 0" and "\<forall>i \<ge> 2. asp_l1_tab a i = 0"
  shows "pt_wf a"
proof -
  have "l2t a i = None" if "2 \<le> i" for i using assms(4) that by (simp add: l2t_def DESC_TABLE_def)
  moreover from this have "l3t a i j = None" if "2 \<le> i" for i j using that by (simp add: l3t_def)
  ultimately have "tbl a n = None" if "user_node n" for n using that by (cases n) auto
  then show ?thesis
    unfolding pt_wf_def using assms \<open>\<And>i. 2 \<le> i \<Longrightarrow> l2t a i = None\<close> by (auto simp: DESC_TABLE_def)
qed

section \<open>A small address space\<close>

definition small_aspace :: aspace_obj where
  "small_aspace = \<lparr>asp_asid = 1, asp_l1 = 0x40001000, asp_pool_base = 0x40002000, asp_pool_used = 0,
     asp_l1_tab = (\<lambda>_. 0), asp_pool = [\<lambda>_. 0, \<lambda>_. 0, \<lambda>_. 0]\<rparr>"

lemma small_aspace_wf: "pt_wf small_aspace"
  by (rule pt_wf_blank) (simp_all add: small_aspace_def)

lemma small_map_ok: "snd (map_in 0x50000000 USER_VA_BASE 2 PERM_W small_aspace) = Inr ()"
proof -
  have r: "[0..<unat (2 :: u64)] = [0, 1]" by (simp add: upt_rec)
  have ok: "va_range_ok 0x80000000 2" by (simp add: va_range_ok_iff)
  show ?thesis
    unfolding map_in_def r small_aspace_def
    by (simp add: ok walk_alloc_def walk_l2_def alloc_table_def set_l1_def set_pool_def pool_index_def
        pa_of_table_def l1_index_def l2_index_def l3_index_def aspace_consts Let_def word_le_nat_alt)
qed

theorem map_in_exact_witness:
  "leaf (fst (map_in 0x50000000 USER_VA_BASE 2 PERM_W small_aspace)) USER_VA_BASE = pte_encode 0x50000000 PERM_W"
proof -
  have "user_va USER_VA_BASE" by (simp add: user_va_bounds USER_VA_BASE_def)
  then show ?thesis
    using map_in_exact [OF small_aspace_wf, of USER_VA_BASE 2 "0x50000000" PERM_W] small_map_ok
    by (cases "map_in 0x50000000 USER_VA_BASE 2 PERM_W small_aspace") auto
qed

theorem unmap_in_exact_witness:
  "pt_wf (fst (unmap_in USER_VA_BASE 2 small_aspace))"
proof -
  have "va_range_ok USER_VA_BASE 2" by (simp add: va_range_ok_iff USER_VA_BASE_def)
  from unmap_in_exact [OF small_aspace_wf this] show ?thesis by auto
qed

theorem range_mapped_in_exact_witness:
  "range_mapped_in small_aspace USER_VA_BASE 1 False = Some False"
proof -
  have "leaf small_aspace USER_VA_BASE = 0"
    by (simp add: leaf_def lookup_pt_def small_aspace_def DESC_TABLE_def)
  then show ?thesis
    using range_mapped_in_exact [of small_aspace USER_VA_BASE 1 False] by simp
qed

theorem map_then_access_witness:
  "range_mapped_in (fst (map_in 0x50000000 USER_VA_BASE 2 PERM_W small_aspace)) USER_VA_BASE 8192 True = Some True"
proof -
  obtain a' where a': "map_in 0x50000000 USER_VA_BASE 2 PERM_W small_aspace = (a', Inr ())"
    using small_map_ok by (cases "map_in 0x50000000 USER_VA_BASE 2 PERM_W small_aspace") auto
  show ?thesis
    using map_then_access [OF small_aspace_wf a', of 8192 True] a' by (simp add: PERM_W_def)
qed

end
