(* ===== verification/Bytes.thy ===== *)
theory Bytes
  imports Prelude
begin

text \<open>
  Little-endian fields (\<open>src/le-bytes/src/lib.rs\<close>): the byte image of a 16-, 32- or 64-bit word
  and the readers that rebuild a word from a buffer by shifts. A reader that indexes past the
  end of its buffer panics, which is \<^term>\<open>None\<close> here. \<open>le16\<close>, \<open>le32\<close> and \<open>le64\<close> name the bit
  construction the readers share.
\<close>

section \<open>The code\<close>

definition u16_le :: "u16 \<Rightarrow> u8 list" where
  "u16_le x = [ucast x, ucast (drop_bit 8 x)]"

definition u32_le :: "u32 \<Rightarrow> u8 list" where
  "u32_le x = [ucast x, ucast (drop_bit 8 x), ucast (drop_bit 16 x), ucast (drop_bit 24 x)]"

definition u64_le :: "u64 \<Rightarrow> u8 list" where
  "u64_le x =
     [ucast x, ucast (drop_bit 8 x), ucast (drop_bit 16 x), ucast (drop_bit 24 x),
      ucast (drop_bit 32 x), ucast (drop_bit 40 x), ucast (drop_bit 48 x), ucast (drop_bit 56 x)]"

definition le16 :: "u8 \<Rightarrow> u8 \<Rightarrow> u16" where
  "le16 b0 b1 = ucast b0 OR push_bit 8 (ucast b1)"

definition le32 :: "u8 \<Rightarrow> u8 \<Rightarrow> u8 \<Rightarrow> u8 \<Rightarrow> u32" where
  "le32 b0 b1 b2 b3 = ucast b0 OR push_bit 8 (ucast b1) OR push_bit 16 (ucast b2) OR push_bit 24 (ucast b3)"

definition le64 :: "u8 \<Rightarrow> u8 \<Rightarrow> u8 \<Rightarrow> u8 \<Rightarrow> u8 \<Rightarrow> u8 \<Rightarrow> u8 \<Rightarrow> u8 \<Rightarrow> u64" where
  "le64 b0 b1 b2 b3 b4 b5 b6 b7 =
     ucast b0 OR push_bit 8 (ucast b1) OR push_bit 16 (ucast b2) OR push_bit 24 (ucast b3) OR
     push_bit 32 (ucast b4) OR push_bit 40 (ucast b5) OR push_bit 48 (ucast b6) OR push_bit 56 (ucast b7)"

definition read_u16_le :: "u8 list \<Rightarrow> nat \<Rightarrow> u16 option" where
  "read_u16_le buf off =
     (if off + 2 \<le> length buf then Some (le16 (buf ! off) (buf ! (off + 1))) else None)"

definition read_u32_le :: "u8 list \<Rightarrow> nat \<Rightarrow> u32 option" where
  "read_u32_le buf off =
     (if off + 4 \<le> length buf
      then Some (le32 (buf ! off) (buf ! (off + 1)) (buf ! (off + 2)) (buf ! (off + 3)))
      else None)"

definition read_u64_le :: "u8 list \<Rightarrow> nat \<Rightarrow> u64 option" where
  "read_u64_le buf off =
     (if off + 8 \<le> length buf
      then Some (le64 (buf ! off) (buf ! (off + 1)) (buf ! (off + 2)) (buf ! (off + 3))
                   (buf ! (off + 4)) (buf ! (off + 5)) (buf ! (off + 6)) (buf ! (off + 7)))
      else None)"

section \<open>Splitting and rebuilding words\<close>

lemma byte_index:
  fixes n :: nat
  assumes "n < 64"
  obtains m where "m < 8"
    and "n = m \<or> n = 8 + m \<or> n = 16 + m \<or> n = 24 + m \<or> n = 32 + m \<or> n = 40 + m \<or> n = 48 + m \<or> n = 56 + m"
proof (rule that)
  define q r where "q = n div 8" and "r = n mod 8"
  have "n = 8 * q + r" "r < 8" by (simp_all add: q_def r_def)
  moreover from this assms have "q = 0 \<or> q = 1 \<or> q = 2 \<or> q = 3 \<or> q = 4 \<or> q = 5 \<or> q = 6 \<or> q = 7" by arith
  ultimately show "n = n mod 8 \<or> n = 8 + n mod 8 \<or> n = 16 + n mod 8 \<or> n = 24 + n mod 8 \<or>
      n = 32 + n mod 8 \<or> n = 40 + n mod 8 \<or> n = 48 + n mod 8 \<or> n = 56 + n mod 8"
    unfolding r_def [symmetric] by auto
qed simp

lemma bit_byte: "bit (b :: u8) n \<Longrightarrow> n < 8"
  using bit_imp_le_length by fastforce

lemma no_bit_byte [simp]: "8 \<le> n \<Longrightarrow> \<not> bit (b :: u8) n"
  using bit_byte by fastforce

lemma le16_bytes [simp]: "le16 (ucast x) (ucast (drop_bit 8 x)) = x"
  unfolding le16_def
proof (rule bit_word_eqI)
  fix n assume n: "n < LENGTH(16)"
  then obtain m where "m < 8" "n = m \<or> n = 8 + m" using byte_index [of n] by auto
  then show "bit (ucast (ucast x :: u8) OR push_bit 8 (ucast (ucast (drop_bit 8 x) :: u8)) :: u16) n = bit x n"
    using n by (elim disjE) (simp_all add: bit_simps)
qed

lemma le32_bytes [simp]:
  "le32 (ucast x) (ucast (drop_bit 8 x)) (ucast (drop_bit 16 x)) (ucast (drop_bit 24 x)) = x"
proof (rule bit_word_eqI)
  fix n assume n: "n < LENGTH(32)"
  then obtain m where "m < 8" "n = m \<or> n = 8 + m \<or> n = 16 + m \<or> n = 24 + m" using byte_index [of n] by auto
  then show "bit (le32 (ucast x) (ucast (drop_bit 8 x)) (ucast (drop_bit 16 x)) (ucast (drop_bit 24 x))) n = bit x n"
    using n by (elim disjE) (simp_all add: le32_def bit_simps)
qed

lemma le64_bytes [simp]:
  "le64 (ucast x) (ucast (drop_bit 8 x)) (ucast (drop_bit 16 x)) (ucast (drop_bit 24 x))
     (ucast (drop_bit 32 x)) (ucast (drop_bit 40 x)) (ucast (drop_bit 48 x)) (ucast (drop_bit 56 x)) = x"
proof (rule bit_word_eqI)
  fix n assume n: "n < LENGTH(64)"
  then obtain m where "m < 8" "n = m \<or> n = 8 + m \<or> n = 16 + m \<or> n = 24 + m \<or> n = 32 + m \<or> n = 40 + m \<or>
      n = 48 + m \<or> n = 56 + m" using byte_index [of n] by auto
  then show "bit (le64 (ucast x) (ucast (drop_bit 8 x)) (ucast (drop_bit 16 x)) (ucast (drop_bit 24 x))
     (ucast (drop_bit 32 x)) (ucast (drop_bit 40 x)) (ucast (drop_bit 48 x)) (ucast (drop_bit 56 x))) n = bit x n"
    using n by (elim disjE) (simp_all add: le64_def bit_simps)
qed

lemma u16_le_le16 [simp]: "u16_le (le16 b0 b1) = [b0, b1]"
  unfolding u16_le_def le16_def by (auto intro!: bit_word_eqI simp: bit_simps)

lemma u32_le_le32 [simp]: "u32_le (le32 b0 b1 b2 b3) = [b0, b1, b2, b3]"
  unfolding u32_le_def le32_def by (auto intro!: bit_word_eqI simp: bit_simps)

lemma u64_le_le64 [simp]: "u64_le (le64 b0 b1 b2 b3 b4 b5 b6 b7) = [b0, b1, b2, b3, b4, b5, b6, b7]"
  unfolding u64_le_def le64_def by (auto intro!: bit_word_eqI simp: bit_simps)

lemma length_le [simp]: "length (u16_le x) = 2" "length (u32_le y) = 4" "length (u64_le z) = 8"
  by (simp_all add: u16_le_def u32_le_def u64_le_def)

text \<open>A window of the buffer, byte by byte.\<close>

lemma take_drop_nth:
  assumes "off + n \<le> length buf"
  shows "take n (drop off buf) = map (\<lambda>i. buf ! (off + i)) [0 ..< n]"
  by (rule nth_equalityI) (use assms in auto)

lemma read_u16_le_iff: "read_u16_le buf off = Some v \<longleftrightarrow> take 2 (drop off buf) = u16_le v"
proof (cases "off + 2 \<le> length buf")
  case True
  have "take 2 (drop off buf) = [buf ! off, buf ! (off + 1)]"
    unfolding take_drop_nth [OF True] by (simp add: upt_rec numeral_eq_Suc)
  then show ?thesis using True by (auto simp: read_u16_le_def) (simp add: u16_le_def)
next
  case False
  then have "length (take 2 (drop off buf)) \<noteq> length (u16_le v)" by simp
  then have "take 2 (drop off buf) \<noteq> u16_le v" by metis
  then show ?thesis using False by (simp add: read_u16_le_def)
qed

lemma read_u32_le_iff: "read_u32_le buf off = Some v \<longleftrightarrow> take 4 (drop off buf) = u32_le v"
proof (cases "off + 4 \<le> length buf")
  case True
  have "take 4 (drop off buf) = [buf ! off, buf ! (off + 1), buf ! (off + 2), buf ! (off + 3)]"
    unfolding take_drop_nth [OF True] by (simp add: upt_rec numeral_eq_Suc)
  then show ?thesis using True by (auto simp: read_u32_le_def) (simp add: u32_le_def)
next
  case False
  then have "length (take 4 (drop off buf)) \<noteq> length (u32_le v)" by simp
  then have "take 4 (drop off buf) \<noteq> u32_le v" by metis
  then show ?thesis using False by (simp add: read_u32_le_def)
qed

lemma read_u64_le_iff: "read_u64_le buf off = Some v \<longleftrightarrow> take 8 (drop off buf) = u64_le v"
proof (cases "off + 8 \<le> length buf")
  case True
  have "take 8 (drop off buf) = [buf ! off, buf ! (off + 1), buf ! (off + 2), buf ! (off + 3),
      buf ! (off + 4), buf ! (off + 5), buf ! (off + 6), buf ! (off + 7)]"
    unfolding take_drop_nth [OF True] by (simp add: upt_rec numeral_eq_Suc)
  then show ?thesis using True by (auto simp: read_u64_le_def) (simp add: u64_le_def)
next
  case False
  then have "length (take 8 (drop off buf)) \<noteq> length (u64_le v)" by simp
  then have "take 8 (drop off buf) \<noteq> u64_le v" by metis
  then show ?thesis using False by (simp add: read_u64_le_def)
qed

text \<open>
  C30: the readers of little-endian fields. At each width the reader returns a value exactly when
  the bytes at the offset are the little-endian image of that value; it fails only when
  the field does not fit in the buffer.
\<close>

theorem read_le_exact:
  "(read_u16_le buf off = Some v16 \<longleftrightarrow> take 2 (drop off buf) = u16_le v16) \<and>
   (read_u32_le buf off = Some v32 \<longleftrightarrow> take 4 (drop off buf) = u32_le v32) \<and>
   (read_u64_le buf off = Some v64 \<longleftrightarrow> take 8 (drop off buf) = u64_le v64) \<and>
   (read_u16_le buf off = None \<longleftrightarrow> length buf < off + 2) \<and>
   (read_u32_le buf off = None \<longleftrightarrow> length buf < off + 4) \<and>
   (read_u64_le buf off = None \<longleftrightarrow> length buf < off + 8)"
  by (auto simp: read_u16_le_iff read_u32_le_iff read_u64_le_iff) (auto simp: read_u16_le_def read_u32_le_def read_u64_le_def split: if_splits)

end
