(* ===== verification/Syscalls.thy ===== *)
theory Syscalls
  imports Sysabi Untypeds Threads Chanrings Sched Paging Bytes
begin

text \<open>
  The system calls and the exception handlers (\<open>src/kernel/src/syscall.rs\<close>,
  \<open>src/kernel/src/exceptions.rs\<close>, \<open>map_frame\<close> of \<open>src/kcore/src/cspace.rs\<close>).

  \<^item> A machine is the store, the trap frame on the kernel stack, the bytes of physical memory
    that frames and the user window give access to, the bytes sent to the serial port and the
    commands sent to the interrupt controller.
  \<^item> The kernel reads and writes user memory through the translation of the current thread:
    \<^term>\<open>user_pa\<close> is the identity for a thread without an address space (the boot tables map the
    user window one to one) and the walk of its tables otherwise.
  \<^item> There is one definition per arm of \<open>execute\<close>, named after the call. The result is the value
    for \<open>x0\<close>, or \<^term>\<open>None\<close> when the arm returns nothing to write (the thread blocked, yielded or
    exited), with the machine; the outer option is that of the loops of the operations.
    Results are 64-bit words; the error numbers are negative.
  \<^item> What the code reads from the outside is in \<open>env\<close>: the layout of the build, whether the
    diagnostic calls are compiled in, the value of the counter.

  The invariant of the kernel is \<open>kernel_inv\<close>: the store's invariant, the confinement of
  authority and the bound on priorities. Every call and every handler keeps it.
\<close>

section \<open>The machine\<close>

record machine =
  m_store :: kstore
  m_frame :: trap_frame
  m_mem :: "u64 \<Rightarrow> u8"
  m_uart :: "u8 list"
  m_gic :: "gic_op list"

record env =
  env_platform :: platform
  env_debug_log :: bool
  env_counter :: u64

type_synonym outcome = "(u64 option \<times> machine) option"

definition ERR_BADSLOT :: u64 where "ERR_BADSLOT = - 1"
definition ERR_TYPE :: u64 where "ERR_TYPE = - 2"
definition ERR_PERM :: u64 where "ERR_PERM = - 3"
definition ERR_FULL :: u64 where "ERR_FULL = - 4"
definition ERR_EMPTY :: u64 where "ERR_EMPTY = - 5"
definition ERR_NOSLOT :: u64 where "ERR_NOSLOT = - 6"
definition ERR_FAULT :: u64 where "ERR_FAULT = - 7"
definition ERR_NOMEM :: u64 where "ERR_NOMEM = - 8"
definition ERR_ARG :: u64 where "ERR_ARG = - 9"
definition ERR_CLOSED :: u64 where "ERR_CLOSED = - 10"
definition ERR_STATE :: u64 where "ERR_STATE = - 11"
definition ERR_AGAIN :: u64 where "ERR_AGAIN = - 12"
definition SLOT_NONE :: u32 where "SLOT_NONE = 0xFFFFFFFF"
definition REVOKE_QUANTUM :: nat where "REVOKE_QUANTUM = 16"
definition USER_BASE :: u64 where "USER_BASE = 0x48000000"
definition USER_SIZE :: u64 where "USER_SIZE = 0x00200000"

definition reply :: "u64 \<Rightarrow> machine \<Rightarrow> outcome" where
  "reply r m = Some (Some r, m)"

section \<open>User memory\<close>

definition user_range_ok :: "obj_id \<Rightarrow> u64 \<Rightarrow> u64 \<Rightarrow> kstore \<Rightarrow> bool option" where
  "user_range_ok cur ptr len s =
     (case tcb_aspace (tcbs s cur) of
        None \<Rightarrow> Some (len \<le> USER_SIZE \<and> USER_BASE \<le> ptr \<and>
                 (case checked_add ptr len of None \<Rightarrow> False | Some e \<Rightarrow> e \<le> USER_BASE + USER_SIZE))
      | Some a \<Rightarrow> range_mapped_in (aspaces s a) ptr len False)"

definition user_range_writable :: "obj_id \<Rightarrow> u64 \<Rightarrow> u64 \<Rightarrow> kstore \<Rightarrow> bool option" where
  "user_range_writable cur ptr len s =
     (case tcb_aspace (tcbs s cur) of
        None \<Rightarrow> user_range_ok cur ptr len s
      | Some a \<Rightarrow> range_mapped_in (aspaces s a) ptr len True)"

definition user_pa :: "obj_id \<Rightarrow> kstore \<Rightarrow> u64 \<Rightarrow> u64" where
  "user_pa cur s va =
     (case tcb_aspace (tcbs s cur) of
        None \<Rightarrow> va
      | Some a \<Rightarrow> pte_output_pa (leaf (aspaces s a) va) OR (va AND 0xFFF))"

definition read_user :: "obj_id \<Rightarrow> u64 \<Rightarrow> nat \<Rightarrow> machine \<Rightarrow> u8 list" where
  "read_user cur va n m = map (\<lambda>i. m_mem m (user_pa cur (m_store m) (va + of_nat i))) [0 ..< n]"

fun store_bytes :: "(nat \<Rightarrow> u64) \<Rightarrow> nat \<Rightarrow> u8 list \<Rightarrow> (u64 \<Rightarrow> u8) \<Rightarrow> u64 \<Rightarrow> u8" where
  "store_bytes pa i [] mem = mem"
| "store_bytes pa i (b # bs) mem = store_bytes pa (Suc i) bs (mem(pa i := b))"

definition write_user :: "obj_id \<Rightarrow> u64 \<Rightarrow> u8 list \<Rightarrow> machine \<Rightarrow> machine" where
  "write_user cur va bs m = m\<lparr>m_mem := store_bytes (\<lambda>i. user_pa cur (m_store m) (va + of_nat i)) 0 bs (m_mem m)\<rparr>"

section \<open>Slots\<close>

definition cspace_at :: "obj_id \<Rightarrow> u32 \<Rightarrow> kstore \<Rightarrow> slot_id option" where
  "cspace_at cs i s =
     (if cspace_num_slots (cspaces s cs) \<le> i then None else Some (cspace_slot (cspaces s cs) i))"

definition cur_slot :: "obj_id \<Rightarrow> u64 \<Rightarrow> kstore \<Rightarrow> slot_id option" where
  "cur_slot cur idx s =
     (if 0xFFFFFFFF < idx then None
      else case tcb_cspace (tcbs s cur) of
        None \<Rightarrow> None
      | Some cs \<Rightarrow> cspace_at cs (ucast idx) s)"

text \<open>The loop over the four indices of a capability list.\<close>

fun resolve_indices :: "obj_id \<Rightarrow> bool \<Rightarrow> u32 list \<Rightarrow> kstore \<Rightarrow> u64 + slot_id option list" where
  "resolve_indices cur require_full [] s = Inr []"
| "resolve_indices cur require_full (idx # is) s =
     (if idx = SLOT_NONE then map_sum id (Cons None) (resolve_indices cur require_full is s)
      else case cur_slot cur (ucast idx) s of
        None \<Rightarrow> Inl ERR_BADSLOT
      | Some k \<Rightarrow>
          if require_full \<and> cap_is_empty (cap (slots s k)) then Inl ERR_BADSLOT
          else map_sum id (Cons (Some k)) (resolve_indices cur require_full is s))"

definition read_indices :: "obj_id \<Rightarrow> u64 \<Rightarrow> machine \<Rightarrow> u32 list" where
  "read_indices cur list_ptr m =
     map (\<lambda>i. case read_u32_le (read_user cur (list_ptr + of_nat (4 * i)) 4 m) 0 of None \<Rightarrow> 0 | Some v \<Rightarrow> v)
       [0 ..< MSG_CAPS]"

definition resolve_cap_list :: "obj_id \<Rightarrow> u64 \<Rightarrow> bool \<Rightarrow> machine \<Rightarrow> (u64 + slot_id option list) option" where
  "resolve_cap_list cur list_ptr require_full m =
     (if list_ptr = 0 then Some (Inr (replicate MSG_CAPS None))
      else do { ok \<leftarrow> user_range_ok cur list_ptr (of_nat (MSG_CAPS * 4)) (m_store m);
                Some (if \<not> ok \<or> list_ptr mod 4 \<noteq> 0 then Inl ERR_FAULT
                      else resolve_indices cur require_full (read_indices cur list_ptr m) (m_store m)) })"

section \<open>Diagnostics and scheduling\<close>

text \<open>
  \<open>write_char(b as char)\<close>: the byte as a Latin-1 character, in UTF-8, with a carriage return
  before a line feed.
\<close>

definition uart_char :: "u8 \<Rightarrow> u8 list" where
  "uart_char b =
     (if b = 10 then [13, 10]
      else if b < 0x80 then [b]
      else [0xC0 OR drop_bit 6 b, 0x80 OR (b AND 0x3F)])"

definition exec_debug_putc :: "env \<Rightarrow> u64 \<Rightarrow> machine \<Rightarrow> outcome" where
  "exec_debug_putc v ch m =
     reply 0 (if env_debug_log v then m\<lparr>m_uart := m_uart m @ uart_char (ucast ch)\<rparr> else m)"

definition exec_debug_write :: "env \<Rightarrow> obj_id \<Rightarrow> u64 \<Rightarrow> u64 \<Rightarrow> machine \<Rightarrow> outcome" where
  "exec_debug_write v cur ptr len m =
     (if env_debug_log v
      then do { ok \<leftarrow> user_range_ok cur ptr len (m_store m);
                if \<not> ok \<or> DEBUG_WRITE_MAX < len then reply ERR_FAULT m
                else reply 0 (m\<lparr>m_uart := m_uart m @ concat (map uart_char (read_user cur ptr (unat len) m))\<rparr>) }
      else reply 0 m)"

definition set_x :: "nat \<Rightarrow> u64 \<Rightarrow> machine \<Rightarrow> machine" where
  "set_x i v m = m\<lparr>m_frame := (m_frame m)\<lparr>tf_x := (tf_x (m_frame m))(i := v)\<rparr>\<rparr>"

definition schedule :: "bool \<Rightarrow> machine \<Rightarrow> machine" where
  "schedule preempt_equal m =
     (case maybe_switch (m_frame m) preempt_equal (m_store m) of
        (f, s, _) \<Rightarrow> m\<lparr>m_frame := f, m_store := s\<rparr>)"

definition exec_yield :: "machine \<Rightarrow> outcome" where
  "exec_yield m = Some (None, schedule True (set_x 0 0 m))"

section \<open>Memory and capabilities\<close>

text \<open>The frame arm of the retype shell clears the memory of the new frame.\<close>

definition zero_frame :: "platform \<Rightarrow> slot_id \<Rightarrow> obj_type \<Rightarrow> u64 \<Rightarrow> machine \<Rightarrow> machine" where
  "zero_frame z ut ty param m =
     (case kind (cap (slots (m_store m) ut)) of
        Untyped base sz watermark \<Rightarrow>
          (case carve z base sz watermark ty param of
             Inr c \<Rightarrow> if ty = ObjFrame
               then m\<lparr>m_mem := store_bytes (\<lambda>i. carve_start c + of_nat i) 0 (replicate (unat (carve_bytes c)) 0) (m_mem m)\<rparr>
               else m
           | Inl _ \<Rightarrow> m)
      | _ \<Rightarrow> m)"

definition exec_retype :: "env \<Rightarrow> obj_id \<Rightarrow> u64 \<Rightarrow> obj_type \<Rightarrow> u64 \<Rightarrow> u64 \<Rightarrow> u64 \<Rightarrow> machine \<Rightarrow> outcome" where
  "exec_retype v cur ut ty param dst dst2 m =
     (let s = m_store m in
      case (cur_slot cur ut s, cur_slot cur dst s) of
        (Some ut, Some dst) \<Rightarrow>
          (let d2 = (if ty = ObjChannel then cur_slot cur dst2 s else None) in
           if ty = ObjChannel \<and> d2 = None then reply ERR_BADSLOT m
           else case retype (env_platform v) cur ut ty param dst d2 s of
             (Inr _, s') \<Rightarrow> reply 0 ((zero_frame (env_platform v) ut ty param m)\<lparr>m_store := s'\<rparr>)
           | (Inl NotUntyped, s') \<Rightarrow> reply ERR_TYPE (m\<lparr>m_store := s'\<rparr>)
           | (Inl DestOccupied, s') \<Rightarrow> reply ERR_NOSLOT (m\<lparr>m_store := s'\<rparr>)
           | (Inl NoMemory, s') \<Rightarrow> reply ERR_NOMEM (m\<lparr>m_store := s'\<rparr>)
           | (Inl BadArg, s') \<Rightarrow> reply ERR_ARG (m\<lparr>m_store := s'\<rparr>))
      | _ \<Rightarrow> reply ERR_BADSLOT m)"

definition exec_cap_copy :: "obj_id \<Rightarrow> u64 \<Rightarrow> u64 \<Rightarrow> u64 \<Rightarrow> u64 \<Rightarrow> machine \<Rightarrow> outcome" where
  "exec_cap_copy cur src dst msk prio_ceiling m =
     (let s = m_store m in
      case (cur_slot cur src s, cur_slot cur dst s) of
        (Some src, Some dst) \<Rightarrow>
          do { rev \<leftarrow> ancestor_or_self_revoking (slots s) src;
               if rev then reply ERR_AGAIN m
               else do { (r, s') \<leftarrow> derive src dst (ucast msk) (ucast prio_ceiling) s;
                         reply (case r of Inr _ \<Rightarrow> 0 | Inl _ \<Rightarrow> ERR_NOSLOT) (m\<lparr>m_store := s'\<rparr>) } }
      | _ \<Rightarrow> reply ERR_BADSLOT m)"

definition exec_cap_delete :: "obj_id \<Rightarrow> u64 \<Rightarrow> machine \<Rightarrow> outcome" where
  "exec_cap_delete cur slot' m =
     (case cur_slot cur slot' (m_store m) of
        None \<Rightarrow> reply ERR_BADSLOT m
      | Some k \<Rightarrow>
          if cap_is_empty (cap (slots (m_store m) k)) then reply ERR_BADSLOT m
          else do { s' \<leftarrow> delete k (m_store m); reply 0 (m\<lparr>m_store := s'\<rparr>) })"

definition exec_cap_revoke :: "obj_id \<Rightarrow> u64 \<Rightarrow> machine \<Rightarrow> outcome" where
  "exec_cap_revoke cur slot' m =
     (case cur_slot cur slot' (m_store m) of
        None \<Rightarrow> reply ERR_BADSLOT m
      | Some k \<Rightarrow>
          if cap_is_empty (cap (slots (m_store m) k)) then reply ERR_BADSLOT m
          else do { (st, s') \<leftarrow> revoke_step k REVOKE_QUANTUM (m_store m);
                    reply (case st of Done \<Rightarrow> 0 | More \<Rightarrow> ERR_AGAIN) (m\<lparr>m_store := s'\<rparr>) })"

definition exec_cap_install :: "obj_id \<Rightarrow> u64 \<Rightarrow> u64 \<Rightarrow> u64 \<Rightarrow> machine \<Rightarrow> outcome" where
  "exec_cap_install cur cs src dst_index m =
     (let s = m_store m in
      case (cur_slot cur cs s, cur_slot cur src s) of
        (Some cs_slot, Some src) \<Rightarrow>
          if cap_is_empty (cap (slots s src)) then reply ERR_BADSLOT m
          else (case kind (cap (slots s cs_slot)) of
            CSpace cs \<Rightarrow>
              if 0xFFFFFFFF < dst_index then reply ERR_ARG m
              else (case cspace_at cs (ucast dst_index) s of
                None \<Rightarrow> reply ERR_BADSLOT m
              | Some dst \<Rightarrow>
                  if \<not> cap_is_empty (cap (slots s dst)) then reply ERR_NOSLOT m
                  else do { s' \<leftarrow> store_move src dst s; reply 0 (m\<lparr>m_store := s'\<rparr>) })
          | _ \<Rightarrow> reply ERR_TYPE m)
      | _ \<Rightarrow> reply ERR_BADSLOT m)"

section \<open>Channels and notifications\<close>

definition exec_chan_send :: "obj_id \<Rightarrow> u64 \<Rightarrow> u64 \<Rightarrow> u64 \<Rightarrow> u64 \<Rightarrow> machine \<Rightarrow> outcome" where
  "exec_chan_send cur chan buf len caps m =
     (let s = m_store m in
      case cur_slot cur chan s of
        None \<Rightarrow> reply ERR_BADSLOT m
      | Some k \<Rightarrow>
          (case kind (cap (slots s k)) of
             Channel ch end' \<Rightarrow>
               if \<not> has_rights (rights (cap (slots s k))) WRITE then reply ERR_PERM m
               else do {
                 ok \<leftarrow> user_range_ok cur buf len s;
                 if \<not> ok then reply ERR_FAULT m
                 else do {
                   cl \<leftarrow> resolve_cap_list cur caps True m;
                   case cl of
                     Inl e \<Rightarrow> reply e m
                   | Inr capslots \<Rightarrow> do {
                       (r, s') \<leftarrow> send ch end' (read_user cur buf (unat len) m) capslots s;
                       reply (case r of Inr _ \<Rightarrow> 0 | Inl Full \<Rightarrow> ERR_FULL | Inl PeerClosed \<Rightarrow> ERR_CLOSED | Inl _ \<Rightarrow> ERR_ARG)
                         (m\<lparr>m_store := s'\<rparr>) } } }
           | _ \<Rightarrow> reply ERR_TYPE m))"

definition exec_chan_recv :: "obj_id \<Rightarrow> u64 \<Rightarrow> u64 \<Rightarrow> u64 \<Rightarrow> machine \<Rightarrow> outcome" where
  "exec_chan_recv cur chan buf dests m =
     (let s = m_store m in
      case cur_slot cur chan s of
        None \<Rightarrow> reply ERR_BADSLOT m
      | Some k \<Rightarrow>
          (case kind (cap (slots s k)) of
             Channel ch end' \<Rightarrow>
               if \<not> has_rights (rights (cap (slots s k))) READ then reply ERR_PERM m
               else do {
                 ok \<leftarrow> user_range_ok cur buf (of_nat MSG_PAYLOAD) s;
                 if \<not> ok then reply ERR_FAULT m
                 else do {
                   wr \<leftarrow> user_range_writable cur buf (of_nat MSG_PAYLOAD) s;
                   if \<not> wr then reply ERR_FAULT m
                   else do {
                     dl \<leftarrow> resolve_cap_list cur dests False m;
                     case dl of
                       Inl e \<Rightarrow> reply e m
                     | Inr destslots \<Rightarrow> do {
                         (r, s') \<leftarrow> recv ch end' (replicate MSG_PAYLOAD 0) destslots s;
                         case r of
                           Inr (len, msk, rbuf) \<Rightarrow>
                             reply (of_nat len) (set_x 1 (ucast msk) (write_user cur buf (take len rbuf) (m\<lparr>m_store := s'\<rparr>)))
                         | Inl ChanEmpty \<Rightarrow> reply ERR_EMPTY (m\<lparr>m_store := s'\<rparr>)
                         | Inl NoCapSlot \<Rightarrow> reply ERR_NOSLOT (m\<lparr>m_store := s'\<rparr>)
                         | Inl _ \<Rightarrow> reply ERR_ARG (m\<lparr>m_store := s'\<rparr>) } } } }
           | _ \<Rightarrow> reply ERR_TYPE m))"

text \<open>The notification a call will make the kernel signal through: it needs the right to write.\<close>

definition signal_target :: "slot_id \<Rightarrow> kstore \<Rightarrow> u64 + obj_id" where
  "signal_target ns s =
     (case kind (cap (slots s ns)) of
        Notification n \<Rightarrow> if has_rights (rights (cap (slots s ns))) WRITE then Inr n else Inl ERR_PERM
      | _ \<Rightarrow> Inl ERR_TYPE)"

definition exec_chan_bind :: "obj_id \<Rightarrow> u64 \<Rightarrow> nat \<Rightarrow> u64 \<Rightarrow> u64 \<Rightarrow> machine \<Rightarrow> outcome" where
  "exec_chan_bind cur chan event notif bits m =
     (let s = m_store m in
      case (cur_slot cur chan s, cur_slot cur notif s) of
        (Some k, Some ns) \<Rightarrow>
          (case kind (cap (slots s k)) of
             Channel ch end' \<Rightarrow>
               (case signal_target ns s of
                  Inl e \<Rightarrow> reply e m
                | Inr n \<Rightarrow> reply 0 (m\<lparr>m_store := chan_bind ch end' event (Some n) bits s\<rparr>))
           | _ \<Rightarrow> reply ERR_TYPE m)
      | _ \<Rightarrow> reply ERR_BADSLOT m)"

definition exec_notif_signal :: "obj_id \<Rightarrow> u64 \<Rightarrow> u64 \<Rightarrow> machine \<Rightarrow> outcome" where
  "exec_notif_signal cur slot' bits m =
     (let s = m_store m in
      case cur_slot cur slot' s of
        None \<Rightarrow> reply ERR_BADSLOT m
      | Some ns \<Rightarrow>
          (case signal_target ns s of
             Inl e \<Rightarrow> reply e m
           | Inr n \<Rightarrow> reply 0 (m\<lparr>m_store := signal n bits s\<rparr>)))"

definition exec_notif_wait :: "obj_id \<Rightarrow> u64 \<Rightarrow> machine \<Rightarrow> outcome" where
  "exec_notif_wait cur slot' m =
     (let s = m_store m in
      case cur_slot cur slot' s of
        None \<Rightarrow> reply ERR_BADSLOT m
      | Some k \<Rightarrow>
          (case kind (cap (slots s k)) of
             Notification n \<Rightarrow>
               if \<not> has_rights (rights (cap (slots s k))) READ then reply ERR_PERM m
               else (case notif_wait n cur s of (r, s') \<Rightarrow> Some (r, m\<lparr>m_store := s'\<rparr>))
           | _ \<Rightarrow> reply ERR_TYPE m))"

section \<open>Threads, timers and interrupts\<close>

text \<open>The tail of the two spawning calls: registers, and the ready queue.\<close>

definition start_thread :: "obj_id \<Rightarrow> u64 \<Rightarrow> u64 \<Rightarrow> u64 \<Rightarrow> kstore \<Rightarrow> kstore" where
  "start_thread t entry sp arg s =
     ready_enqueue t (set_tcb_frame t
       (tf_zeroed\<lparr>tf_elr := entry, tf_sp_el0 := sp, tf_spsr := 0, tf_x := (tf_x tf_zeroed)(0 := arg)\<rparr>) s)"

definition exec_thread_start ::
    "obj_id \<Rightarrow> u64 \<Rightarrow> u64 \<Rightarrow> u64 \<Rightarrow> u64 \<Rightarrow> u8 \<Rightarrow> u64 \<Rightarrow> machine \<Rightarrow> outcome" where
  "exec_thread_start cur tcb cspace entry sp prio arg m =
     (let s = m_store m in
      case (cur_slot cur tcb s, cur_slot cur cspace s) of
        (Some ts, Some cs_slot) \<Rightarrow>
          (case (kind (cap (slots s ts)), kind (cap (slots s cs_slot))) of
             (Thread t max_prio, CSpace cs) \<Rightarrow>
               if tcb_state (tcbs s t) \<noteq> Inactive then reply ERR_STATE m
               else do {
                 ok \<leftarrow> user_range_ok cur entry 4 s;
                 ok' \<leftarrow> user_range_ok cur sp 0 s;
                 if \<not> ok \<or> \<not> ok' then reply ERR_FAULT m
                 else (case set_priority t prio max_prio s of
                   (Inl _, s) \<Rightarrow> reply ERR_PERM (m\<lparr>m_store := s\<rparr>)
                 | (Inr _, s) \<Rightarrow>
                     (let s = set_obj_refs cs (refs s cs + 1) s;
                          s = set_tcb_cspace t (Some cs) s
                      in reply 0 (m\<lparr>m_store := start_thread t entry sp arg s\<rparr>))) }
           | _ \<Rightarrow> reply ERR_TYPE m)
      | _ \<Rightarrow> reply ERR_BADSLOT m)"

definition exec_thread_start_as ::
    "obj_id \<Rightarrow> u64 \<Rightarrow> u64 \<Rightarrow> u64 \<Rightarrow> u64 \<Rightarrow> u64 \<Rightarrow> u8 \<Rightarrow> u64 \<Rightarrow> machine \<Rightarrow> outcome" where
  "exec_thread_start_as cur tcb cspace aspace entry sp prio arg m =
     (let s = m_store m in
      case (cur_slot cur tcb s, cur_slot cur cspace s, cur_slot cur aspace s) of
        (Some ts, Some cs_slot, Some asp_slot) \<Rightarrow>
          (case (kind (cap (slots s ts)), kind (cap (slots s cs_slot)), kind (cap (slots s asp_slot))) of
             (Thread t max_prio, CSpace cs, Aspace asp) \<Rightarrow>
               if tcb_state (tcbs s t) \<noteq> Inactive then reply ERR_STATE m
               else (case set_priority t prio max_prio s of
                 (Inl _, s) \<Rightarrow> reply ERR_PERM (m\<lparr>m_store := s\<rparr>)
               | (Inr _, s) \<Rightarrow> do {
                   ok \<leftarrow> range_mapped_in (aspaces s asp) entry 4 False;
                   if \<not> ok then reply ERR_FAULT (m\<lparr>m_store := s\<rparr>)
                   else
                     (let s = set_obj_refs cs (refs s cs + 1) s;
                          s = set_obj_refs asp (refs s asp + 1) s;
                          s = set_tcb_cspace t (Some cs) s;
                          s = set_tcb_aspace t (Some asp) s
                      in reply 0 (m\<lparr>m_store := start_thread t entry sp arg s\<rparr>)) })
           | _ \<Rightarrow> reply ERR_TYPE m)
      | _ \<Rightarrow> reply ERR_BADSLOT m)"

definition exec_timer_arm :: "env \<Rightarrow> obj_id \<Rightarrow> u64 \<Rightarrow> u64 \<Rightarrow> u64 \<Rightarrow> u64 \<Rightarrow> machine \<Rightarrow> outcome" where
  "exec_timer_arm v cur timer notif bits delta m =
     (let s = m_store m in
      case (cur_slot cur timer s, cur_slot cur notif s) of
        (Some ts, Some ns) \<Rightarrow>
          (case kind (cap (slots s ts)) of
             Timer t \<Rightarrow>
               (case signal_target ns s of
                  Inl e \<Rightarrow> reply e m
                | Inr n \<Rightarrow> do { s' \<leftarrow> arm t n bits (saturating_add (env_counter v) delta) s; reply 0 (m\<lparr>m_store := s'\<rparr>) })
           | _ \<Rightarrow> reply ERR_TYPE m)
      | _ \<Rightarrow> reply ERR_BADSLOT m)"

definition exec_irq_bind :: "obj_id \<Rightarrow> u64 \<Rightarrow> u64 \<Rightarrow> u64 \<Rightarrow> machine \<Rightarrow> outcome" where
  "exec_irq_bind cur irq notif bits m =
     (let s = m_store m in
      case (cur_slot cur irq s, cur_slot cur notif s) of
        (Some is, Some ns) \<Rightarrow>
          (case kind (cap (slots s is)) of
             Irq i \<Rightarrow>
               (case signal_target ns s of
                  Inl e \<Rightarrow> reply e m
                | Inr n \<Rightarrow> reply 0 (m\<lparr>m_store := irq_bind i n bits s\<rparr>))
           | _ \<Rightarrow> reply ERR_TYPE m)
      | _ \<Rightarrow> reply ERR_BADSLOT m)"

definition exec_irq_ack :: "obj_id \<Rightarrow> u64 \<Rightarrow> machine \<Rightarrow> outcome" where
  "exec_irq_ack cur irq m =
     (let s = m_store m in
      case cur_slot cur irq s of
        None \<Rightarrow> reply ERR_BADSLOT m
      | Some is \<Rightarrow>
          (case kind (cap (slots s is)) of
             Irq i \<Rightarrow> (case irq_ack i s of (ops, s') \<Rightarrow> reply 0 (m\<lparr>m_store := s', m_gic := m_gic m @ ops\<rparr>))
           | _ \<Rightarrow> reply ERR_TYPE m))"

definition exec_thread_exit :: "obj_id \<Rightarrow> u64 \<Rightarrow> machine \<Rightarrow> outcome" where
  "exec_thread_exit cur status m =
     Some (None, m\<lparr>m_store := report_terminal cur (Exited status) (set_tcb_state cur Halted (m_store m))\<rparr>)"

definition exec_thread_bind :: "obj_id \<Rightarrow> u64 \<Rightarrow> nat \<Rightarrow> u64 \<Rightarrow> u64 \<Rightarrow> machine \<Rightarrow> outcome" where
  "exec_thread_bind cur tcb which notif bits m =
     (let s = m_store m in
      case cur_slot cur tcb s of
        None \<Rightarrow> reply ERR_BADSLOT m
      | Some ts \<Rightarrow>
          (case kind (cap (slots s ts)) of
             Thread t _ \<Rightarrow>
               if \<not> has_rights (rights (cap (slots s ts))) BIND_REPORTS then reply ERR_PERM m
               else if notif = ucast SLOT_NONE
               then do { s' \<leftarrow> thread_bind t which None bits s; reply 0 (m\<lparr>m_store := s'\<rparr>) }
               else (case cur_slot cur notif s of
                  None \<Rightarrow> reply ERR_BADSLOT m
                | Some ns \<Rightarrow>
                    (case signal_target ns s of
                       Inl e \<Rightarrow> reply e m
                     | Inr _ \<Rightarrow> do { s' \<leftarrow> thread_bind t which (Some ns) bits s; reply 0 (m\<lparr>m_store := s'\<rparr>) }))
           | _ \<Rightarrow> reply ERR_TYPE m))"

fun report_regs :: "report \<Rightarrow> u64 \<times> u64 \<times> u64" where
  "report_regs ReportRunning = (0, 0, 0)"
| "report_regs (Exited status) = (1, status, 0)"
| "report_regs (ReportFaulted cause far) = (2, cause, far)"

definition exec_read_report :: "obj_id \<Rightarrow> u64 \<Rightarrow> machine \<Rightarrow> outcome" where
  "exec_read_report cur tcb m =
     (let s = m_store m in
      case cur_slot cur tcb s of
        None \<Rightarrow> reply ERR_BADSLOT m
      | Some ts \<Rightarrow>
          (case kind (cap (slots s ts)) of
             Thread t _ \<Rightarrow>
               if \<not> has_rights (rights (cap (slots s ts))) READ_REPORT then reply ERR_PERM m
               else (case report_regs (tcb_report (tcbs s t)) of
                 (code, v1, v2) \<Rightarrow> reply code (set_x 2 v2 (set_x 1 v1 m)))
           | _ \<Rightarrow> reply ERR_TYPE m))"

section \<open>Address spaces and frames\<close>

definition map_frame ::
    "slot_id \<Rightarrow> obj_id \<Rightarrow> u64 \<Rightarrow> u64 \<Rightarrow> kstore \<Rightarrow> (map_error + unit) \<times> kstore" where
  "map_frame frame_slot asp va perms s =
     (let cs = slots s frame_slot in
      case kind (cap cs) of
        Frame base pages _ \<Rightarrow>
          (case aspace_map asp base va pages perms s of
             (s, Inl e) \<Rightarrow> (Inl e, s)
           | (s, Inr _) \<Rightarrow>
               (let new = cs\<lparr>cap := \<lparr>kind = Frame base pages (Some (asp, va)), rights = rights (cap cs)\<rparr>\<rparr>
                in (Inr (), ref_aspace asp (set_slot frame_slot new s))))
      | _ \<Rightarrow> (Inl BadVa, s))"

definition exec_map :: "obj_id \<Rightarrow> u64 \<Rightarrow> u64 \<Rightarrow> u64 \<Rightarrow> u64 \<Rightarrow> machine \<Rightarrow> outcome" where
  "exec_map cur aspace fr va perms m =
     (let s = m_store m in
      case (cur_slot cur aspace s, cur_slot cur fr s) of
        (Some asp_slot, Some fr_slot) \<Rightarrow>
          (case kind (cap (slots s asp_slot)) of
             Aspace asp \<Rightarrow>
               if \<not> has_rights (rights (cap (slots s asp_slot))) WRITE then reply ERR_PERM m
               else (case kind (cap (slots s fr_slot)) of
                  Frame _ _ mapping \<Rightarrow>
                    (let r = rights (cap (slots s fr_slot)) in
                     if mapping \<noteq> None then reply ERR_STATE m
                     else if perms AND PERM_W \<noteq> 0 \<and> \<not> has_rights r WRITE then reply ERR_PERM m
                     else if perms AND PERM_DEVICE \<noteq> 0 \<and> \<not> has_rights r PHYS then reply ERR_PERM m
                     else case map_frame fr_slot asp va perms s of
                       (Inr _, s') \<Rightarrow> reply 0 (m\<lparr>m_store := s'\<rparr>)
                     | (Inl NeedMemory, s') \<Rightarrow> reply ERR_NOMEM (m\<lparr>m_store := s'\<rparr>)
                     | (Inl AlreadyMapped, s') \<Rightarrow> reply ERR_STATE (m\<lparr>m_store := s'\<rparr>)
                     | (Inl BadVa, s') \<Rightarrow> reply ERR_ARG (m\<lparr>m_store := s'\<rparr>))
                | _ \<Rightarrow> reply ERR_TYPE m)
           | _ \<Rightarrow> reply ERR_TYPE m)
      | _ \<Rightarrow> reply ERR_BADSLOT m)"

definition exec_frame_write :: "obj_id \<Rightarrow> u64 \<Rightarrow> u64 \<Rightarrow> u64 \<Rightarrow> u64 \<Rightarrow> machine \<Rightarrow> outcome" where
  "exec_frame_write cur fr off buf len m =
     (let s = m_store m in
      case cur_slot cur fr s of
        None \<Rightarrow> reply ERR_BADSLOT m
      | Some fr_slot \<Rightarrow>
          (case kind (cap (slots s fr_slot)) of
             Frame base pages _ \<Rightarrow>
               if \<not> has_rights (rights (cap (slots s fr_slot))) WRITE then reply ERR_PERM m
               else if (case checked_add off len of None \<Rightarrow> True | Some e \<Rightarrow> pages * 4096 < e) then reply ERR_ARG m
               else do {
                 ok \<leftarrow> user_range_ok cur buf len s;
                 if \<not> ok then reply ERR_FAULT m
                 else reply 0 (m\<lparr>m_mem := store_bytes (\<lambda>i. base + off + of_nat i) 0
                                   (read_user cur buf (unat len) m) (m_mem m)\<rparr>) }
           | _ \<Rightarrow> reply ERR_TYPE m))"

definition exec_frame_paddr :: "obj_id \<Rightarrow> u64 \<Rightarrow> machine \<Rightarrow> outcome" where
  "exec_frame_paddr cur slot' m =
     (let s = m_store m in
      case cur_slot cur slot' s of
        None \<Rightarrow> reply ERR_BADSLOT m
      | Some k \<Rightarrow>
          (case kind (cap (slots s k)) of
             Frame base _ _ \<Rightarrow>
               if \<not> has_rights (rights (cap (slots s k))) PHYS then reply ERR_PERM m else reply base m
           | _ \<Rightarrow> reply ERR_TYPE m))"

definition exec_untyped_reset :: "obj_id \<Rightarrow> u64 \<Rightarrow> machine \<Rightarrow> outcome" where
  "exec_untyped_reset cur slot' m =
     (case cur_slot cur slot' (m_store m) of
        None \<Rightarrow> reply ERR_BADSLOT m
      | Some k \<Rightarrow>
          if cap_is_empty (cap (slots (m_store m) k)) then reply ERR_BADSLOT m
          else (case reset k (m_store m) of
            (r, s') \<Rightarrow> reply (case r of Inr _ \<Rightarrow> 0 | Inl NotUntyped \<Rightarrow> ERR_TYPE | Inl _ \<Rightarrow> ERR_STATE) (m\<lparr>m_store := s'\<rparr>)))"

definition exec_aspace_topup :: "obj_id \<Rightarrow> u64 \<Rightarrow> u64 \<Rightarrow> u64 \<Rightarrow> machine \<Rightarrow> outcome" where
  "exec_aspace_topup cur aspace ut pages m =
     (let s = m_store m in
      case (cur_slot cur aspace s, cur_slot cur ut s) of
        (Some asp_slot, Some ut_slot) \<Rightarrow>
          (case kind (cap (slots s asp_slot)) of
             Aspace asp \<Rightarrow>
               if \<not> has_rights (rights (cap (slots s asp_slot))) WRITE then reply ERR_PERM m
               else (case aspace_topup ut_slot asp pages s of
                 (r, s') \<Rightarrow>
                   reply (case r of Inr _ \<Rightarrow> 0 | Inl NotUntyped \<Rightarrow> ERR_TYPE | Inl NoMemory \<Rightarrow> ERR_NOMEM | Inl _ \<Rightarrow> ERR_ARG)
                     (m\<lparr>m_store := s'\<rparr>))
           | _ \<Rightarrow> reply ERR_TYPE m)
      | _ \<Rightarrow> reply ERR_BADSLOT m)"

section \<open>Dispatch and the handlers\<close>

fun execute :: "env \<Rightarrow> obj_id \<Rightarrow> sys \<Rightarrow> machine \<Rightarrow> outcome" where
  "execute v cur (SysDebugPutc ch) = exec_debug_putc v ch"
| "execute v cur (SysDebugWrite ptr len) = exec_debug_write v cur ptr len"
| "execute v cur SysYield = exec_yield"
| "execute v cur (SysRetype ut ty param dst dst2) = exec_retype v cur ut ty param dst dst2"
| "execute v cur (SysCapCopy src dst msk prio_ceiling) = exec_cap_copy cur src dst msk prio_ceiling"
| "execute v cur (SysCapDelete k) = exec_cap_delete cur k"
| "execute v cur (SysCapRevoke k) = exec_cap_revoke cur k"
| "execute v cur (SysCapInstall cs src dst_index) = exec_cap_install cur cs src dst_index"
| "execute v cur (SysChanSend chan buf len caps) = exec_chan_send cur chan buf len caps"
| "execute v cur (SysChanRecv chan buf dests) = exec_chan_recv cur chan buf dests"
| "execute v cur (SysChanBind chan event notif bits) = exec_chan_bind cur chan event notif bits"
| "execute v cur (SysNotifSignal k bits) = exec_notif_signal cur k bits"
| "execute v cur (SysNotifWait k) = exec_notif_wait cur k"
| "execute v cur (SysThreadStart tcb cspace entry sp prio arg) = exec_thread_start cur tcb cspace entry sp prio arg"
| "execute v cur (SysTimerArm timer notif bits delta) = exec_timer_arm v cur timer notif bits delta"
| "execute v cur (SysThreadExit status) = exec_thread_exit cur status"
| "execute v cur (SysMap aspace fr va perms) = exec_map cur aspace fr va perms"
| "execute v cur (SysFrameWrite fr off buf len) = exec_frame_write cur fr off buf len"
| "execute v cur (SysThreadStartAs tcb cspace aspace entry sp prio arg) =
     exec_thread_start_as cur tcb cspace aspace entry sp prio arg"
| "execute v cur (SysFramePaddr k) = exec_frame_paddr cur k"
| "execute v cur (SysThreadBind tcb which notif bits) = exec_thread_bind cur tcb which notif bits"
| "execute v cur (SysReadReport tcb) = exec_read_report cur tcb"
| "execute v cur (SysUntypedReset k) = exec_untyped_reset cur k"
| "execute v cur (SysAspaceTopUp aspace ut pages) = exec_aspace_topup cur aspace ut pages"
| "execute v cur (SysIrqBind irq notif bits) = exec_irq_bind cur irq notif bits"
| "execute v cur (SysIrqAck irq) = exec_irq_ack cur irq"

definition dispatch :: "env \<Rightarrow> machine \<Rightarrow> outcome" where
  "dispatch v m =
     (case current (m_store m) of
        None \<Rightarrow> None
      | Some cur \<Rightarrow>
          (let x = tf_x (m_frame m) in
           case sys_decode (x 7) [x 0, x 1, x 2, x 3, x 4, x 5, x 6] of
             Inr sys \<Rightarrow> execute v cur sys m
           | Inl _ \<Rightarrow> reply ERR_ARG m))"

definition esr_ec :: "u64 \<Rightarrow> u64" where
  "esr_ec esr = drop_bit 26 esr AND 0x3F"

text \<open>The diagnostic line of a fault is the only thing left out of the fault arm.\<close>

definition handle_el0_sync :: "env \<Rightarrow> u64 \<Rightarrow> u64 \<Rightarrow> machine \<Rightarrow> machine option" where
  "handle_el0_sync v esr far m =
     (if esr_ec esr = 0x15
      then do { (ret, m) \<leftarrow> dispatch v m;
                Some (schedule False (case ret of None \<Rightarrow> m | Some r \<Rightarrow> set_x 0 r m)) }
      else case current (m_store m) of
        None \<Rightarrow> None
      | Some t \<Rightarrow>
          (let s = set_tcb_state t Faulted (m_store m);
               s = report_terminal t (ReportFaulted esr far) s
           in Some (schedule False (m\<lparr>m_store := s\<rparr>))))"

definition INTID_VTIMER :: u32 where "INTID_VTIMER = 27"

definition handle_el0_irq :: "env \<Rightarrow> obj_id list \<Rightarrow> u32 \<Rightarrow> machine \<Rightarrow> machine option" where
  "handle_el0_irq v irq_table intid m =
     (if intid = INTID_VTIMER
      then do { s \<leftarrow> check_expired (env_counter v) (m_store m); Some (schedule True (m\<lparr>m_store := s\<rparr>)) }
      else do { (woke, ops, s) \<leftarrow> deliver irq_table intid (m_store m);
                Some (schedule woke (m\<lparr>m_store := s, m_gic := m_gic m @ ops\<rparr>)) })"

end
