(* ===== verification/Kernelsafe.thy ===== *)
theory Kernelsafe
  imports Syscalls
begin

text \<open>
  The system calls and handlers keep the kernel's invariant. \<open>kernel_inv\<close> is the invariant of the
  store (derivation tree, queues, timers, interrupts), the confinement of authority and memory,
  and the bound on priorities. Each arm of \<open>execute\<close> has its lemma; the arms share the
  lemmas on the store's operations that the component theories provide.
\<close>

section \<open>The invariant\<close>

definition prios_ok :: "kstore \<Rightarrow> bool" where
  "prios_ok s \<longleftrightarrow> (\<forall>t. unat (tcb_priority (tcbs s t)) < NUM_PRIOS)"

definition kernel_inv :: "kstore \<Rightarrow> bool" where
  "kernel_inv s \<longleftrightarrow> kinv s \<and> confined (slots s) \<and> prios_ok s"

text \<open>A call returns, and the machine it leaves satisfies the invariant.\<close>

definition keeps :: "outcome \<Rightarrow> bool" where
  "keeps r \<longleftrightarrow> (\<exists>x m'. r = Some (x, m') \<and> kernel_inv (m_store m'))"

lemma keeps_Some [simp]: "keeps (Some (x, m)) = kernel_inv (m_store m)" "\<not> keeps None"
  by (simp_all add: keeps_def)

lemma keeps_reply [simp]: "keeps (reply x m) = kernel_inv (m_store m)"
  by (simp add: reply_def)

lemma keeps_bind:
  assumes "\<exists>x s'. f = Some (x, s') \<and> kernel_inv s'" and "\<And>x s'. kernel_inv s' \<Longrightarrow> keeps (g (x, s'))"
  shows "keeps (f \<bind> g)"
  using assms by auto

lemma keeps_bind_guard:
  assumes "\<exists>b. f = Some b" and "\<And>b. f = Some b \<Longrightarrow> keeps (g b)"
  shows "keeps (f \<bind> g)"
  using assms by auto

lemma kernel_invD:
  assumes "kernel_inv s"
  shows "kinv s" and "confined (slots s)" and "prios_ok s" and "cdt_wf (slots s)" and "sched_wf s"
    and "timer_wf s" and "irq_wf s" and "unat (tcb_priority (tcbs s t)) < NUM_PRIOS"
  using assms by (auto simp: kernel_inv_def kinv_def prios_ok_def)

lemma kernel_invI: "kinv s \<Longrightarrow> confined (slots s) \<Longrightarrow> prios_ok s \<Longrightarrow> kernel_inv s"
  by (simp add: kernel_inv_def)

lemma prios_ok_cong: "prios_ok s \<Longrightarrow> (\<And>t. tcb_priority (tcbs s' t) = tcb_priority (tcbs s t)) \<Longrightarrow> prios_ok s'"
  by (simp add: prios_ok_def)

lemma kernel_inv_shrunk: "kernel_inv s \<Longrightarrow> shrunk s s' \<Longrightarrow> kernel_inv s'"
  using conf.shrunk [of s s'] by (auto simp: kernel_inv_def shrunk_def same_layout_def prios_ok_def)

lemma kernel_inv_frame:
  assumes "kernel_inv s" and "slots s' = slots s" and "tcbs s' = tcbs s" and "notifs s' = notifs s"
    and "timers s' = timers s" and "irqs s' = irqs s" and "armed_head s' = armed_head s"
    and "ready_head s' = ready_head s" and "ready_tail s' = ready_tail s"
    and "ready_bitmap s' = ready_bitmap s"
  shows "kernel_inv s'"
  using assms kinv_slots_frame [of s s'] kernel_invD [OF assms(1)]
  by (simp add: kernel_inv_def prios_ok_def)

lemma kernel_inv_sched:
  assumes "kernel_inv s" and "sched_wf s'" and "slots s' = slots s" and "timers s' = timers s"
    and "armed_head s' = armed_head s" and "irqs s' = irqs s"
    and "\<And>t. tcb_priority (tcbs s' t) = tcb_priority (tcbs s t)"
  shows "kernel_inv s'"
  using assms by (simp add: kernel_inv_def kinv_def prios_ok_def timer_wf_frame [of s' s] irq_wf_frame [of s' s])

text \<open>An update of thread objects that leaves the fields of the queues alone.\<close>

lemma kernel_inv_tcb:
  assumes "kernel_inv s" and "\<And>x. tcb_qnext (f x) = tcb_qnext x"
    and "\<And>x. tcb_state (f x) = tcb_state x" and "\<And>x. tcb_priority (f x) = tcb_priority x"
    and "\<And>x. tcb_wait_notif (f x) = tcb_wait_notif x"
  shows "kernel_inv (upd_tcb t f s)"
proof -
  have "sched_wf (upd_tcb t f s)"
    by (rule sched_wf_tcb_other [OF kernel_invD(5) [OF assms(1)]]) (rule assms)+
  then show ?thesis
    using assms(1) by (simp add: kernel_inv_def kinv_def prios_ok_def) (simp add: upd_tcb_def assms(4))
qed

lemma kernel_inv_refs: "kernel_inv s \<Longrightarrow> kernel_inv (set_obj_refs o' r s)"
  using kernel_inv_shrunk [OF _ set_refs_shrunk] kernel_invD(1) by blast

section \<open>The guards return\<close>

lemma user_range_ok_total: "\<exists>b. user_range_ok cur ptr len s = Some b"
  by (auto simp: user_range_ok_def range_mapped_eq split: option.split)

lemma user_range_writable_total: "\<exists>b. user_range_writable cur ptr len s = Some b"
  using user_range_ok_total by (auto simp: user_range_writable_def range_mapped_eq split: option.split)

lemma resolve_cap_list_total: "\<exists>r. resolve_cap_list cur p full m = Some r"
  using user_range_ok_total [of cur p "of_nat (MSG_CAPS * 4)" "m_store m"]
  by (auto simp: resolve_cap_list_def)

lemma resolve_indices_length:
  "resolve_indices cur full is s = Inr ks \<Longrightarrow> length ks = length is"
proof (induction "is" arbitrary: ks)
  case (Cons i "is")
  then show ?case
    by (cases "resolve_indices cur full is s") (auto split: if_splits option.splits)
qed simp

lemma resolve_cap_list_length:
  "resolve_cap_list cur p full m = Some (Inr ks) \<Longrightarrow> length ks = MSG_CAPS"
  using resolve_indices_length
  by (fastforce simp: resolve_cap_list_def bind_eq_Some_conv read_indices_def split: if_splits)

section \<open>Operations on the store\<close>

lemma chan_bind_inv: "kernel_inv s \<Longrightarrow> kernel_inv (chan_bind ch e ev n bits s)"
proof -
  assume k: "kernel_inv s"
  define s1 where "s1 = (case bind_notif (chan_binding (chans s ch) (end_idx e) ev) of
      None \<Rightarrow> s | Some n \<Rightarrow> set_obj_refs n (refs s n - 1) s)"
  define s2 where "s2 = (case n of None \<Rightarrow> s1 | Some n \<Rightarrow> set_obj_refs n (refs s1 n + 1) s1)"
  have "kernel_inv s1" using k kernel_inv_refs by (simp add: s1_def split: option.split)
  then have k2: "kernel_inv s2" using kernel_inv_refs by (simp add: s2_def split: option.split)
  have "chan_bind ch e ev n bits s = set_chan_binding ch (end_idx e) ev \<lparr>bind_notif = n, bind_bits = bits\<rparr> s2"
    unfolding chan_bind_def Let_def s1_def s2_def by (rule refl)
  then show ?thesis
    unfolding set_chan_binding_def
    using kernel_inv_shrunk [OF k2 upd_chan_shrunk [OF kernel_invD(1) [OF k2]]] by simp
qed

lemma signal_inv: "kernel_inv s \<Longrightarrow> kernel_inv (signal n bits s)"
  using kernel_inv_shrunk [OF _ signal_shrunk] kernel_invD(1) by blast

lemma set_state_idle_inv:
  assumes "kernel_inv s" and "tcb_state (tcbs s t) \<noteq> Runnable" and "tcb_state (tcbs s t) \<noteq> BlockedNotif"
    and "v \<noteq> Runnable" and "v \<noteq> BlockedNotif"
  shows "kernel_inv (set_tcb_state t v s)"
proof -
  obtain R W where "sched_rep {} s R W" using kernel_invD(5) [OF assms(1)] by (auto simp: sched_wf_def)
  then have "sched_rep (insert t {}) s R W" by (rule sched_rep_idle_off) (use assms(2,3) in auto)
  then have "sched_wf (set_tcb_state t v s)"
    using set_state_idle_rep [of t "{}" s R W v] assms(4,5) by (auto simp: sched_wf_def)
  then show ?thesis by (rule kernel_inv_sched [OF assms(1)]) (simp_all add: store_defs)
qed

lemma report_terminal_inv: "kernel_inv s \<Longrightarrow> kernel_inv (report_terminal t r s)"
proof -
  assume k: "kernel_inv s"
  note s1 = kernel_inv_shrunk [OF k set_tcb_report_shrunk [OF kernel_invD(1) [OF k]]]
  show ?thesis
    using k s1 signal_inv by (auto simp: report_terminal_def Let_def split: report.split cap_kind.split)
qed

lemma enqueue_inv:
  assumes "kernel_inv s" and "tcb_state (tcbs s t) \<noteq> Runnable" and "tcb_state (tcbs s t) \<noteq> BlockedNotif"
  shows "kernel_inv (ready_enqueue t s)"
proof -
  obtain R W where "sched_rep {} s R W" using kernel_invD(5) [OF assms(1)] by (auto simp: sched_wf_def)
  then have "sched_rep (insert t {}) s R W" by (rule sched_rep_idle_off) (use assms(2,3) in auto)
  then have "sched_wf (ready_enqueue t s)"
    using ready_enqueue_rep [of "{t}" s R W t] kernel_invD(8) [OF assms(1)] by (auto simp: sched_wf_def)
  then show ?thesis by (rule kernel_inv_sched [OF assms(1)]) simp_all
qed

lemma notif_wait_inv:
  assumes "kernel_inv s" and "tcb_state (tcbs s t) \<noteq> Runnable" and "tcb_state (tcbs s t) \<noteq> BlockedNotif"
  shows "kernel_inv (snd (notif_wait n t s))"
proof (cases "notif_word (notifs s n) = 0")
  case True
  obtain R W where "sched_rep {} s R W" using kernel_invD(5) [OF assms(1)] by (auto simp: sched_wf_def)
  then have "sched_rep (insert t {}) s R W" by (rule sched_rep_idle_off) (use assms(2,3) in auto)
  then have "sched_wf (snd (notif_wait n t s))"
    using notif_wait_rep [of "{t}" s R W t n] True kernel_invD(8) [OF assms(1)] by (auto simp: sched_wf_def)
  then show ?thesis
    by (rule kernel_inv_sched [OF assms(1)]) (simp_all add: notif_wait_def Let_def store_defs split: option.split)
next
  case False
  then have e: "snd (notif_wait n t s) = set_notif_word n 0 s" by (simp add: notif_wait_def Let_def)
  have "sched_wf (set_notif_word n 0 s)"
    using kernel_invD(5) [OF assms(1)] by (auto simp: sched_wf_def)
  then show ?thesis unfolding e by (rule kernel_inv_sched [OF assms(1)]) (simp_all add: store_defs)
qed

lemma arm_inv:
  assumes "kernel_inv s"
  shows "\<exists>s'. arm t n bits d s = Some s' \<and> kernel_inv s'"
proof -
  obtain T where T: "timer_rep s T" using kernel_invD(6) [OF assms] by (auto simp: timer_wf_def)
  obtain s' where s': "arm t n bits d s = Some s'" "timer_rep s' (t # remove1 t T)"
    using arm_rep [OF T] by blast
  obtain s1 where s1: "disarm t s = Some s1" using s'(1) by (auto simp: arm_def bind_eq_Some_conv)
  note fr = disarm_frame [OF s1]
  have eq: "slots s' = slots s" "tcbs s' = tcbs s" "notifs s' = notifs s" "irqs s' = irqs s"
    "ready_head s' = ready_head s" "ready_tail s' = ready_tail s" "ready_bitmap s' = ready_bitmap s"
    using s'(1) fr by (auto simp: arm_def s1 Let_def store_defs)
  have "kernel_inv s'"
    using assms eq s'(2) sched_wf_frame [of s' s] irq_wf_frame [of s' s]
    by (auto simp: kernel_inv_def kinv_def prios_ok_def timer_wf_def)
  then show ?thesis using s'(1) by blast
qed

lemma irq_bind_inv: "kernel_inv s \<Longrightarrow> kernel_inv (irq_bind i n bits s)"
proof -
  assume k: "kernel_inv s"
  have eq: "slots (irq_bind i n bits s) = slots s" "tcbs (irq_bind i n bits s) = tcbs s"
    "notifs (irq_bind i n bits s) = notifs s" "timers (irq_bind i n bits s) = timers s"
    "armed_head (irq_bind i n bits s) = armed_head s" "ready_head (irq_bind i n bits s) = ready_head s"
    "ready_tail (irq_bind i n bits s) = ready_tail s" "ready_bitmap (irq_bind i n bits s) = ready_bitmap s"
    by (simp_all add: irq_bind_def Let_def store_defs)
  show ?thesis
    using k eq irq_bind_wf [OF kernel_invD(7) [OF k]] sched_wf_frame [of "irq_bind i n bits s" s]
      timer_wf_frame [of "irq_bind i n bits s" s]
    by (auto simp: kernel_inv_def kinv_def prios_ok_def)
qed

lemma set_irq_masked_inv: "kernel_inv s \<Longrightarrow> kernel_inv (set_irq_masked i b s)"
proof -
  assume k: "kernel_inv s"
  have "irq_wf (set_irq_masked i b s)" using kernel_invD(7) [OF k] by (simp add: irq_wf_def store_defs)
  then show ?thesis
    using k sched_wf_frame [of "set_irq_masked i b s" s] timer_wf_frame [of "set_irq_masked i b s" s]
    by (simp add: kernel_inv_def kinv_def prios_ok_def store_defs)
qed

lemma deliver_inv:
  assumes "kernel_inv s"
  shows "\<exists>w ops s'. deliver irq_table intid s = Some (w, ops, s') \<and> kernel_inv s'"
proof -
  have "irq_notif (irqs s p) \<noteq> None" if "irq_bound (irqs s p)" for p
    using kernel_invD(7) [OF assms] that by (simp add: irq_wf_def)
  then show ?thesis
    using assms signal_inv [OF set_irq_masked_inv [OF assms]]
    by (fastforce simp: deliver_def Let_def split: option.split)
qed

lemma expire_loop_frame:
  "expire_loop now cur s = Some s' \<Longrightarrow>
     slots s' = slots s \<and> irqs s' = irqs s \<and> (\<forall>t. tcb_priority (tcbs s' t) = tcb_priority (tcbs s t))"
proof (rule expire_loop.raw_induct [where P = "\<lambda>now cur s s'. slots s' = slots s \<and> irqs s' = irqs s \<and>
    (\<forall>t. tcb_priority (tcbs s' t) = tcb_priority (tcbs s t))"], goal_cases)
  case (1 loop now cur s s')
  then show ?case
    by (fastforce simp: Let_def bind_eq_Some_conv disarm_frame split: option.splits if_splits)
qed

lemma check_expired_inv:
  assumes "kernel_inv s"
  shows "\<exists>s'. check_expired now s = Some s' \<and> kernel_inv s'"
proof -
  obtain T where T: "timer_rep s T" using kernel_invD(6) [OF assms] by (auto simp: timer_wf_def)
  note c = check_expired_all [OF T, of now] and w = expire_all_sched [OF T kernel_invD(5) [OF assms], of now]
  have fr: "slots (expire_all now T s) = slots s" "irqs (expire_all now T s) = irqs s"
    "tcb_priority (tcbs (expire_all now T s) t) = tcb_priority (tcbs s t)" for t
    using expire_loop_frame [of now "armed_head s" s "expire_all now T s"] c(1) by (auto simp: check_expired_def)
  have "kernel_inv (expire_all now T s)"
    using assms c(2) w fr irq_wf_frame [of "expire_all now T s" s]
    by (auto simp: kernel_inv_def kinv_def prios_ok_def timer_wf_def)
  then show ?thesis using c(1) by blast
qed

lemma set_priority_inv:
  assumes "kernel_inv s" and "tcb_state (tcbs s t) = Inactive" and "unat prio < NUM_PRIOS"
    and "set_priority t prio ceiling s = (r, s')"
  shows "kernel_inv s'" and "tcb_state (tcbs s' t) = Inactive"
proof -
  note k = set_priority_kinv [OF kernel_invD(1) [OF assms(1)] _ _ assms(4)]
  have "tcb_priority (tcbs s' x) = tcb_priority (tcbs s x) \<or> tcb_priority (tcbs s' x) = prio" for x
    using assms(4) by (auto simp: set_priority_def store_defs split: if_splits)
  then have "prios_ok s'" using kernel_invD(8) [OF assms(1)] assms(3) by (metis prios_ok_def)
  then show "kernel_inv s'" using k kernel_invD(2) [OF assms(1)] assms(2) by (simp add: kernel_inv_def)
  show "tcb_state (tcbs s' t) = Inactive"
    using assms(2,4) by (auto simp: set_priority_def store_defs split: if_splits)
qed

lemma start_thread_inv:
  assumes "kernel_inv s" and "tcb_state (tcbs s t) = Inactive"
  shows "kernel_inv (start_thread t entry sp arg s)"
proof -
  have "kernel_inv (set_tcb_frame t f s)" for f
    unfolding set_tcb_frame_def by (rule kernel_inv_tcb [OF assms(1)]) simp_all
  then show ?thesis
    unfolding start_thread_def by (rule enqueue_inv) (use assms(2) in \<open>simp_all add: store_defs\<close>)
qed

lemma switch_to_inv:
  assumes "kernel_inv s" and "l < NUM_PRIOS" and "switch_to l frame s = (f, s', a)"
  shows "kernel_inv s'"
proof -
  obtain R W where rep: "sched_rep {} s R W" using kernel_invD(5) [OF assms(1)] by (auto simp: sched_wf_def)
  show ?thesis
  proof (cases "ready_take l s")
    case None
    then show ?thesis using assms by (simp add: switch_to_def)
  next
    case (Some p)
    obtain t s1 where p: "p = (t, s1)" by (cases p)
    obtain ys where R: "R l = t # ys"
      using Some p ready_dequeue_empty [OF rep assms(2)] ready_dequeue_splice [OF rep assms(2)]
      by (cases "R l") (auto simp: ready_take_def)
    have s1: "s1 = set_tcb_state t Running (ready_splice t l None s)"
      using Some p by (simp add: ready_take_def ready_dequeue_splice [OF rep assms(2) R])
    have "sched_rep {} s1 (R(l := ys)) W" using ready_take_rep [OF rep assms(2) R] Some p by auto
    then have "sched_wf s1" by (auto simp: sched_wf_def)
    then have k1: "kernel_inv s1" by (rule kernel_inv_sched [OF assms(1)]) (simp_all add: s1 store_defs)
    have "s' = s1\<lparr>current := Some t\<rparr>" using assms(3) Some p by (auto simp: switch_to_def)
    then show ?thesis using kernel_inv_frame [OF k1, of s'] by simp
  qed
qed

lemma schedule_inv:
  assumes "kernel_inv (m_store m)"
  shows "kernel_inv (m_store (schedule pe m))"
proof -
  let ?s = "m_store m" and ?f = "m_frame m"
  obtain R W where rep: "sched_rep {} ?s R W" using kernel_invD(5) [OF assms] by (auto simp: sched_wf_def)
  have fr: "kernel_inv (set_tcb_frame c ?f ?s)" for c
    unfolding set_tcb_frame_def by (rule kernel_inv_tcb [OF assms]) simp_all
  have en: "kernel_inv (ready_enqueue c (set_tcb_frame c ?f ?s))" if "tcb_state (tcbs ?s c) = Running" for c
    by (rule enqueue_inv [OF fr]) (use that in \<open>simp_all add: store_defs\<close>)
  obtain f s' a where r: "maybe_switch ?f pe ?s = (f, s', a)" by (metis prod_cases3)
  have "kernel_inv s'"
  proof (cases "top_ready ?s")
    case None
    then show ?thesis using r assms by (simp add: maybe_switch_def)
  next
    case (Some l)
    then have l: "l < NUM_PRIOS" using top_ready_Some [OF rep] by auto
    show ?thesis
      using r Some assms switch_to_inv [OF assms l] switch_to_inv [OF fr l] switch_to_inv [OF en l]
      by (auto simp: maybe_switch_def Let_def split: option.splits if_splits)
  qed
  then show ?thesis by (simp add: schedule_def r)
qed

section \<open>Operations on capabilities\<close>

lemma delete_inv:
  assumes "kernel_inv s" and "\<not> empty_slot (slots s) k"
  shows "\<exists>s'. delete k s = Some s' \<and> kernel_inv s' \<and> shrunk s s' \<and> empty_slot (slots s') k"
  using delete_ok [OF kernel_invD(1) [OF assms(1)] assms(2)] kernel_inv_shrunk [OF assms(1)] by blast

lemma revoke_step_inv:
  assumes "kernel_inv s"
  shows "\<exists>st s'. revoke_step k budget s = Some (st, s') \<and> kernel_inv s'"
proof -
  obtain s1 where s1: "revoke_loop budget k s = Some s1" "shrunk s s1"
    using revoke_loop_ok [OF kernel_invD(1) [OF assms]] by blast
  note k1 = kernel_inv_shrunk [OF assms s1(2)]
  have "kernel_inv (set_slot k ((slots s1 k)\<lparr>revoking := b\<rparr>) s1)" for b
    using set_revoking_kinv(1) [OF kernel_invD(1) [OF k1], of k b]
      conf.marker [OF kernel_invD(2) [OF k1], of k b] kernel_invD(3) [OF k1]
    by (simp add: kernel_inv_def set_slot_def prios_ok_def)
  then show ?thesis using s1(1) by (simp add: revoke_step_def Let_def)
qed

lemma derive_inv:
  assumes "kernel_inv s"
  shows "\<exists>r s'. derive src dst msk ceiling s = Some (r, s') \<and> kernel_inv s'"
proof (cases "derivable src dst s")
  case True
  note d = derive_install_ok [OF kernel_invD(1) [OF assms] True, of ceiling msk]
  have "prios_ok (derive_install src dst c s)" for c using kernel_invD(3) [OF assms] by (simp add: prios_ok_def)
  then show ?thesis
    using True d(1) d(3) [OF kernel_invD(2) [OF assms]] derive_eq [OF kernel_invD(4) [OF assms]]
    by (simp add: kernel_inv_def)
qed (use assms derive_eq [OF kernel_invD(4) [OF assms]] in simp)

lemma store_move_inv:
  assumes "kernel_inv s" and "src \<noteq> dst" and "empty_slot (slots s) dst"
  shows "\<exists>s'. store_move src dst s = Some s' \<and> kernel_inv s'"
proof -
  obtain s' where s': "store_move src dst s = Some s'" "kinv s'" "confined (slots s')"
    using conf.store_move [OF kernel_invD(1,2) [OF assms(1)] assms(2,3)] by blast
  moreover have "tcbs s' = tcbs s" using s'(1) by (auto simp: store_move_def bind_eq_Some_conv)
  ultimately show ?thesis using kernel_invD(3) [OF assms(1)] by (auto simp: kernel_inv_def prios_ok_def)
qed

lemma thread_bind_inv:
  assumes "kernel_inv s" and "src \<noteq> Some (tcb_bind_slot (tcbs s t) which)"
  shows "\<exists>s'. thread_bind t which src bits s = Some s' \<and> kernel_inv s'"
proof -
  let ?k = "tcb_bind_slot (tcbs s t) which"
  obtain s1 where s1: "(if empty_slot (slots s) ?k then Some s else delete ?k s) = Some s1"
    "kernel_inv s1" "empty_slot (slots s1) ?k"
    using delete_inv [OF assms(1), of ?k] assms(1) by (cases "empty_slot (slots s) ?k") auto
  let ?s2 = "set_tcb_bind_bits t which bits s1"
  have k2: "kernel_inv ?s2"
    unfolding set_tcb_bind_bits_def by (rule kernel_inv_tcb [OF s1(2)]) simp_all
  have e: "slots ?s2 = slots s1" by (simp add: store_defs)
  show ?thesis
  proof (cases src)
    case None
    then show ?thesis using s1(1) k2 by (simp add: thread_bind_def Let_def)
  next
    case (Some x)
    then obtain s' where "store_move x ?k ?s2 = Some s'" "kernel_inv s'"
      using store_move_inv [OF k2, of x ?k] assms(2) s1(3) e by auto
    then show ?thesis using s1(1) Some by (simp add: thread_bind_def Let_def)
  qed
qed

lemma aspace_map_rest:
  assumes "aspace_map a pa va pages perms s = (s', r)"
  shows "slots s' = slots s" "tcbs s' = tcbs s" "notifs s' = notifs s" "timers s' = timers s"
    "irqs s' = irqs s" "armed_head s' = armed_head s" "ready_head s' = ready_head s"
    "ready_tail s' = ready_tail s" "ready_bitmap s' = ready_bitmap s"
  using assms by (auto simp: aspace_map_def Let_def split: prod.splits)

text \<open>Recording a mapping in a frame capability changes neither its memory nor its rights.\<close>

lemma recap_mapping_inv:
  assumes "kernel_inv s" and k: "kind (cap (slots s k)) = Frame base pages mp"
  shows "kernel_inv (set_slot k ((slots s k)\<lparr>cap := \<lparr>kind = Frame base pages mp', rights = rights (cap (slots s k))\<rparr>\<rparr>) s)"
proof -
  let ?m = "slots s" and ?c = "\<lparr>kind = Frame base pages mp', rights = rights (cap (slots s k))\<rparr>"
  let ?m' = "?m(k := (?m k)\<lparr>cap := ?c\<rparr>)"
  note wf = kernel_invD(4) [OF assms(1)]
  have ne: "\<not> empty_slot ?m k" "\<not> cap_is_empty ?c" using k by (simp_all add: cap_is_empty_iff)
  have "cdt_wf ?m'"
    by (rule cdt_wf_cong [OF _ _ wf]) (use cdt_wfD(4) [OF wf] ne in \<open>auto split: if_splits\<close>)
  moreover have "confined ?m'"
  proof (rule recap_confined [OF kernel_invD(2) [OF assms(1)] ne])
    have "kind_le x (kind (cap (?m k))) = kind_le x (kind ?c)" "kind_le (kind (cap (?m k))) x = kind_le (kind ?c) x" for x
      by (cases x; simp add: k)+
    then show "auth_le (cap (?m k)) p \<Longrightarrow> auth_le ?c p" "auth_le (cap (?m j)) (cap (?m k)) \<Longrightarrow> auth_le (cap (?m j)) ?c" for p j
      by (auto simp: auth_le_def cap_le_def k)
    show "parent (?m k) \<noteq> Some k" using desc_irrefl [OF wf] desc_parent by blast
  qed (simp_all add: k)
  ultimately show ?thesis
    using kinv_slots_frame [OF kernel_invD(1) [OF assms(1)]] kernel_invD(3) [OF assms(1)]
    by (simp add: kernel_inv_def set_slot_def prios_ok_def)
qed

lemma map_frame_inv:
  assumes "kernel_inv s" and "map_frame k asp va perms s = (r, s')"
  shows "kernel_inv s'"
proof (cases "kind (cap (slots s k))")
  case (Frame base pages mp)
  obtain s1 x where s1: "aspace_map asp base va pages perms s = (s1, x)" by force
  note fr = aspace_map_rest [OF s1]
  have k1: "kernel_inv s1" by (rule kernel_inv_frame [OF assms(1)]) (simp_all add: fr)
  have "kernel_inv (set_slot k ((slots s k)\<lparr>cap := \<lparr>kind = Frame base pages (Some (asp, va)), rights = rights (cap (slots s k))\<rparr>\<rparr>) s1)"
    using recap_mapping_inv [OF k1, of k base pages mp "Some (asp, va)"] by (simp add: fr Frame)
  then have "kernel_inv (ref_aspace asp (set_slot k ((slots s k)\<lparr>cap := \<lparr>kind = Frame base pages (Some (asp, va)), rights = rights (cap (slots s k))\<rparr>\<rparr>) s1))"
    unfolding ref_aspace_def by (rule kernel_inv_refs)
  then show ?thesis
    using assms(2) k1 by (cases x) (auto simp: map_frame_def Let_def Frame s1)
qed (use assms in \<open>auto simp: map_frame_def\<close>)

lemma object_init_prios:
  assumes "prios_ok s" and "object_init z cur ty param c s = (k, s')"
  shows "prios_ok s'"
proof -
  let ?o = "ObjId (carve_start c)"
  have s': "s' = snd (object_init z cur ty param c s)" using assms(2) by simp
  have "tcb_priority (tcbs s' t) = tcb_priority (tcbs s t) \<or> tcb_priority (tcbs s' t) = 0" for t
    unfolding s' object_init_def Let_def
    by (cases ty) (simp_all add: cspace_obj_init_def tcb_obj_init_def channel_obj_init_def aspace_init_def Let_def
        store_defs tcb_empty_def)
  then show ?thesis using assms(1) by (metis prios_ok_def NUM_PRIOS_def unat_0 zero_less_numeral)
qed

lemma retype_inv:
  assumes "kernel_inv s" and "sizes_ok z"
    and "\<forall>base sz w c. kind (cap (slots s ut)) = Untyped base sz w \<longrightarrow>
      carve z base sz w ty param = Inr c \<longrightarrow> fresh z ty param (ObjId (carve_start c)) s"
    and r: "retype z cur ut ty param dst dst2 s = (x, s')"
  shows "kernel_inv s'"
proof -
  note R = retype_ok [OF kernel_invD(1,2) [OF assms(1)] assms(2,3), where cur = cur and dst = dst and ?dst2.0 = dst2, unfolded r prod.case]
  have "prios_ok s'"
  proof (cases "retype_check ut ty dst dst2 s")
    case (Inl e)
    then show ?thesis using r kernel_invD(3) [OF assms(1)] by (simp add: retype_def)
  next
    case (Inr b)
    obtain base sz w where b: "b = (base, sz, w)" by (cases b)
    show ?thesis
    proof (cases "carve z base sz w ty param")
      case (Inl e)
      then show ?thesis using r Inr b kernel_invD(3) [OF assms(1)] by (simp add: retype_def)
    next
      case c: (Inr c)
      obtain k s1 where k: "object_init z cur ty param c s = (k, s1)" by force
      have "s' = retype_install ut ty k (carve_end c) dst dst2 s1" using r Inr b c k by (simp add: retype_def)
      then show ?thesis using object_init_prios [OF kernel_invD(3) [OF assms(1)] k] by (simp add: prios_ok_def)
    qed
  qed
  then show ?thesis using R assms(1) by (cases x) (auto simp: kernel_inv_def)
qed

lemma reset_inv:
  assumes "kernel_inv s" and r: "reset ut s = (r, s')"
  shows "kernel_inv s'"
proof -
  have "tcbs s' = tcbs s" using r by (auto simp: reset_eq split: if_splits)
  then have "prios_ok s'" using kernel_invD(3) [OF assms(1)] by (simp add: prios_ok_def)
  then show ?thesis
    using reset_ok(1) [OF kernel_invD(1) [OF assms(1)] r]
      reset_ok(2) [OF kernel_invD(1) [OF assms(1)] r kernel_invD(2) [OF assms(1)]] by (rule kernel_invI [rotated 2])
qed

lemma aspace_topup_inv:
  assumes "kernel_inv s" and "4096 dvd unat (asp_pool_base (aspaces s asp) + of_nat (length (asp_pool (aspaces s asp))) * PAGE)"
    and "length (asp_pool (aspaces s asp)) + unat pages < 2 ^ 64"
    and r: "aspace_topup ut asp pages s = (x, s')"
  shows "kernel_inv s'"
proof -
  note T = aspace_topup_ok [OF kernel_invD(1,2) [OF assms(1)] assms(2,3), of ut, unfolded r prod.case]
  have "tcbs s' = tcbs s"
    using r by (auto simp: aspace_topup_def Let_def set_slot_def split: cap_kind.splits sum.splits)
  then have "prios_ok s'" using kernel_invD(3) [OF assms(1)] by (simp add: prios_ok_def)
  then show ?thesis using T assms(1) by (cases x) (auto simp: kernel_inv_def)
qed

lemma send_inv:
  assumes "kernel_inv s" and "chan_wf s ch" and "length caps = MSG_CAPS"
    and "\<forall>k. Some k \<in> set caps \<longrightarrow> k \<notin> ring_slots (chans s ch)"
  shows "\<exists>r s'. send ch e data caps s = Some (r, s') \<and> kernel_inv s'"
proof (cases "chan_end_caps (chans s ch) (1 - end_idx e) = 0 \<or> chan_count (chans s ch) (end_idx e) = chan_depth (chans s ch)")
  case True
  then show ?thesis using assms(1) by (auto simp: send_def Let_def)
next
  case False
  obtain m c where m: "send ch e data caps s = Some (Inr (), fire ch (1 - end_idx e) EV_READABLE
        (s\<lparr>slots := m, chans := c\<rparr>))" "kinv (s\<lparr>slots := m, chans := c\<rparr>)" "confined m"
    using conf.send [OF kernel_invD(1,2) [OF assms(1)] assms(2-4), of e data] False by blast
  then have "kernel_inv (s\<lparr>slots := m, chans := c\<rparr>)"
    using kernel_invD(3) [OF assms(1)] by (simp add: kernel_inv_def prios_ok_def)
  from kernel_inv_shrunk [OF this fire_shrunk [OF m(2)]] show ?thesis using m(1) by blast
qed

lemma recv_inv:
  assumes "kernel_inv s" and "chan_wf s ch" and "length dests = MSG_CAPS"
    and "distinct (filter (\<lambda>d. d \<noteq> None) dests)"
    and "\<forall>k. Some k \<in> set dests \<longrightarrow> k \<notin> ring_slots (chans s ch)"
  shows "\<exists>r s'. recv ch e buf dests s = Some (r, s') \<and> kernel_inv s'"
proof (cases "chan_count (chans s ch) (1 - end_idx e) = 0 \<or>
    \<not> recv_check ch (1 - end_idx e) (chan_head (chans s ch) (1 - end_idx e)) 0 dests s")
  case True
  then show ?thesis using assms(1) by (auto simp: recv_def Let_def)
next
  case False
  then have ne: "chan_count (chans s ch) (1 - end_idx e) \<noteq> 0"
    and chk: "recv_check ch (1 - end_idx e) (chan_head (chans s ch) (1 - end_idx e)) 0 dests s" by auto
  obtain m c x where m: "recv ch e buf dests s = Some (Inr x, fire ch (1 - end_idx e) EV_WRITABLE
        (s\<lparr>slots := m, chans := c\<rparr>))" "kinv (s\<lparr>slots := m, chans := c\<rparr>)" "confined m"
    using conf.recv [OF kernel_invD(1,2) [OF assms(1)] assms(2-5) ne chk, of buf] by blast
  then have "kernel_inv (s\<lparr>slots := m, chans := c\<rparr>)"
    using kernel_invD(3) [OF assms(1)] by (simp add: kernel_inv_def prios_ok_def)
  from kernel_inv_shrunk [OF this fire_shrunk [OF m(2)]] show ?thesis using m(1) by blast
qed

section \<open>The calls\<close>

text \<open>
  What a call relies on beyond the invariant: where objects lie in memory. The
  memory a retype carves holds no live object; the channel of a transfer is well formed and the
  slots of the caller's capability space are not slots of its rings; the slots a message is
  received into are different from each other; a thread's report slots are not in the caller's
  capability space; the pool of an address space ends on a page boundary.
\<close>

fun call_layout :: "env \<Rightarrow> obj_id \<Rightarrow> sys \<Rightarrow> machine \<Rightarrow> bool" where
  "call_layout v cur (SysRetype ut ty param dst dst2) m \<longleftrightarrow>
     sizes_ok (env_platform v) \<and>
     (\<forall>k base sz w c. cur_slot cur ut (m_store m) = Some k \<longrightarrow>
        kind (cap (slots (m_store m) k)) = Untyped base sz w \<longrightarrow> carve (env_platform v) base sz w ty param = Inr c \<longrightarrow>
        fresh (env_platform v) ty param (ObjId (carve_start c)) (m_store m))"
| "call_layout v cur (SysChanSend chan buf len caps) m \<longleftrightarrow>
     (\<forall>k ch e. cur_slot cur chan (m_store m) = Some k \<longrightarrow> kind (cap (slots (m_store m) k)) = Channel ch e \<longrightarrow>
        chan_wf (m_store m) ch \<and>
        (\<forall>ks. resolve_cap_list cur caps True m = Some (Inr ks) \<longrightarrow>
           (\<forall>j. Some j \<in> set ks \<longrightarrow> j \<notin> ring_slots (chans (m_store m) ch))))"
| "call_layout v cur (SysChanRecv chan buf dests) m \<longleftrightarrow>
     (\<forall>k ch e. cur_slot cur chan (m_store m) = Some k \<longrightarrow> kind (cap (slots (m_store m) k)) = Channel ch e \<longrightarrow>
        chan_wf (m_store m) ch \<and>
        (\<forall>ks. resolve_cap_list cur dests False m = Some (Inr ks) \<longrightarrow>
           distinct (filter (\<lambda>d. d \<noteq> None) ks) \<and>
           (\<forall>j. Some j \<in> set ks \<longrightarrow> j \<notin> ring_slots (chans (m_store m) ch))))"
| "call_layout v cur (SysThreadBind tcb which notif bits) m \<longleftrightarrow>
     (\<forall>k t p ns. cur_slot cur tcb (m_store m) = Some k \<longrightarrow> kind (cap (slots (m_store m) k)) = Thread t p \<longrightarrow>
        cur_slot cur notif (m_store m) = Some ns \<longrightarrow> ns \<noteq> tcb_bind_slot (tcbs (m_store m) t) which)"
| "call_layout v cur (SysAspaceTopUp aspace ut pages) m \<longleftrightarrow>
     (\<forall>k asp. cur_slot cur aspace (m_store m) = Some k \<longrightarrow> kind (cap (slots (m_store m) k)) = Aspace asp \<longrightarrow>
        4096 dvd unat (asp_pool_base (aspaces (m_store m) asp) + of_nat (length (asp_pool (aspaces (m_store m) asp))) * PAGE) \<and>
        length (asp_pool (aspaces (m_store m) asp)) + unat pages < 2 ^ 64)"
| "call_layout v cur _ m \<longleftrightarrow> True"

lemma set_x_store [simp]: "m_store (set_x i v m) = m_store m"
  by (simp add: set_x_def)

lemma write_user_store [simp]: "m_store (write_user cur va bs m) = m_store m"
  by (simp add: write_user_def)

lemma debug_keeps:
  "kernel_inv (m_store m) \<Longrightarrow> keeps (exec_debug_putc v ch m)"
  "kernel_inv (m_store m) \<Longrightarrow> keeps (exec_debug_write v cur ptr len m)"
  using user_range_ok_total [of cur ptr len "m_store m"]
  by (auto simp: exec_debug_putc_def exec_debug_write_def)

lemma yield_keeps: "kernel_inv (m_store m) \<Longrightarrow> keeps (exec_yield m)"
  by (simp add: exec_yield_def schedule_inv)

lemma retype_keeps:
  assumes "kernel_inv (m_store m)" and "call_layout v cur (SysRetype ut ty param dst dst2) m"
  shows "keeps (exec_retype v cur ut ty param dst dst2 m)"
proof (cases "cur_slot cur ut (m_store m)"; cases "cur_slot cur dst (m_store m)")
  fix k d assume k: "cur_slot cur ut (m_store m) = Some k" "cur_slot cur dst (m_store m) = Some d"
  define d2 where "d2 = (if ty = ObjChannel then cur_slot cur dst2 (m_store m) else None)"
  obtain x s' where r: "retype (env_platform v) cur k ty param d d2 (m_store m) = (x, s')" by force
  have "kernel_inv s'" by (rule retype_inv [OF assms(1) _ _ r]) (use assms(2) k in auto)
  then show ?thesis
    using assms(1) k r unfolding exec_retype_def Let_def d2_def [symmetric]
    by (auto split: sum.split retype_error.split)
qed (use assms(1) in \<open>auto simp: exec_retype_def Let_def\<close>)

lemma cap_copy_keeps:
  assumes k: "kernel_inv (m_store m)"
  shows "keeps (exec_cap_copy cur src dst msk ceiling m)"
proof -
  have rev: "\<exists>b. ancestor_or_self_revoking (slots (m_store m)) x = Some b" for x
    using ancestor_or_self_revoking_iff [OF kernel_invD(4) [OF k]] by blast
  have der: "keeps (do { (r, s') \<leftarrow> derive x d a b (m_store m); reply (f r) (m\<lparr>m_store := s'\<rparr>) })" for x d a b f
    by (rule keeps_bind [OF derive_inv [OF k]]) simp
  have "keeps (do { rev \<leftarrow> ancestor_or_self_revoking (slots (m_store m)) x;
      if rev then reply ERR_AGAIN m
      else do { (r, s') \<leftarrow> derive x d a b (m_store m); reply (f r) (m\<lparr>m_store := s'\<rparr>) } })" for x d a b f
    by (rule keeps_bind_guard [OF rev]) (simp add: k der)
  then show ?thesis
    using k by (simp add: exec_cap_copy_def Let_def split: option.split)
qed

lemma cap_delete_keeps:
  assumes k: "kernel_inv (m_store m)"
  shows "keeps (exec_cap_delete cur i m)"
proof -
  have "keeps (do { s' \<leftarrow> delete x (m_store m); reply 0 (m\<lparr>m_store := s'\<rparr>) })"
    if "\<not> empty_slot (slots (m_store m)) x" for x
    using delete_inv [OF k that] by auto
  then show ?thesis using k by (simp add: exec_cap_delete_def split: option.split)
qed

lemma cap_revoke_keeps:
  assumes k: "kernel_inv (m_store m)"
  shows "keeps (exec_cap_revoke cur i m)"
proof -
  have "keeps (do { (st, s') \<leftarrow> revoke_step x b (m_store m); reply (f st) (m\<lparr>m_store := s'\<rparr>) })" for x b f
    by (rule keeps_bind [OF revoke_step_inv [OF k]]) simp
  then show ?thesis using k by (simp add: exec_cap_revoke_def split: option.split)
qed

lemma cap_install_keeps:
  assumes k: "kernel_inv (m_store m)"
  shows "keeps (exec_cap_install cur cs src i m)"
proof -
  have "keeps (do { s' \<leftarrow> store_move x d (m_store m); reply 0 (m\<lparr>m_store := s'\<rparr>) })"
    if "\<not> empty_slot (slots (m_store m)) x" "empty_slot (slots (m_store m)) d" for x d
    using store_move_inv [OF k _ that(2), of x] that by force
  then show ?thesis
    using k by (simp add: exec_cap_install_def Let_def split: option.split cap_kind.split)
qed

lemma chan_send_keeps:
  assumes k: "kernel_inv (m_store m)" and "call_layout v cur (SysChanSend chan buf len caps) m"
  shows "keeps (exec_chan_send cur chan buf len caps m)"
proof (cases "cur_slot cur chan (m_store m)")
  case (Some i)
  show ?thesis
  proof (cases "kind (cap (slots (m_store m) i))")
    case (Channel ch e)
    have snd: "keeps (do { (r, s') \<leftarrow> send ch e data ks (m_store m); reply (f r) (m\<lparr>m_store := s'\<rparr>) })"
      if "resolve_cap_list cur caps True m = Some (Inr ks)" for data ks f
      by (rule keeps_bind [OF send_inv [OF k]])
         (use assms(2) that Some Channel resolve_cap_list_length [OF that] in auto)
    have "keeps (do { cl \<leftarrow> resolve_cap_list cur caps True m;
        case cl of Inl e \<Rightarrow> reply e m
        | Inr ks \<Rightarrow> do { (r, s') \<leftarrow> send ch e data ks (m_store m); reply (f r) (m\<lparr>m_store := s'\<rparr>) } })" for data f
      by (rule keeps_bind_guard [OF resolve_cap_list_total]) (auto simp: k snd split: sum.split)
    then have "keeps (do { ok \<leftarrow> user_range_ok cur buf len (m_store m);
        if \<not> ok then reply ERR_FAULT m
        else do { cl \<leftarrow> resolve_cap_list cur caps True m;
          case cl of Inl e \<Rightarrow> reply e m
          | Inr ks \<Rightarrow> do { (r, s') \<leftarrow> send ch e data ks (m_store m); reply (f r) (m\<lparr>m_store := s'\<rparr>) } } })" for data f
      by (intro keeps_bind_guard [OF user_range_ok_total]) (simp add: k)
    then show ?thesis using k Some Channel by (simp add: exec_chan_send_def Let_def)
  qed (use k Some in \<open>simp_all add: exec_chan_send_def\<close>)
qed (use k in \<open>simp add: exec_chan_send_def\<close>)

lemma chan_recv_keeps:
  assumes k: "kernel_inv (m_store m)" and "call_layout v cur (SysChanRecv chan buf dests) m"
  shows "keeps (exec_chan_recv cur chan buf dests m)"
proof (cases "cur_slot cur chan (m_store m)")
  case (Some i)
  show ?thesis
  proof (cases "kind (cap (slots (m_store m) i))")
    case (Channel ch e)
    have rcv: "keeps (recv ch e rbuf ks (m_store m) \<bind> (\<lambda>(r, s'). case r of
          Inl e \<Rightarrow> reply (f e) (m\<lparr>m_store := s'\<rparr>)
        | Inr (len, msk, rbuf) \<Rightarrow>
            reply (of_nat len) (set_x 1 (ucast msk) (write_user cur buf (take len rbuf) (m\<lparr>m_store := s'\<rparr>)))))"
      if "resolve_cap_list cur dests False m = Some (Inr ks)" for rbuf ks f
      by (rule keeps_bind [OF recv_inv [OF k]])
         (use assms(2) that Some Channel resolve_cap_list_length [OF that] in \<open>auto split: sum.split\<close>)
    have err: "(case r of
          Inl ChanEmpty \<Rightarrow> reply ERR_EMPTY m' | Inl NoCapSlot \<Rightarrow> reply ERR_NOSLOT m' | Inl _ \<Rightarrow> reply ERR_ARG m'
        | Inr x \<Rightarrow> h x) =
        (case r of Inl e \<Rightarrow> reply (case e of ChanEmpty \<Rightarrow> ERR_EMPTY | NoCapSlot \<Rightarrow> ERR_NOSLOT | _ \<Rightarrow> ERR_ARG) m'
         | Inr x \<Rightarrow> h x)" for r h m'
      by (simp split: sum.split chan_error.split)
    have ok: "\<exists>b. user_range_ok cur buf (of_nat MSG_PAYLOAD) (m_store m) = Some b"
      and wr: "\<exists>b. user_range_writable cur buf (of_nat MSG_PAYLOAD) (m_store m) = Some b"
      and dl: "\<exists>b. resolve_cap_list cur dests False m = Some b"
      by (rule user_range_ok_total user_range_writable_total resolve_cap_list_total)+
    show ?thesis
      unfolding exec_chan_recv_def Let_def Some Channel option.case cap_kind.case err
      using k ok wr dl rcv by (auto split: sum.split)
  qed (use k Some in \<open>simp_all add: exec_chan_recv_def\<close>)
qed (use k in \<open>simp add: exec_chan_recv_def\<close>)

lemma chan_bind_keeps: "kernel_inv (m_store m) \<Longrightarrow> keeps (exec_chan_bind cur chan ev notif bits m)"
  using chan_bind_inv [of "m_store m"]
  by (simp add: exec_chan_bind_def Let_def split: option.split cap_kind.split sum.split)

lemma notif_signal_keeps: "kernel_inv (m_store m) \<Longrightarrow> keeps (exec_notif_signal cur k bits m)"
  using signal_inv [of "m_store m"]
  by (simp add: exec_notif_signal_def Let_def split: option.split sum.split)

lemma notif_wait_keeps:
  assumes "kernel_inv (m_store m)" and "tcb_state (tcbs (m_store m) cur) = Running"
  shows "keeps (exec_notif_wait cur k m)"
proof -
  have "keeps (case notif_wait n cur (m_store m) of (r, s') \<Rightarrow> Some (r, m\<lparr>m_store := s'\<rparr>))" for n
    using notif_wait_inv [OF assms(1), of cur n] assms(2) by (simp add: case_prod_beta)
  then show ?thesis
    using assms(1) by (simp add: exec_notif_wait_def Let_def split: option.split cap_kind.split)
qed

lemma thread_start_keeps:
  assumes k: "kernel_inv (m_store m)" and p: "unat prio < NUM_PRIOS"
  shows "keeps (exec_thread_start cur tcb cspace entry sp prio arg m)"
proof -
  have start: "keeps (case set_priority t prio c (m_store m) of
      (Inl _, s) \<Rightarrow> reply ERR_PERM (m\<lparr>m_store := s\<rparr>)
    | (Inr _, s) \<Rightarrow>
        (let s = set_obj_refs cs (refs s cs + 1) s; s = set_tcb_cspace t (Some cs) s
         in reply 0 (m\<lparr>m_store := start_thread t entry sp arg s\<rparr>)))"
    if t: "tcb_state (tcbs (m_store m) t) = Inactive" for t c cs
  proof -
    obtain r s where r: "set_priority t prio c (m_store m) = (r, s)" by force
    note s = set_priority_inv [OF k t p r]
    have "kernel_inv (set_tcb_cspace t (Some cs) (set_obj_refs cs x s))" for x
      unfolding set_tcb_cspace_def by (rule kernel_inv_tcb [OF kernel_inv_refs [OF s(1)]]) simp_all
    then have "kernel_inv (start_thread t entry sp arg (set_tcb_cspace t (Some cs) (set_obj_refs cs x s)))" for x
      by (rule start_thread_inv) (use s(2) in \<open>simp add: store_defs\<close>)
    then show ?thesis using s(1) r by (cases r) (simp_all add: Let_def)
  qed
  have ok: "\<exists>b. user_range_ok cur entry 4 (m_store m) = Some b" "\<exists>b. user_range_ok cur sp 0 (m_store m) = Some b"
    by (rule user_range_ok_total)+
  show ?thesis
    using k ok start unfolding exec_thread_start_def Let_def
    by (auto split: option.split cap_kind.split)
qed

lemma thread_start_as_keeps:
  assumes k: "kernel_inv (m_store m)" and p: "unat prio < NUM_PRIOS"
  shows "keeps (exec_thread_start_as cur tcb cspace aspace entry sp prio arg m)"
proof -
  have start: "keeps (case set_priority t prio c (m_store m) of
      (Inl _, s) \<Rightarrow> reply ERR_PERM (m\<lparr>m_store := s\<rparr>)
    | (Inr _, s) \<Rightarrow> do {
        ok \<leftarrow> range_mapped_in (aspaces s asp) entry 4 False;
        if \<not> ok then reply ERR_FAULT (m\<lparr>m_store := s\<rparr>)
        else (let s = set_obj_refs cs (refs s cs + 1) s; s = set_obj_refs asp (refs s asp + 1) s;
                  s = set_tcb_cspace t (Some cs) s; s = set_tcb_aspace t (Some asp) s
              in reply 0 (m\<lparr>m_store := start_thread t entry sp arg s\<rparr>)) })"
    if t: "tcb_state (tcbs (m_store m) t) = Inactive" for t c cs asp
  proof -
    obtain r s where r: "set_priority t prio c (m_store m) = (r, s)" by force
    note s = set_priority_inv [OF k t p r]
    have "kernel_inv (set_tcb_cspace t (Some cs) (set_obj_refs asp y (set_obj_refs cs x s)))" for x y
      unfolding set_tcb_cspace_def by (rule kernel_inv_tcb [OF kernel_inv_refs [OF kernel_inv_refs [OF s(1)]]]) simp_all
    then have "kernel_inv (set_tcb_aspace t (Some asp) (set_tcb_cspace t (Some cs) (set_obj_refs asp y (set_obj_refs cs x s))))" for x y
      unfolding set_tcb_aspace_def by (rule kernel_inv_tcb) simp_all
    then have "kernel_inv (start_thread t entry sp arg
        (set_tcb_aspace t (Some asp) (set_tcb_cspace t (Some cs) (set_obj_refs asp y (set_obj_refs cs x s)))))" for x y
      by (rule start_thread_inv) (use s(2) in \<open>simp add: store_defs\<close>)
    then show ?thesis using s(1) r by (cases r) (simp_all add: Let_def range_mapped_eq)
  qed
  show ?thesis
    using k start unfolding exec_thread_start_as_def Let_def
    by (auto split: option.split cap_kind.split)
qed

lemma timer_arm_keeps:
  assumes k: "kernel_inv (m_store m)"
  shows "keeps (exec_timer_arm v cur timer notif bits delta m)"
proof -
  have "keeps (do { s' \<leftarrow> arm t n bits d (m_store m); reply 0 (m\<lparr>m_store := s'\<rparr>) })" for t n d
    using arm_inv [OF k, of t n bits d] by auto
  then show ?thesis
    using k by (simp add: exec_timer_arm_def Let_def split: option.split cap_kind.split sum.split)
qed

lemma irq_keeps:
  assumes "kernel_inv (m_store m)"
  shows "keeps (exec_irq_bind cur irq notif bits m)" and "keeps (exec_irq_ack cur irq m)"
  using assms irq_bind_inv [OF assms] set_irq_masked_inv [OF assms]
  by (simp_all add: exec_irq_bind_def exec_irq_ack_def irq_ack_def Let_def split: option.split cap_kind.split sum.split)

lemma stop_thread_inv:
  assumes "kernel_inv s" and "tcb_state (tcbs s t) = Running" and "v = Halted \<or> v = Faulted"
  shows "kernel_inv (report_terminal t r (set_tcb_state t v s))"
  by (rule report_terminal_inv, rule set_state_idle_inv [OF assms(1)]) (use assms(2,3) in auto)

lemma thread_bind_keeps:
  assumes k: "kernel_inv (m_store m)" and "call_layout v cur (SysThreadBind tcb which notif bits) m"
  shows "keeps (exec_thread_bind cur tcb which notif bits m)"
proof (cases "cur_slot cur tcb (m_store m)")
  case (Some i)
  show ?thesis
  proof (cases "kind (cap (slots (m_store m) i))")
    case (Thread t q)
    have bind: "keeps (do { s' \<leftarrow> thread_bind t which src bits (m_store m); reply 0 (m\<lparr>m_store := s'\<rparr>) })"
      if "src \<noteq> Some (tcb_bind_slot (tcbs (m_store m) t) which)" for src
      using thread_bind_inv [OF k that, of bits] by auto
    show ?thesis
      using k bind assms(2) Some Thread
      by (simp add: exec_thread_bind_def Let_def split: option.split sum.split)
  qed (use k Some in \<open>simp_all add: exec_thread_bind_def\<close>)
qed (use k in \<open>simp add: exec_thread_bind_def\<close>)

lemma read_report_keeps: "kernel_inv (m_store m) \<Longrightarrow> keeps (exec_read_report cur tcb m)"
  by (simp add: exec_read_report_def Let_def split: option.split cap_kind.split prod.split)

lemma map_keeps:
  assumes k: "kernel_inv (m_store m)"
  shows "keeps (exec_map cur aspace fr va perms m)"
proof -
  have "keeps (case map_frame f a va perms (m_store m) of
      (Inr _, s') \<Rightarrow> reply 0 (m\<lparr>m_store := s'\<rparr>)
    | (Inl NeedMemory, s') \<Rightarrow> reply ERR_NOMEM (m\<lparr>m_store := s'\<rparr>)
    | (Inl AlreadyMapped, s') \<Rightarrow> reply ERR_STATE (m\<lparr>m_store := s'\<rparr>)
    | (Inl BadVa, s') \<Rightarrow> reply ERR_ARG (m\<lparr>m_store := s'\<rparr>))" for f a
  proof -
    obtain r s' where r: "map_frame f a va perms (m_store m) = (r, s')" by force
    show ?thesis using map_frame_inv [OF k r] r by (simp split: sum.split map_error.split)
  qed
  then show ?thesis using k by (simp add: exec_map_def Let_def split: option.split cap_kind.split)
qed

lemma frame_keeps:
  assumes k: "kernel_inv (m_store m)"
  shows "keeps (exec_frame_write cur fr off buf len m)" and "keeps (exec_frame_paddr cur fr m)"
proof -
  obtain b where "user_range_ok cur buf len (m_store m) = Some b" using user_range_ok_total by blast
  then show "keeps (exec_frame_write cur fr off buf len m)"
    using k by (simp add: exec_frame_write_def Let_def split: option.split cap_kind.split)
  show "keeps (exec_frame_paddr cur fr m)"
    using k by (simp add: exec_frame_paddr_def Let_def split: option.split cap_kind.split)
qed

lemma untyped_reset_keeps:
  assumes k: "kernel_inv (m_store m)"
  shows "keeps (exec_untyped_reset cur i m)"
proof -
  have "keeps (case reset x (m_store m) of (r, s') \<Rightarrow> reply (f r) (m\<lparr>m_store := s'\<rparr>))" for x f
    using reset_inv [OF k, of x] by (auto split: prod.split)
  then show ?thesis using k by (simp add: exec_untyped_reset_def split: option.split)
qed

lemma aspace_topup_keeps:
  assumes k: "kernel_inv (m_store m)" and "call_layout v cur (SysAspaceTopUp aspace ut pages) m"
  shows "keeps (exec_aspace_topup cur aspace ut pages m)"
proof (cases "cur_slot cur aspace (m_store m)")
  case (Some i)
  show ?thesis
  proof (cases "kind (cap (slots (m_store m) i))")
    case (Aspace asp)
    have "keeps (case aspace_topup u asp pages (m_store m) of (r, s') \<Rightarrow> reply (f r) (m\<lparr>m_store := s'\<rparr>))" for u f
      using aspace_topup_inv [OF k, of asp pages u] assms(2) Some Aspace by (auto split: prod.split)
    then show ?thesis
      using k Some Aspace by (simp add: exec_aspace_topup_def Let_def split: option.split)
  qed (use k Some in \<open>simp_all add: exec_aspace_topup_def Let_def split: option.split\<close>)
qed (use k in \<open>simp add: exec_aspace_topup_def\<close>)

lemma execute_keeps:
  assumes "kernel_inv (m_store m)" and "tcb_state (tcbs (m_store m) cur) = Running"
    and "sys_ok sys" and "call_layout v cur sys m"
  shows "keeps (execute v cur sys m)"
proof (cases sys)
  case (SysThreadExit status)
  then show ?thesis using stop_thread_inv [OF assms(1,2)] by (simp add: exec_thread_exit_def)
next
  case (SysThreadStart tcb cspace entry sp prio arg)
  then show ?thesis using thread_start_keeps [OF assms(1)] assms(3) by simp
next
  case (SysThreadStartAs tcb cspace aspace entry sp prio arg)
  then show ?thesis using thread_start_as_keeps [OF assms(1)] assms(3) by simp
next
  case (SysRetype ut ty param dst dst2)
  then show ?thesis using retype_keeps [OF assms(1)] assms(4) by (simp only: execute.simps)
next
  case (SysChanSend chan buf len caps)
  then show ?thesis using chan_send_keeps [OF assms(1)] assms(4) by (simp only: execute.simps)
next
  case (SysChanRecv chan buf dests)
  then show ?thesis using chan_recv_keeps [OF assms(1)] assms(4) by (simp only: execute.simps)
next
  case (SysThreadBind tcb which notif bits)
  then show ?thesis using thread_bind_keeps [OF assms(1)] assms(4) by (simp only: execute.simps)
next
  case (SysAspaceTopUp aspace ut pages)
  then show ?thesis using aspace_topup_keeps [OF assms(1)] assms(4) by (simp only: execute.simps)
qed (simp_all only: execute.simps debug_keeps yield_keeps cap_copy_keeps cap_delete_keeps cap_revoke_keeps
      cap_install_keeps chan_bind_keeps notif_signal_keeps notif_wait_keeps timer_arm_keeps irq_keeps
      read_report_keeps map_keeps frame_keeps untyped_reset_keeps assms(1,2))

section \<open>The handlers\<close>

text \<open>The decoded call of a trap frame.\<close>

definition trapped_call :: "machine \<Rightarrow> sys_error + sys" where
  "trapped_call m = (let x = tf_x (m_frame m) in sys_decode (x 7) [x 0, x 1, x 2, x 3, x 4, x 5, x 6])"

definition trap_layout :: "env \<Rightarrow> obj_id \<Rightarrow> machine \<Rightarrow> bool" where
  "trap_layout v cur m \<longleftrightarrow> (case trapped_call m of Inl _ \<Rightarrow> True | Inr sys \<Rightarrow> call_layout v cur sys m)"

lemma dispatch_keeps:
  assumes "kernel_inv (m_store m)" and "current (m_store m) = Some cur"
    and "tcb_state (tcbs (m_store m) cur) = Running" and "trap_layout v cur m"
  shows "keeps (dispatch v m)"
proof (cases "trapped_call m")
  case (Inl e)
  then show ?thesis using assms(1,2) by (simp add: dispatch_def trapped_call_def Let_def)
next
  case (Inr sys)
  have "sys_ok sys" using Inr sys_decode_ok by (fastforce simp: trapped_call_def Let_def)
  then show ?thesis
    using execute_keeps [OF assms(1,3)] assms(2,4) Inr
    by (simp add: dispatch_def trapped_call_def trap_layout_def Let_def)
qed

lemma handle_sync_inv:
  assumes "kernel_inv (m_store m)" and "current (m_store m) = Some cur"
    and "tcb_state (tcbs (m_store m) cur) = Running" and "trap_layout v cur m"
  shows "\<exists>m'. handle_el0_sync v esr far m = Some m' \<and> kernel_inv (m_store m')"
proof (cases "esr_ec esr = 0x15")
  case True
  obtain r m1 where d: "dispatch v m = Some (r, m1)" "kernel_inv (m_store m1)"
    using dispatch_keeps [OF assms] by (auto simp: keeps_def)
  then have "kernel_inv (m_store (schedule False (case r of None \<Rightarrow> m1 | Some r \<Rightarrow> set_x 0 r m1)))"
    by (intro schedule_inv) (simp split: option.split)
  then show ?thesis using True d by (simp add: handle_el0_sync_def)
next
  case False
  have "kernel_inv (m_store (schedule False (m\<lparr>m_store := report_terminal cur r (set_tcb_state cur Faulted (m_store m))\<rparr>)))" for r
    by (rule schedule_inv) (simp add: stop_thread_inv [OF assms(1,3)])
  then show ?thesis using False assms(2) by (simp add: handle_el0_sync_def Let_def)
qed

lemma handle_irq_inv:
  assumes "kernel_inv (m_store m)"
  shows "\<exists>m'. handle_el0_irq v irq_table intid m = Some m' \<and> kernel_inv (m_store m')"
proof (cases "intid = INTID_VTIMER")
  case True
  obtain s' where s: "check_expired (env_counter v) (m_store m) = Some s'" "kernel_inv s'"
    using check_expired_inv [OF assms] by blast
  then have "kernel_inv (m_store (schedule True (m\<lparr>m_store := s'\<rparr>)))" by (intro schedule_inv) simp
  then show ?thesis using True s by (simp add: handle_el0_irq_def)
next
  case False
  obtain w ops s' where s: "deliver irq_table intid (m_store m) = Some (w, ops, s')" "kernel_inv s'"
    using deliver_inv [OF assms] by blast
  then have "kernel_inv (m_store (schedule w (m\<lparr>m_store := s', m_gic := m_gic m @ ops\<rparr>)))" by (intro schedule_inv) simp
  then show ?thesis using False s by (simp add: handle_el0_irq_def)
qed

section \<open>Runs\<close>

text \<open>
  A run of the machine: user code changes registers and memory, the current thread traps, an
  interrupt arrives. The counter and the diagnostic switch may differ from step to step.
\<close>

inductive kernel_step :: "platform \<Rightarrow> obj_id list \<Rightarrow> machine \<Rightarrow> machine \<Rightarrow> bool"
  for z irq_table where
  user_step: "kernel_step z irq_table m (m\<lparr>m_frame := f, m_mem := mem\<rparr>)"
| sync_step: "env_platform v = z \<Longrightarrow> current (m_store m) = Some cur \<Longrightarrow>
    tcb_state (tcbs (m_store m) cur) = Running \<Longrightarrow> trap_layout v cur m \<Longrightarrow>
    handle_el0_sync v esr far m = Some m' \<Longrightarrow> kernel_step z irq_table m m'"
| irq_step: "env_platform v = z \<Longrightarrow> handle_el0_irq v irq_table intid m = Some m' \<Longrightarrow> kernel_step z irq_table m m'"

lemma kernel_step_inv: "kernel_step z irq_table m m' \<Longrightarrow> kernel_inv (m_store m) \<Longrightarrow> kernel_inv (m_store m')"
proof (induction rule: kernel_step.induct)
  case (user_step m f mem)
  then show ?case by simp
next
  case (sync_step v m cur esr far m')
  then show ?case using handle_sync_inv [of m cur v esr far] by auto
next
  case (irq_step v intid m m')
  then show ?case using handle_irq_inv [of m v irq_table intid] by auto
qed



section \<open>What the kernel writes\<close>

lemma store_bytes_other:
  "store_bytes pa i bs mem p \<noteq> mem p \<Longrightarrow> \<exists>j < length bs. p = pa (i + j)"
proof (induction bs arbitrary: i mem)
  case (Cons b bs)
  show ?case
  proof (cases "store_bytes pa (Suc i) bs (mem(pa i := b)) p = (mem(pa i := b)) p")
    case True
    then show ?thesis using Cons.prems by (intro exI [of _ 0]) (auto split: if_splits)
  next
    case False
    then obtain j where "j < length bs" "p = pa (Suc i + j)" using Cons.IH by blast
    then show ?thesis by (intro exI [of _ "Suc j"]) simp
  qed
qed simp

lemma recv_caps_frame:
  "recv_caps ch ring h c dests msk s = Some (x, s') \<Longrightarrow> tcbs s' = tcbs s \<and> aspaces s' = aspaces s"
proof (induction dests arbitrary: c msk s)
  case (Cons d dests)
  show ?case
  proof (cases "empty_slot (slots s) (chan_ring_cap (chans s ch) ring h c)")
    case True
    then show ?thesis using Cons by simp
  next
    case False
    then obtain k s1 where "store_move (chan_ring_cap (chans s ch) ring h c) k s = Some s1"
      "recv_caps ch ring h (Suc c) dests (msk OR push_bit c 1) s1 = Some (x, s')"
      using Cons.prems by (auto simp: Let_def bind_eq_Some_conv)
    then show ?thesis using Cons.IH store_move_frame(5,8) by metis
  qed
qed simp

lemma recv_translation:
  assumes "recv ch e buf dests s = Some (r, s')"
  shows "user_pa cur s' = user_pa cur s"
proof -
  have f: "aspaces (fire ch x ev t) = aspaces t" "tcb_aspace (tcbs (fire ch x ev t) y) = tcb_aspace (tcbs t y)" for x ev t y
    by (simp_all add: fire_def Let_def split: option.split)
  have "aspaces s' = aspaces s \<and> (\<forall>t. tcb_aspace (tcbs s' t) = tcb_aspace (tcbs s t))"
    using assms recv_caps_frame
    by (auto simp: recv_def Let_def bind_eq_Some_conv f split: if_splits) (auto simp: store_defs)
  then show ?thesis unfolding user_pa_def by presburger
qed

lemma recv_length:
  assumes "recv ch e buf dests s = Some (Inr (len, msk, rbuf), s')" and "length buf = MSG_PAYLOAD"
  shows "length rbuf \<le> MSG_PAYLOAD"
  using assms by (auto simp: recv_def Let_def bind_eq_Some_conv chan_msg_read_def split: if_splits)

text \<open>All the results a call can return.\<close>

definition outcomes :: "(u64 option \<Rightarrow> machine \<Rightarrow> bool) \<Rightarrow> outcome \<Rightarrow> bool" where
  "outcomes P r \<longleftrightarrow> (\<forall>x m'. r = Some (x, m') \<longrightarrow> P x m')"

lemma outcomes_simps [simp]:
  "outcomes P (reply x m) = P (Some x) m" "outcomes P (Some (y, m)) = P y m" "outcomes P None"
  by (simp_all add: outcomes_def reply_def)

lemma outcomes_bind: "(\<And>b. f = Some b \<Longrightarrow> outcomes P (g b)) \<Longrightarrow> outcomes P (f \<bind> g)"
  by (cases f) simp_all

lemma schedule_mem [simp]: "m_mem (schedule pe m) = m_mem m"
  by (simp add: schedule_def split: prod.split)

lemma set_x_mem [simp]: "m_mem (set_x i v m) = m_mem m"
  by (simp add: set_x_def)

definition held :: "obj_id \<Rightarrow> slot_id \<Rightarrow> kstore \<Rightarrow> bool" where
  "held cur k s \<longleftrightarrow> (\<exists>i. cur_slot cur i s = Some k)"

definition user_writable :: "obj_id \<Rightarrow> kstore \<Rightarrow> u64 \<Rightarrow> bool" where
  "user_writable cur s va \<longleftrightarrow>
     (case tcb_aspace (tcbs s cur) of
        None \<Rightarrow> USER_BASE \<le> va \<and> va < USER_BASE + USER_SIZE
      | Some a \<Rightarrow> leaf (aspaces s a) va \<noteq> 0 \<and> drop_bit 6 (leaf (aspaces s a) va) AND 3 = 1)"

lemma user_range_writable_bytes:
  assumes "user_range_writable cur ptr len s = Some True" and "i < unat len"
  shows "user_writable cur s (ptr + of_nat i)"
proof (cases "tcb_aspace (tcbs s cur)")
  case None
  then have b: "unat len \<le> unat USER_SIZE" "unat USER_BASE \<le> unat ptr" "unat ptr + unat len < 2 ^ 64"
    "unat (ptr + len) \<le> unat USER_BASE + unat USER_SIZE"
    using assms(1) by (auto simp: user_range_writable_def user_range_ok_def checked_add_def USER_BASE_def USER_SIZE_def
        word_le_nat_alt split: if_splits)
  then have "unat (ptr + len) = unat ptr + unat len" by (simp add: unat_word_ariths)
  moreover have "unat (ptr + of_nat i) = unat ptr + i"
    using b assms(2) by (simp add: unat_word_ariths unat_of_nat)
  ultimately show ?thesis
    using b assms(2) None by (simp add: user_writable_def USER_BASE_def USER_SIZE_def word_le_nat_alt word_less_nat_alt)
next
  case (Some a)
  have "len \<noteq> 0" using assms(2) by auto
  then show ?thesis
    using assms Some by (simp add: user_range_writable_def range_mapped_eq user_writable_def)
qed

text \<open>The three reasons for which the kernel may change a byte of memory for a caller.\<close>

definition may_write :: "obj_id \<Rightarrow> kstore \<Rightarrow> u64 \<Rightarrow> bool" where
  "may_write cur s p \<longleftrightarrow>
     (\<exists>va. user_writable cur s va \<and> p = user_pa cur s va) \<or>
     (\<exists>k base pages mp i. held cur k s \<and> kind (cap (slots s k)) = Frame base pages mp \<and>
        has_rights (rights (cap (slots s k))) WRITE \<and> i < unat (pages * 4096) \<and> p = base + of_nat i) \<or>
     (\<exists>k base sz w. held cur k s \<and> kind (cap (slots s k)) = Untyped base sz w \<and>
        unat base + unat w \<le> unat p \<and> unat p < unat base + unat sz)"

abbreviation writes_ok :: "obj_id \<Rightarrow> machine \<Rightarrow> u64 option \<Rightarrow> machine \<Rightarrow> bool" where
  "writes_ok cur m \<equiv> \<lambda>_ m'. \<forall>p. m_mem m' p \<noteq> m_mem m p \<longrightarrow> may_write cur (m_store m) p"

lemma recv_writes:
  "outcomes (writes_ok cur m) (exec_chan_recv cur chan buf dests m)"
proof -
  have w: "may_write cur (m_store m) p"
    if h: "user_range_writable cur buf (of_nat MSG_PAYLOAD) (m_store m) = Some True"
      "recv ch e (replicate MSG_PAYLOAD 0) ks (m_store m) = Some (Inr (len, msk, rbuf), s')"
      "m_mem (write_user cur buf (take len rbuf) (m\<lparr>m_store := s'\<rparr>)) p \<noteq> m_mem m p" for p ch e ks len msk rbuf s'
  proof -
    obtain j where j: "j < length (take len rbuf)" "p = user_pa cur (m_store m) (buf + of_nat j)"
    proof -
      have "store_bytes (\<lambda>i. user_pa cur (m_store m) (buf + of_nat i)) 0 (take len rbuf) (m_mem m) p \<noteq> m_mem m p"
        using h(3) by (simp add: write_user_def recv_translation [OF h(2)])
      from store_bytes_other [OF this] show thesis using that by auto
    qed
    then have "j < unat (of_nat MSG_PAYLOAD :: u64)"
      using recv_length [OF h(2)] by (simp add: MSG_PAYLOAD_def)
    from user_range_writable_bytes [OF h(1) this] show ?thesis using j(2) unfolding may_write_def by blast
  qed
  show ?thesis
    unfolding exec_chan_recv_def Let_def
    by (auto intro!: outcomes_bind simp: w split: option.split cap_kind.split sum.split chan_error.split)
qed

lemma frame_write_writes:
  "outcomes (writes_ok cur m) (exec_frame_write cur fr off buf len m)"
proof -
  have w: "may_write cur (m_store m) p"
    if h: "cur_slot cur fr (m_store m) = Some k" "kind (cap (slots (m_store m) k)) = Frame base pages mp"
      "has_rights (rights (cap (slots (m_store m) k))) WRITE"
      "checked_add off len = Some e" "\<not> pages * 4096 < e"
      "store_bytes (\<lambda>i. base + off + of_nat i) 0 (read_user cur buf (unat len) m) (m_mem m) p \<noteq> m_mem m p"
    for p k base pages mp e
  proof -
    obtain j where j: "j < unat len" "p = base + off + of_nat j"
      using store_bytes_other [OF h(6)] by (auto simp: read_user_def)
    have "unat off + unat len < 2 ^ 64" "unat off + unat len \<le> unat (pages * 4096)"
      using h(4,5) unat_checked_add [OF h(4)] by (auto simp: checked_add_Some not_less word_le_nat_alt)
    then have "unat off + j < unat (pages * 4096)" "p = base + of_nat (unat off + j)" using j by (simp_all add: add.assoc)
    then show ?thesis using h(1-3) unfolding may_write_def held_def by blast
  qed
  show ?thesis
    unfolding exec_frame_write_def Let_def
    by (auto intro!: outcomes_bind simp: w split: option.split cap_kind.split)
qed

lemma zero_frame_writes:
  assumes "cur_slot cur i (m_store m) = Some k" and "m_mem (zero_frame z k ty param m) p \<noteq> m_mem m p"
  shows "may_write cur (m_store m) p"
proof -
  obtain base sz w c where c: "kind (cap (slots (m_store m) k)) = Untyped base sz w" "carve z base sz w ty param = Inr c"
    "store_bytes (\<lambda>i. carve_start c + of_nat i) 0 (replicate (unat (carve_bytes c)) 0) (m_mem m) p \<noteq> m_mem m p"
    using assms(2) by (auto simp: zero_frame_def split: cap_kind.splits sum.splits if_splits)
  obtain j where j: "j < unat (carve_bytes c)" "p = carve_start c + of_nat j"
    using store_bytes_other [OF c(3)] by auto
  obtain n where n: "carve_place base sz w (obj_align ty) n = Inr c"
    using c(2) by (auto simp: carve_def split: option.splits)
  note r = carve_place_Inr [OF obj_align_pos n]
  have "unat p = unat (carve_start c) + j"
    using j r(2,3,4,7) by (simp add: unat_word_ariths unat_of_nat)
  then have "unat base + unat w \<le> unat p" "unat p < unat base + unat sz" using r j(1) by simp_all
  then show ?thesis using assms(1) c(1) unfolding may_write_def held_def by blast
qed

lemma retype_writes: "outcomes (writes_ok cur m) (exec_retype v cur ut ty param dst dst2 m)"
  unfolding exec_retype_def Let_def
  by (auto simp: zero_frame_writes split: option.split prod.split sum.split retype_error.split)

lemma other_writes:
  "outcomes (writes_ok cur m) (exec_debug_putc v ch m)" "outcomes (writes_ok cur m) (exec_debug_write v cur ptr len m)"
  "outcomes (writes_ok cur m) (exec_yield m)" "outcomes (writes_ok cur m) (exec_cap_copy cur src dst msk ceiling m)"
  "outcomes (writes_ok cur m) (exec_cap_delete cur k m)" "outcomes (writes_ok cur m) (exec_cap_revoke cur k m)"
  "outcomes (writes_ok cur m) (exec_cap_install cur cs src i m)"
  "outcomes (writes_ok cur m) (exec_chan_send cur chan buf len' caps m)"
  "outcomes (writes_ok cur m) (exec_chan_bind cur chan ev notif bits m)"
  "outcomes (writes_ok cur m) (exec_notif_signal cur k bits m)" "outcomes (writes_ok cur m) (exec_notif_wait cur k m)"
  unfolding exec_debug_putc_def exec_debug_write_def exec_yield_def exec_cap_copy_def exec_cap_delete_def
    exec_cap_revoke_def exec_cap_install_def exec_chan_send_def exec_chan_bind_def exec_notif_signal_def
    exec_notif_wait_def Let_def
  by (auto intro!: outcomes_bind split: option.split cap_kind.split sum.split prod.split)

lemma other_writes':
  "outcomes (writes_ok cur m) (exec_thread_start cur tcb cspace entry sp prio arg m)"
  "outcomes (writes_ok cur m) (exec_thread_start_as cur tcb cspace aspace entry sp prio arg m)"
  "outcomes (writes_ok cur m) (exec_timer_arm v cur timer notif bits delta m)"
  "outcomes (writes_ok cur m) (exec_irq_bind cur irq notif bits m)" "outcomes (writes_ok cur m) (exec_irq_ack cur irq m)"
  "outcomes (writes_ok cur m) (exec_thread_exit cur status m)"
  "outcomes (writes_ok cur m) (exec_thread_bind cur tcb which notif bits m)"
  "outcomes (writes_ok cur m) (exec_read_report cur tcb m)" "outcomes (writes_ok cur m) (exec_map cur aspace fr va perms m)"
  "outcomes (writes_ok cur m) (exec_frame_paddr cur k m)" "outcomes (writes_ok cur m) (exec_untyped_reset cur k m)"
  "outcomes (writes_ok cur m) (exec_aspace_topup cur aspace ut pages m)"
  unfolding exec_thread_start_def exec_thread_start_as_def exec_timer_arm_def exec_irq_bind_def exec_irq_ack_def
    exec_thread_exit_def exec_thread_bind_def exec_read_report_def exec_map_def exec_frame_paddr_def
    exec_untyped_reset_def exec_aspace_topup_def Let_def
  by (auto intro!: outcomes_bind split: option.split cap_kind.split sum.split prod.split map_error.split)

text \<open>
  C33: what the kernel writes on behalf of a caller. If a call changes a byte of memory then either
  the byte belongs to a page the caller can itself write, or it belongs to a frame to which the
  caller holds a capability with the right to write, or it belongs to the unused part of
  an untyped region the caller holds. No other byte of memory changes, for any call and any
  arguments.
\<close>

theorem kernel_writes_confined:
  assumes "execute v cur sys m = Some (r, m')" and "m_mem m' p \<noteq> m_mem m p"
  shows "may_write cur (m_store m) p"
proof -
  have "outcomes (writes_ok cur m) (execute v cur sys m)"
    by (cases sys) (simp_all only: execute.simps recv_writes frame_write_writes retype_writes other_writes other_writes')
  then show ?thesis using assms by (auto simp: outcomes_def)
qed

section \<open>Failed calls\<close>

definition errnos :: "u64 set" where
  "errnos = {ERR_BADSLOT, ERR_TYPE, ERR_PERM, ERR_FULL, ERR_EMPTY, ERR_NOSLOT, ERR_FAULT, ERR_NOMEM, ERR_ARG,
     ERR_CLOSED, ERR_STATE}"

lemmas err_defs = ERR_BADSLOT_def ERR_TYPE_def ERR_PERM_def ERR_FULL_def ERR_EMPTY_def ERR_NOSLOT_def
  ERR_FAULT_def ERR_NOMEM_def ERR_ARG_def ERR_CLOSED_def ERR_STATE_def ERR_AGAIN_def

lemma errnos_high: "r \<in> errnos \<Longrightarrow> 2 ^ 63 \<le> unat r"
  by (auto simp: errnos_def err_defs unsigned_minus_1_eq_mask mask_eq_exp_minus_1)

lemma not_errno [simp]: "0 \<notin> errnos" "1 \<notin> errnos" "2 \<notin> errnos" "ERR_AGAIN \<notin> errnos"
  "len < 65536 \<Longrightarrow> of_nat len \<notin> errnos"
proof -
  show "0 \<notin> errnos" "1 \<notin> errnos" "2 \<notin> errnos" using errnos_high by fastforce+
  show "ERR_AGAIN \<notin> errnos" by (simp add: errnos_def err_defs)
  show "of_nat len \<notin> errnos" if "len < 65536"
    using errnos_high [of "of_nat len"] that by (auto simp: unat_of_nat)
qed

abbreviation unchanged :: "machine \<Rightarrow> u64 option \<Rightarrow> machine \<Rightarrow> bool" where
  "unchanged m \<equiv> \<lambda>x m'. \<forall>r. x = Some r \<longrightarrow> r \<in> errnos \<longrightarrow> m' = m"

lemma retype_refused: "retype z cur ut ty param dst dst2 s = (Inl e, s') \<Longrightarrow> s' = s"
  by (auto simp: retype_def split: sum.splits prod.splits)

lemma reset_refused: "reset ut s = (Inl e, s') \<Longrightarrow> s' = s"
  by (auto simp: reset_eq split: if_splits)

lemma topup_refused: "aspace_topup ut asp pages s = (Inl e, s') \<Longrightarrow> s' = s"
  by (auto simp: aspace_topup_def Let_def split: cap_kind.splits sum.splits)

lemma derive_refused: "derive src dst msk ceiling s = Some (Inl e, s') \<Longrightarrow> s' = s"
  by (auto simp: derive_def Let_def bind_eq_Some_conv split: if_splits)

lemma send_refused: "send ch e data caps s = Some (Inl err, s') \<Longrightarrow> s' = s"
  by (auto simp: send_def Let_def bind_eq_Some_conv split: if_splits)

lemma recv_refused: "recv ch e buf dests s = Some (Inl err, s') \<Longrightarrow> s' = s"
  by (auto simp: recv_def Let_def bind_eq_Some_conv split: if_splits)

lemma recv_small: "recv ch e buf dests s = Some (Inr (len, msk, rbuf), s') \<Longrightarrow> len < 65536"
proof -
  have "unat (x :: u16) < 65536" for x using unsigned_less [of x] by simp
  then show "recv ch e buf dests s = Some (Inr (len, msk, rbuf), s') \<Longrightarrow> len < 65536"
    by (auto simp: recv_def Let_def bind_eq_Some_conv split: if_splits)
qed

lemma machine_id [simp]: "m\<lparr>m_store := m_store m\<rparr> = m"
  by simp

lemma retype_clean: "outcomes (unchanged m) (exec_retype v cur ut ty param dst dst2 m)"
  unfolding exec_retype_def Let_def
  by (auto dest!: retype_refused split: option.split prod.split sum.split retype_error.split)

lemma copy_clean: "outcomes (unchanged m) (exec_cap_copy cur src dst msk ceiling m)"
  unfolding exec_cap_copy_def Let_def
  by (auto intro!: outcomes_bind dest!: derive_refused split: option.split sum.split)

lemma send_clean: "outcomes (unchanged m) (exec_chan_send cur chan buf len caps m)"
  unfolding exec_chan_send_def Let_def
  by (auto intro!: outcomes_bind dest!: send_refused split: option.split cap_kind.split sum.split)

lemma recv_clean: "outcomes (unchanged m) (exec_chan_recv cur chan buf dests m)"
  unfolding exec_chan_recv_def Let_def
  by (auto intro!: outcomes_bind dest!: recv_refused recv_small
      split: option.split cap_kind.split sum.split chan_error.split)

lemma reset_clean: "outcomes (unchanged m) (exec_untyped_reset cur k m)"
  unfolding exec_untyped_reset_def
  by (auto dest!: reset_refused split: option.split prod.split sum.split)

lemma topup_clean: "outcomes (unchanged m) (exec_aspace_topup cur aspace ut pages m)"
  unfolding exec_aspace_topup_def Let_def
  by (auto dest!: topup_refused split: option.split prod.split sum.split cap_kind.split)

lemma start_clean: "outcomes (unchanged m) (exec_thread_start cur tcb cspace entry sp prio arg m)"
  unfolding exec_thread_start_def Let_def set_priority_def
  by (auto intro!: outcomes_bind split: option.split cap_kind.split)

lemma report_clean: "outcomes (unchanged m) (exec_read_report cur tcb m)"
proof -
  have "outcomes (unchanged m) (case report_regs r of (code, v1, v2) \<Rightarrow> reply code (f code v1 v2))" for r f
    by (cases r) simp_all
  then show ?thesis
    unfolding exec_read_report_def Let_def by (auto split: option.split cap_kind.split)
qed

lemma other_clean:
  "outcomes (unchanged m) (exec_debug_putc v ch m)" "outcomes (unchanged m) (exec_debug_write v cur ptr len m)"
  "outcomes (unchanged m) (exec_yield m)" "outcomes (unchanged m) (exec_cap_delete cur k m)"
  "outcomes (unchanged m) (exec_cap_revoke cur k m)" "outcomes (unchanged m) (exec_cap_install cur cs src i m)"
  "outcomes (unchanged m) (exec_chan_bind cur chan ev notif bits m)"
  "outcomes (unchanged m) (exec_notif_signal cur k bits m)"
  "outcomes (unchanged m) (exec_timer_arm v cur timer notif bits delta m)"
  "outcomes (unchanged m) (exec_irq_bind cur irq notif bits m)" "outcomes (unchanged m) (exec_irq_ack cur irq m)"
  "outcomes (unchanged m) (exec_thread_exit cur status m)"
  "outcomes (unchanged m) (exec_thread_bind cur tcb which notif bits m)"
  "outcomes (unchanged m) (exec_frame_write cur fr off buf len m)" "outcomes (unchanged m) (exec_frame_paddr cur k m)"
  unfolding exec_debug_putc_def exec_debug_write_def exec_yield_def exec_cap_delete_def exec_cap_revoke_def
    exec_cap_install_def exec_chan_bind_def exec_notif_signal_def exec_timer_arm_def exec_irq_bind_def exec_irq_ack_def
    exec_thread_exit_def exec_thread_bind_def exec_frame_write_def exec_frame_paddr_def Let_def
  by (auto intro!: outcomes_bind split: option.split cap_kind.split sum.split prod.split revoke_status.split)

lemma map_failed:
  "outcomes (\<lambda>x m'. \<forall>r. x = Some r \<longrightarrow> r \<in> errnos \<longrightarrow>
     m' = m\<lparr>m_store := (m_store m)\<lparr>aspaces := aspaces (m_store m')\<rparr>\<rparr>) (exec_map cur aspace fr va perms m)"
proof -
  have "s' = s\<lparr>aspaces := aspaces s'\<rparr>" if "map_frame k asp va perms s = (Inl e, s')" for k asp s e s'
    using that by (auto simp: map_frame_def aspace_map_def Let_def split: cap_kind.splits sum.splits prod.splits)
  then show ?thesis
    unfolding exec_map_def Let_def
    by (auto split: option.split cap_kind.split sum.split prod.split map_error.split)
qed

lemma start_as_failed:
  "outcomes (\<lambda>x m'. \<forall>r. x = Some r \<longrightarrow> r \<in> errnos \<longrightarrow>
     m' = m \<or> r = ERR_FAULT \<and> (\<exists>t. m' = m\<lparr>m_store := set_tcb_priority t prio (m_store m)\<rparr>))
     (exec_thread_start_as cur tcb cspace aspace entry sp prio arg m)"
  unfolding exec_thread_start_as_def Let_def set_priority_def
  by (auto intro!: outcomes_bind split: option.split cap_kind.split)


end
