(* ===== verification/Runexamples.thy ===== *)
theory Runexamples
  imports Examples Kernelsafe
begin

text \<open>
  A concrete machine: one running thread without an address space, whose capability space has one
  slot that holds a writable frame in the user window. The properties of the system calls that
  have hypotheses are applied to it.
\<close>

definition frame_cap :: capability where
  "frame_cap = \<lparr>kind = Frame 0x48000000 1 None, rights = RIGHTS_ALL\<rparr>"

definition run_store :: kstore where
  "run_store = (set_tcb_cspace (ObjId 1) (Some (ObjId 2)) (set_tcb_state (ObjId 1) Running (boot_store frame_cap)))
     \<lparr>current := Some (ObjId 1), cspaces := (\<lambda>_. \<lparr>cspace_num_slots = 1, cspace_slot = (\<lambda>_. SlotId 1)\<rparr>)\<rparr>"

definition run_machine :: machine where
  "run_machine = \<lparr>m_store = run_store, m_frame = tf_zeroed, m_mem = (\<lambda>_. 0)(0x48100000 := 9), m_uart = [], m_gic = []\<rparr>"

definition run_env :: env where
  "run_env = \<lparr>env_platform = small_platform, env_debug_log = True, env_counter = 0\<rparr>"

lemma run_store_inv: "kernel_inv run_store"
proof -
  have "tcb_priority (tcbs (boot_store frame_cap) t) = 0" for t
    by (simp add: boot_store_def set_slot_def blank_store_def store_init_def tcb_empty_def)
  then have "kernel_inv (boot_store frame_cap)"
    using boot_store_kinv boot_store_confined by (simp add: kernel_inv_def prios_ok_def NUM_PRIOS_def)
  then have "kernel_inv (set_tcb_state (ObjId 1) Running (boot_store frame_cap))"
    by (rule set_state_idle_inv)
       (simp_all add: boot_store_def set_slot_def blank_store_def store_init_def tcb_empty_def)
  then have "kernel_inv (set_tcb_cspace (ObjId 1) (Some (ObjId 2)) (set_tcb_state (ObjId 1) Running (boot_store frame_cap)))"
    unfolding set_tcb_cspace_def by (rule kernel_inv_tcb) simp_all
  then show ?thesis by (rule kernel_inv_frame) (simp_all add: run_store_def)
qed

lemma run_store_simps [simp]:
  "current run_store = Some (ObjId 1)" "tcb_state (tcbs run_store (ObjId 1)) = Running"
  "tcb_aspace (tcbs run_store (ObjId 1)) = None" "tcb_cspace (tcbs run_store (ObjId 1)) = Some (ObjId 2)"
  "cspaces run_store = (\<lambda>_. \<lparr>cspace_num_slots = 1, cspace_slot = (\<lambda>_. SlotId 1)\<rparr>)"
  "cap (slots run_store (SlotId 1)) = frame_cap"
  by (simp_all add: run_store_def boot_store_def set_slot_def blank_store_def store_init_def tcb_empty_def store_defs)

lemma run_machine_simps [simp]: "m_store run_machine = run_store" "m_frame run_machine = tf_zeroed"
  by (simp_all add: run_machine_def)

lemma run_slot: "cur_slot (ObjId 1) 0 run_store = Some (SlotId 1)" "cur_slot (ObjId 1) 1 run_store = None"
  by (simp_all add: cur_slot_def cspace_at_def)

lemma run_layout: "trap_layout v (ObjId 1) run_machine"
  by (simp add: trap_layout_def trapped_call_def tf_zeroed_def sys_decode_simps)



lemma run_frame_write:
  "\<exists>m'. execute run_env (ObjId 1) (SysFrameWrite 0 0 0x48100000 1) run_machine = Some (Some 0, m') \<and>
     m_mem m' 0x48000000 = 9"
proof -
  have "user_range_ok (ObjId 1) 0x48100000 1 run_store = Some True"
    by (simp add: user_range_ok_def USER_BASE_def USER_SIZE_def checked_add_def)
  moreover have "read_user (ObjId 1) 0x48100000 1 run_machine = [9]"
    by (simp add: read_user_def user_pa_def run_machine_def)
  moreover have "has_rights (rights frame_cap) WRITE"
    by (simp add: frame_cap_def has_rights_def RIGHTS_ALL_def WRITE_def)
  ultimately show ?thesis
    by (simp add: exec_frame_write_def run_slot frame_cap_def checked_add_def reply_def)
qed

theorem kernel_writes_confined_witness: "may_write (ObjId 1) run_store 0x48000000"
proof -
  obtain m' where m': "execute run_env (ObjId 1) (SysFrameWrite 0 0 0x48100000 1) run_machine = Some (Some 0, m')"
    "m_mem m' 0x48000000 = 9"
    using run_frame_write by blast
  have "m_mem m' 0x48000000 \<noteq> m_mem run_machine 0x48000000" using m'(2) by (simp add: run_machine_def)
  from kernel_writes_confined [OF m'(1) this] show ?thesis by simp
qed


end
