(* ===== verification/Freelist.thy ===== *)
theory Freelist
  imports Prelude
begin

text \<open>
  The extent allocator (\<open>freelist/src/lib.rs\<close>): an array of \<open>N\<close> extents (offset, length) of
  which the first \<open>nfree\<close> are live, sorted by offset, non-empty and non-adjacent. The two
  loops that shift the array are modelled as they are written; \<open>extents\<close> is the list view
  of the live part. \<open>usize\<close> values are natural numbers: under the invariant every sum the code
  forms is at most the pool length, so none of them wraps.

  The abstraction of a free list is the set of its free positions, \<open>free_set\<close>: \<open>alloc\<close> takes an
  aligned interval out of it, \<open>free\<close> puts one back, and \<open>is_allocated\<close> decides disjointness
  from it.
\<close>

section \<open>Operations\<close>

record freelist =
  fl_len :: nat
  fl_free :: "(nat \<times> nat) list"
  fl_nfree :: nat

function shift_down :: "nat \<Rightarrow> nat \<Rightarrow> 'a list \<Rightarrow> 'a list" where
  "shift_down j top' xs = (if j < top' then shift_down (Suc j) top' (xs[j := xs ! Suc j]) else xs)"
  by pat_completeness auto
termination by (relation "measure (\<lambda>(j, top', xs). top' - j)") auto

function shift_up :: "nat \<Rightarrow> nat \<Rightarrow> 'a list \<Rightarrow> 'a list" where
  "shift_up j g xs = (if g < j then shift_up (j - 1) g (xs[j := xs ! (j - 1)]) else xs)"
  by pat_completeness auto
termination by (relation "measure (\<lambda>(j, g, xs). j)") auto

declare shift_down.simps [simp del] shift_up.simps [simp del]

definition remove_at :: "nat \<Rightarrow> freelist \<Rightarrow> freelist" where
  "remove_at g f = f\<lparr>fl_free := shift_down g (fl_nfree f - 1) (fl_free f), fl_nfree := fl_nfree f - 1\<rparr>"

definition insert_at :: "nat \<Rightarrow> nat \<times> nat \<Rightarrow> freelist \<Rightarrow> freelist" where
  "insert_at g v f = f\<lparr>fl_free := (shift_up (fl_nfree f) g (fl_free f))[g := v], fl_nfree := fl_nfree f + 1\<rparr>"

definition fl_new :: "nat \<Rightarrow> nat \<Rightarrow> freelist" where
  "fl_new N len =
     (let free = replicate N (0, 0) in
      if len = 0 then \<lparr>fl_len = len, fl_free = free, fl_nfree = 0\<rparr>
      else \<lparr>fl_len = len, fl_free = free[0 := (0, len)], fl_nfree = 1\<rparr>)"

definition is_full :: "freelist \<Rightarrow> bool" where
  "is_full f \<longleftrightarrow> fl_nfree f = length (fl_free f)"

function is_allocated_loop :: "nat \<Rightarrow> nat \<Rightarrow> nat \<Rightarrow> freelist \<Rightarrow> bool" where
  "is_allocated_loop off n k f =
     (if k < fl_nfree f
      then let (o', l) = fl_free f ! k in
           if off < o' + l \<and> o' < off + n then False else is_allocated_loop off n (Suc k) f
      else True)"
  by pat_completeness auto
termination by (relation "measure (\<lambda>(off, n, k, f). fl_nfree f - k)") auto

definition is_allocated :: "nat \<Rightarrow> nat \<Rightarrow> freelist \<Rightarrow> bool" where
  "is_allocated off n f = is_allocated_loop off n 0 f"

function fl_alloc_loop :: "nat \<Rightarrow> nat \<Rightarrow> nat \<Rightarrow> freelist \<Rightarrow> nat option \<times> freelist" where
  "fl_alloc_loop n align i f =
     (if i < fl_nfree f
      then let (off, flen) = fl_free f ! i;
               r = off mod align;
               pad = (if r = 0 then 0 else align - r)
           in if flen < pad \<or> flen - pad < n then fl_alloc_loop n align (Suc i) f
              else let start = off + pad;
                       rest_off = start + n;
                       rest_len = flen - pad - n
                   in if pad = 0 \<and> rest_len = 0 then (Some start, remove_at i f)
                      else if 0 < pad \<and> rest_len = 0 then (Some start, f\<lparr>fl_free := (fl_free f)[i := (off, pad)]\<rparr>)
                      else if pad = 0 \<and> 0 < rest_len
                      then (Some start, f\<lparr>fl_free := (fl_free f)[i := (rest_off, rest_len)]\<rparr>)
                      else if fl_nfree f = length (fl_free f) then fl_alloc_loop n align (Suc i) f
                      else (Some start,
                            insert_at (i + 1) (rest_off, rest_len) (f\<lparr>fl_free := (fl_free f)[i := (off, pad)]\<rparr>))
      else (None, f))"
  by pat_completeness auto
termination by (relation "measure (\<lambda>(n, align, i, f). fl_nfree f - i)") auto

declare is_allocated_loop.simps [simp del] fl_alloc_loop.simps [simp del]

definition fl_alloc :: "nat \<Rightarrow> nat \<Rightarrow> freelist \<Rightarrow> nat option \<times> freelist" where
  "fl_alloc n align f = (if n = 0 then (None, f) else fl_alloc_loop n align 0 f)"

function fl_find :: "nat \<Rightarrow> nat \<Rightarrow> freelist \<Rightarrow> nat" where
  "fl_find off i f = (if i < fl_nfree f \<and> fst (fl_free f ! i) < off then fl_find off (Suc i) f else i)"
  by pat_completeness auto
termination by (relation "measure (\<lambda>(off, i, f). fl_nfree f - i)") auto

declare fl_find.simps [simp del]

definition fl_release :: "nat \<Rightarrow> nat \<Rightarrow> freelist \<Rightarrow> freelist" where
  "fl_release off n f =
     (let i = fl_find off 0 f;
          left = (0 < i \<and> fst (fl_free f ! (i - 1)) + snd (fl_free f ! (i - 1)) = off);
          right = (i < fl_nfree f \<and> fst (fl_free f ! i) = off + n)
      in if \<not> left \<and> \<not> right then insert_at i (off, n) f
         else if left \<and> \<not> right
         then f\<lparr>fl_free := (fl_free f)[i - 1 := (fst (fl_free f ! (i - 1)), snd (fl_free f ! (i - 1)) + n)]\<rparr>
         else if \<not> left \<and> right
         then f\<lparr>fl_free := (fl_free f)[i := (off, n + snd (fl_free f ! i))]\<rparr>
         else remove_at i (f\<lparr>fl_free := (fl_free f)[i - 1 :=
                (fst (fl_free f ! (i - 1)), snd (fl_free f ! (i - 1)) + n + snd (fl_free f ! i))]\<rparr>))"

section \<open>The list view\<close>

definition extents :: "freelist \<Rightarrow> (nat \<times> nat) list" where
  "extents f = take (fl_nfree f) (fl_free f)"

definition free_set :: "(nat \<times> nat) list \<Rightarrow> nat set" where
  "free_set xs = (\<Union>(o', l) \<in> set xs. {o' ..< o' + l})"

definition ext_wf :: "nat \<Rightarrow> (nat \<times> nat) list \<Rightarrow> bool" where
  "ext_wf len xs \<longleftrightarrow> sorted_wrt (\<lambda>(o', l) (o2, l2). o' + l < o2) xs \<and>
     list_all (\<lambda>(o', l). 0 < l \<and> o' + l \<le> len) xs"

definition fl_wf :: "freelist \<Rightarrow> bool" where
  "fl_wf f \<longleftrightarrow> fl_nfree f \<le> length (fl_free f) \<and> ext_wf (fl_len f) (extents f)"

lemma shift_down_nth:
  assumes "j \<le> top'" and "top' < length xs"
  shows "length (shift_down j top' xs) = length xs"
    and "i < length xs \<Longrightarrow> shift_down j top' xs ! i = (if j \<le> i \<and> i < top' then xs ! Suc i else xs ! i)"
proof -
  have "length (shift_down j top' xs) = length xs \<and>
      (\<forall>i < length xs. shift_down j top' xs ! i = (if j \<le> i \<and> i < top' then xs ! Suc i else xs ! i))"
    using assms
  proof (induction j top' xs rule: shift_down.induct)
    case (1 j top' xs)
    show ?case
    proof (cases "j < top'")
      case True
      then have IH: "length (shift_down (Suc j) top' (xs[j := xs ! Suc j])) = length xs \<and>
        (\<forall>i < length xs. shift_down (Suc j) top' (xs[j := xs ! Suc j]) ! i =
           (if Suc j \<le> i \<and> i < top' then xs[j := xs ! Suc j] ! Suc i else xs[j := xs ! Suc j] ! i))"
        using 1 by simp
      show ?thesis
        unfolding shift_down.simps [of j top' xs] using True IH by (auto simp: nth_list_update not_less_eq_eq dest: le_antisym)
    next
      case False
      then show ?thesis by (auto simp: shift_down.simps [of j top' xs])
    qed
  qed
  then show "length (shift_down j top' xs) = length xs"
    and "i < length xs \<Longrightarrow> shift_down j top' xs ! i = (if j \<le> i \<and> i < top' then xs ! Suc i else xs ! i)" by blast+
qed

lemma shift_up_nth:
  assumes "j < length xs"
  shows "length (shift_up j g xs) = length xs"
    and "i < length xs \<Longrightarrow> shift_up j g xs ! i = (if g < i \<and> i \<le> j then xs ! (i - 1) else xs ! i)"
proof -
  have "length (shift_up j g xs) = length xs \<and>
      (\<forall>i < length xs. shift_up j g xs ! i = (if g < i \<and> i \<le> j then xs ! (i - 1) else xs ! i))"
    using assms
  proof (induction j g xs rule: shift_up.induct)
    case (1 j g xs)
    show ?case
    proof (cases "g < j")
      case True
      then have IH: "length (shift_up (j - 1) g (xs[j := xs ! (j - 1)])) = length xs \<and>
        (\<forall>i < length xs. shift_up (j - 1) g (xs[j := xs ! (j - 1)]) ! i =
           (if g < i \<and> i \<le> j - 1 then xs[j := xs ! (j - 1)] ! (i - 1) else xs[j := xs ! (j - 1)] ! i))"
        using 1 by simp
      show ?thesis
        unfolding shift_up.simps [of j g xs] using True IH 1(2) by (auto simp: nth_list_update)
    next
      case False
      then show ?thesis by (auto simp: shift_up.simps [of j g xs])
    qed
  qed
  then show "length (shift_up j g xs) = length xs"
    and "i < length xs \<Longrightarrow> shift_up j g xs ! i = (if g < i \<and> i \<le> j then xs ! (i - 1) else xs ! i)" by blast+
qed

text \<open>The array operations on the list view.\<close>

lemma extents_length: "fl_nfree f \<le> length (fl_free f) \<Longrightarrow> length (extents f) = fl_nfree f"
  by (simp add: extents_def)

lemma extents_nth: "i < fl_nfree f \<Longrightarrow> extents f ! i = fl_free f ! i"
  by (simp add: extents_def)

lemma extents_remove_at:
  assumes "fl_nfree f \<le> length (fl_free f)" and "g < fl_nfree f"
  shows "extents (remove_at g f) = take g (extents f) @ drop (Suc g) (extents f)"
    and "length (fl_free (remove_at g f)) = length (fl_free f)" and "fl_len (remove_at g f) = fl_len f"
    and "fl_nfree (remove_at g f) = fl_nfree f - 1"
proof -
  have b: "g \<le> fl_nfree f - 1" "fl_nfree f - 1 < length (fl_free f)" using assms by auto
  note S = shift_down_nth [OF b]
  show "length (fl_free (remove_at g f)) = length (fl_free f)" "fl_len (remove_at g f) = fl_len f"
    "fl_nfree (remove_at g f) = fl_nfree f - 1"
    by (simp_all add: remove_at_def S(1) [simplified])
  show "extents (remove_at g f) = take g (extents f) @ drop (Suc g) (extents f)"
    by (rule nth_equalityI)
       (use assms S [simplified] in \<open>auto simp: extents_def remove_at_def nth_append min_absorb2\<close>)
qed

lemma extents_insert_at:
  assumes "fl_nfree f < length (fl_free f)" and "g \<le> fl_nfree f"
  shows "extents (insert_at g v f) = take g (extents f) @ v # drop g (extents f)"
    and "length (fl_free (insert_at g v f)) = length (fl_free f)" and "fl_len (insert_at g v f) = fl_len f"
    and "fl_nfree (insert_at g v f) = fl_nfree f + 1"
proof -
  note S = shift_up_nth [OF assms(1)]
  have m: "Suc (fl_nfree f) \<le> length (fl_free f)" using assms by simp
  show "length (fl_free (insert_at g v f)) = length (fl_free f)" "fl_len (insert_at g v f) = fl_len f"
    "fl_nfree (insert_at g v f) = fl_nfree f + 1"
    by (simp_all add: insert_at_def S(1))
  show "extents (insert_at g v f) = take g (extents f) @ v # drop g (extents f)"
    by (rule nth_equalityI)
       (use assms S m in \<open>auto simp: extents_def insert_at_def nth_append nth_list_update min_absorb2 nth_Cons'\<close>)
qed

lemma extents_update:
  "i < fl_nfree f \<Longrightarrow> fl_nfree f \<le> length (fl_free f) \<Longrightarrow>
   extents (f\<lparr>fl_free := (fl_free f)[i := v]\<rparr>) = take i (extents f) @ v # drop (Suc i) (extents f)"
  by (rule nth_equalityI) (auto simp: extents_def nth_append nth_Cons' nth_list_update min_absorb2)

section \<open>Splicing extents\<close>

lemma free_set_simps [simp]:
  "free_set [] = {}" "free_set ((o', l) # xs) = {o' ..< o' + l} \<union> free_set xs"
  "free_set (xs @ ys) = free_set xs \<union> free_set ys"
  by (auto simp: free_set_def)

lemma free_set_disjoint:
  "free_set xs \<inter> J = {} \<longleftrightarrow> (\<forall>(o', l) \<in> set xs. {o' ..< o' + l} \<inter> J = {})"
proof (induction xs)
  case (Cons x xs)
  obtain o' l where "x = (o', l)" by force
  then show ?case using Cons by (simp add: Int_Un_distrib2)
qed simp

lemma ext_wf_append:
  "ext_wf len (xs @ ys) \<longleftrightarrow> ext_wf len xs \<and> ext_wf len ys \<and>
     (\<forall>(o', l) \<in> set xs. \<forall>(o2, l2) \<in> set ys. o' + l < o2)"
  by (auto simp: ext_wf_def sorted_wrt_append)

lemma ext_wf_Cons:
  "ext_wf len ((o', l) # ys) \<longleftrightarrow> 0 < l \<and> o' + l \<le> len \<and> ext_wf len ys \<and> (\<forall>(o2, l2) \<in> set ys. o' + l < o2)"
  by (auto simp: ext_wf_def)

lemma ext_wf_Nil [simp]: "ext_wf len []" by (simp add: ext_wf_def)

lemma free_set_bound: "ext_wf len xs \<Longrightarrow> p \<in> free_set xs \<Longrightarrow> p < len"
  by (fastforce simp: free_set_def ext_wf_def list_all_iff)

lemma ext_split:
  assumes "i < length xs" and "xs ! i = (off, flen)"
  shows "xs = take i xs @ (off, flen) # drop (Suc i) xs"
  using id_take_nth_drop [OF assms(1)] assms(2) by simp

text \<open>Replacing one extent by pieces of it.\<close>

lemma ext_wf_replace:
  assumes "ext_wf len (A @ (off, flen) # B)" and "ext_wf len ps"
    and "\<forall>(o', l) \<in> set ps. off \<le> o' \<and> o' + l \<le> off + flen"
  shows "ext_wf len (A @ ps @ B)"
  using assms by (fastforce simp: ext_wf_append ext_wf_Cons)

lemma ext_apart:
  assumes "ext_wf len (A @ (off, flen) # B)"
  shows "free_set A \<inter> {off ..< off + flen} = {}" and "free_set B \<inter> {off ..< off + flen} = {}"
  using assms by (fastforce simp: ext_wf_append ext_wf_Cons free_set_def)+

section \<open>Allocation\<close>

definition fits :: "nat \<Rightarrow> nat \<Rightarrow> nat \<times> nat \<Rightarrow> bool" where
  "fits n align e \<longleftrightarrow> (\<exists>start. fst e \<le> start \<and> align dvd start \<and> start + n \<le> fst e + snd e)"

lemma pad_least:
  fixes off align :: nat
  assumes "0 < align"
  defines "pad \<equiv> if off mod align = 0 then 0 else align - off mod align"
  shows "align dvd off + pad" and "align dvd start \<Longrightarrow> off \<le> start \<Longrightarrow> off + pad \<le> start"
proof -
  show d: "align dvd off + pad"
  proof (cases "off mod align = 0")
    case False
    have "off + pad = off div align * align + align"
    proof -
      define q m where "q = off div align * align" and "m = off mod align"
      have "off = q + m" "m < align" using assms(1) by (simp_all add: q_def m_def)
      moreover have "pad = align - m" using False by (simp add: pad_def m_def)
      ultimately show ?thesis unfolding q_def [symmetric] by linarith
    qed
    then show ?thesis by simp
  qed (use assms in auto)
  show "off + pad \<le> start" if start: "align dvd start" "off \<le> start"
  proof (rule ccontr)
    assume "\<not> off + pad \<le> start"
    then have lt: "start < off + pad" by simp
    have "pad < align" using assms(1) by (simp add: pad_def)
    obtain a where a: "off + pad = align * a" using d by blast
    obtain b where b: "start = align * b" using start(1) by blast
    note ab = a b
    have "b < a" using lt assms(1) unfolding ab by simp
    then have "align * b + align \<le> align * a" by (metis Suc_leI mult_Suc_right add.commute mult_le_mono2)
    then show False using ab start(2) \<open>pad < align\<close> by linarith
  qed
qed

lemma fl_alloc_loop_ok:
  assumes "fl_wf f" and "0 < n" and "0 < align" and "fl_alloc_loop n align i f = (r, f')"
  shows "fl_wf f' \<and> fl_len f' = fl_len f \<and> length (fl_free f') = length (fl_free f) \<and>
    (case r of
       None \<Rightarrow> f' = f \<and>
         (\<forall>k. i \<le> k \<longrightarrow> k < fl_nfree f \<longrightarrow> fits n align (extents f ! k) \<longrightarrow> is_full f)
     | Some start \<Rightarrow> align dvd start \<and> {start ..< start + n} \<subseteq> free_set (extents f) \<and>
         free_set (extents f') = free_set (extents f) - {start ..< start + n})"
  using assms(4)
proof (induction "fl_nfree f - i" arbitrary: i rule: less_induct)
  case (less i)
  note wf = assms(1) [unfolded fl_wf_def]
  show ?case
  proof (cases "i < fl_nfree f")
    case False
    then have "r = None" "f' = f" using less.prems by (auto simp: fl_alloc_loop.simps [of n align i f])
    then show ?thesis using False assms(1) by auto
  next
    case True
    obtain off flen where e: "fl_free f ! i = (off, flen)" by force
    define pad where "pad = (if off mod align = 0 then 0 else align - off mod align)"
    define A B where "A = take i (extents f)" and "B = drop (Suc i) (extents f)"
    have len: "length (extents f) = fl_nfree f" using wf by (simp add: extents_length)
    have ei: "extents f ! i = (off, flen)" using e True by (simp add: extents_nth)
    have xs: "extents f = A @ (off, flen) # B"
      unfolding A_def B_def using ext_split [of i "extents f" off flen] True len ei by simp
    note W = conjunct2 [OF wf, unfolded xs]
    note P = pad_least(1) [OF assms(3), of off, folded pad_def] pad_least(2) [OF assms(3), where off = off, folded pad_def]
    have skip: ?thesis
      if rec: "fl_alloc_loop n align (Suc i) f = (r, f')" and nf: "\<not> is_full f \<longrightarrow> \<not> fits n align (off, flen)"
        and IH: "fl_wf f' \<and> fl_len f' = fl_len f \<and> length (fl_free f') = length (fl_free f) \<and>
          (case r of
             None \<Rightarrow> f' = f \<and>
               (\<forall>k. Suc i \<le> k \<longrightarrow> k < fl_nfree f \<longrightarrow> fits n align (extents f ! k) \<longrightarrow> is_full f)
           | Some start \<Rightarrow> align dvd start \<and> {start ..< start + n} \<subseteq> free_set (extents f) \<and>
               free_set (extents f') = free_set (extents f) - {start ..< start + n})"
    proof -
      have "fits n align (extents f ! k) \<longrightarrow> is_full f" if "i \<le> k" "k < fl_nfree f"
        "\<forall>k. Suc i \<le> k \<longrightarrow> k < fl_nfree f \<longrightarrow> fits n align (extents f ! k) \<longrightarrow> is_full f" for k
      proof (cases "k = i")
        case True
        then show ?thesis using nf ei by auto
      next
        case False
        then have "Suc i \<le> k" using that(1) by simp
        then show ?thesis using that(2,3) by blast
      qed
      then show ?thesis using IH by (auto split: option.splits)
    qed
    show ?thesis
    proof (cases "flen < pad \<or> flen - pad < n")
      case no: True
      have nf: "\<not> fits n align (off, flen)"
      proof
        assume "fits n align (off, flen)"
        then obtain start where s: "off \<le> start" "align dvd start" "start + n \<le> off + flen"
          by (auto simp: fits_def)
        then show False using P(2) [of start] no by linarith
      qed
      have rec: "fl_alloc_loop n align (Suc i) f = (r, f')"
        using less.prems True no by (simp add: fl_alloc_loop.simps [of n align i f] e pad_def Let_def)
      show ?thesis
        by (rule skip [OF rec]) (use nf less.hyps [OF _ rec] True in auto)
    next
      case fit: False
      let ?s = "off + pad" and ?rl = "flen - pad - n"
      have sub: "{?s ..< ?s + n} \<subseteq> {off ..< off + flen}" using fit by auto
      have place: ?thesis
        if r: "r = Some ?s" and E: "extents f' = A @ ps @ B" and ps: "ps = (if pad = 0 then [] else [(off, pad)]) @
            (if ?rl = 0 then [] else [(?s + n, ?rl)])"
          and fr: "fl_nfree f' \<le> length (fl_free f')" "fl_len f' = fl_len f" "length (fl_free f') = length (fl_free f)" for ps
      proof -
        have w: "ext_wf (fl_len f) ps"
          using W fit assms(2) unfolding ps by (auto simp: ext_wf_append ext_wf_Cons)
        have i: "\<forall>(o', l) \<in> set ps. off \<le> o' \<and> o' + l \<le> off + flen" using fit unfolding ps by auto
        have fs: "free_set ps = {off ..< off + flen} - {?s ..< ?s + n}" using fit unfolding ps by auto
        have "free_set (extents f') = free_set (extents f) - {?s ..< ?s + n}"
          using ext_apart [OF W] sub unfolding E xs by (auto simp: fs)
        moreover have "fl_wf f'" using ext_wf_replace [OF W w i] fr by (simp add: fl_wf_def E)
        moreover have "{?s ..< ?s + n} \<subseteq> free_set (extents f)" using sub unfolding xs by auto
        ultimately show ?thesis using r P(1) fr by simp
      qed
      have wl: "fl_nfree f \<le> length (fl_free f)" using wf by simp
      consider "pad = 0" "?rl = 0" | "0 < pad" "?rl = 0" | "pad = 0" "0 < ?rl"
        | "0 < pad" "0 < ?rl" "fl_nfree f = length (fl_free f)" | "0 < pad" "0 < ?rl" "fl_nfree f \<noteq> length (fl_free f)"
        by linarith
      then show ?thesis
      proof cases
        case c: 1
        then have "r = Some ?s" "f' = remove_at i f"
          using less.prems True fit by (auto simp: fl_alloc_loop.simps [of n align i f] e pad_def Let_def)
        then show ?thesis
          by (intro place [of "[]"]) (use c wl extents_remove_at [OF wl True] in \<open>auto simp: A_def B_def\<close>)
      next
        case c: 2
        then have "r = Some ?s" "f' = f\<lparr>fl_free := (fl_free f)[i := (off, pad)]\<rparr>"
          using less.prems True fit by (auto simp: fl_alloc_loop.simps [of n align i f] e pad_def Let_def split: if_splits)
        then show ?thesis
          by (intro place [of "[(off, pad)]"]) (use c wl extents_update [OF True wl] in \<open>auto simp: A_def B_def\<close>)
      next
        case c: 3
        then have "r = Some ?s" "f' = f\<lparr>fl_free := (fl_free f)[i := (?s + n, ?rl)]\<rparr>"
          using less.prems True fit by (auto simp: fl_alloc_loop.simps [of n align i f] e pad_def Let_def split: if_splits)
        then show ?thesis
          by (intro place [of "[(?s + n, ?rl)]"]) (use c wl extents_update [OF True wl] in \<open>auto simp: A_def B_def\<close>)
      next
        case c: 4
        have rec: "fl_alloc_loop n align (Suc i) f = (r, f')"
          using less.prems True fit c by (auto simp: fl_alloc_loop.simps [of n align i f] e pad_def Let_def split: if_splits)
        show ?thesis
          by (rule skip [OF rec])
             (use c less.hyps [OF _ rec] True in \<open>auto simp: is_full_def\<close>)
      next
        case c: 5
        let ?f = "f\<lparr>fl_free := (fl_free f)[i := (off, pad)]\<rparr>"
        have "r = Some ?s" "f' = insert_at (i + 1) (?s + n, ?rl) ?f"
          using less.prems True fit c by (auto simp: fl_alloc_loop.simps [of n align i f] e pad_def Let_def split: if_splits)
        moreover have "extents ?f = A @ (off, pad) # B" using extents_update [OF True wl] by (simp add: A_def B_def)
        moreover have "length A = i" using True len by (simp add: A_def)
        moreover have "fl_nfree ?f < length (fl_free ?f)" "i + 1 \<le> fl_nfree ?f" using c wl True by auto
        ultimately show ?thesis
          using extents_insert_at [of ?f "i + 1" "(?s + n, ?rl)"] c wl
          by (intro place [of "[(off, pad), (?s + n, ?rl)]"]) auto
      qed
    qed
  qed
qed

lemma fl_alloc_ok:
  assumes "fl_wf f" and "0 < align" and "fl_alloc n align f = (r, f')"
  shows "fl_wf f'" and "fl_len f' = fl_len f" and "length (fl_free f') = length (fl_free f)"
    and "r = Some start \<Longrightarrow> 0 < n \<and> align dvd start \<and> {start ..< start + n} \<subseteq> free_set (extents f) \<and>
      free_set (extents f') = free_set (extents f) - {start ..< start + n}"
    and "r = None \<Longrightarrow> f' = f \<and> (n = 0 \<or> is_full f \<or> (\<forall>e \<in> set (extents f). \<not> fits n align e))"
proof -
  have *: "fl_wf f' \<and> fl_len f' = fl_len f \<and> length (fl_free f') = length (fl_free f) \<and>
    (case r of
       None \<Rightarrow> f' = f \<and> (n = 0 \<or> is_full f \<or> (\<forall>e \<in> set (extents f). \<not> fits n align e))
     | Some start \<Rightarrow> 0 < n \<and> align dvd start \<and> {start ..< start + n} \<subseteq> free_set (extents f) \<and>
         free_set (extents f') = free_set (extents f) - {start ..< start + n})"
  proof (cases "n = 0")
    case True
    then have "r = None" "f' = f" using assms(3) by (auto simp: fl_alloc_def)
    then show ?thesis using assms(1) True by simp
  next
    case False
    then have run: "fl_alloc_loop n align 0 f = (r, f')" using assms(3) by (simp add: fl_alloc_def)
    have len: "length (extents f) = fl_nfree f" using assms(1) by (simp add: fl_wf_def extents_length)
    have "is_full f \<or> (\<forall>e \<in> set (extents f). \<not> fits n align e)"
      if "\<forall>k. 0 \<le> k \<longrightarrow> k < fl_nfree f \<longrightarrow> fits n align (extents f ! k) \<longrightarrow> is_full f"
      using that len by (metis in_set_conv_nth le0)
    then show ?thesis
      using fl_alloc_loop_ok [OF assms(1) _ assms(2) run] False by (auto split: option.splits)
  qed
  then show "fl_wf f'" "fl_len f' = fl_len f" "length (fl_free f') = length (fl_free f)" by blast+
  show "r = Some start \<Longrightarrow> 0 < n \<and> align dvd start \<and> {start ..< start + n} \<subseteq> free_set (extents f) \<and>
      free_set (extents f') = free_set (extents f) - {start ..< start + n}" using * by simp
  show "r = None \<Longrightarrow> f' = f \<and> (n = 0 \<or> is_full f \<or> (\<forall>e \<in> set (extents f). \<not> fits n align e))" using * by simp
qed

section \<open>The query and the return\<close>

lemma is_allocated_iff:
  assumes "fl_wf f" and "0 < n"
  shows "is_allocated off n f \<longleftrightarrow> free_set (extents f) \<inter> {off ..< off + n} = {}"
proof -
  have loop: "is_allocated_loop off n k f \<longleftrightarrow>
      (\<forall>j. k \<le> j \<longrightarrow> j < fl_nfree f \<longrightarrow> (case extents f ! j of (o', l) \<Rightarrow> \<not> (off < o' + l \<and> o' < off + n)))" for k
  proof (induction "fl_nfree f - k" arbitrary: k rule: less_induct)
    case less
    show ?case
    proof (cases "k < fl_nfree f")
      case True
      have "(\<forall>j. k \<le> j \<longrightarrow> P j) \<longleftrightarrow> P k \<and> (\<forall>j. Suc k \<le> j \<longrightarrow> P j)" for P :: "nat \<Rightarrow> bool"
        by (metis Suc_leD Suc_leI le_neq_implies_less order_refl)
      then show ?thesis
        using True less [of "Suc k"] extents_nth [OF True]
        by (subst is_allocated_loop.simps) (auto split: prod.splits)
    qed (subst is_allocated_loop.simps, simp)
  qed
  have len: "length (extents f) = fl_nfree f" using assms(1) by (simp add: fl_wf_def extents_length)
  have "is_allocated off n f \<longleftrightarrow> (\<forall>(o', l) \<in> set (extents f). \<not> (off < o' + l \<and> o' < off + n))"
    unfolding is_allocated_def loop all_set_conv_all_nth len by auto
  also have "\<dots> \<longleftrightarrow> (\<forall>(o', l) \<in> set (extents f). {o' ..< o' + l} \<inter> {off ..< off + n} = {})"
  proof (rule ball_cong [OF refl])
    fix x assume x: "x \<in> set (extents f)"
    obtain o' l where xe: "x = (o', l)" by force
    have "0 < l" using x xe assms(1) by (auto simp: fl_wf_def ext_wf_def list_all_iff)
    then have "(off < o' + l \<and> o' < off + n) \<longleftrightarrow> max o' off \<in> {o' ..< o' + l} \<inter> {off ..< off + n}"
      using assms(2) by auto
    then show "(case x of (o', l) \<Rightarrow> \<not> (off < o' + l \<and> o' < off + n)) =
        (case x of (o', l) \<Rightarrow> {o' ..< o' + l} \<inter> {off ..< off + n} = {})"
      unfolding xe by auto
  qed
  also have "\<dots> \<longleftrightarrow> free_set (extents f) \<inter> {off ..< off + n} = {}"
    unfolding free_set_disjoint ..
  finally show ?thesis .
qed

lemma fl_find_ok:
  assumes "i \<le> fl_nfree f"
  shows "i \<le> fl_find off i f \<and> fl_find off i f \<le> fl_nfree f \<and>
    (\<forall>k. i \<le> k \<longrightarrow> k < fl_find off i f \<longrightarrow> fst (fl_free f ! k) < off) \<and>
    (fl_find off i f < fl_nfree f \<longrightarrow> off \<le> fst (fl_free f ! fl_find off i f))"
  using assms
proof (induction "fl_nfree f - i" arbitrary: i rule: less_induct)
  case less
  show ?case
  proof (cases "i < fl_nfree f \<and> fst (fl_free f ! i) < off")
    case True
    then have r: "fl_find off i f = fl_find off (Suc i) f" by (subst fl_find.simps) simp
    have IH: "Suc i \<le> fl_find off (Suc i) f \<and> fl_find off (Suc i) f \<le> fl_nfree f \<and>
      (\<forall>k. Suc i \<le> k \<longrightarrow> k < fl_find off (Suc i) f \<longrightarrow> fst (fl_free f ! k) < off) \<and>
      (fl_find off (Suc i) f < fl_nfree f \<longrightarrow> off \<le> fst (fl_free f ! fl_find off (Suc i) f))"
      by (rule less.hyps) (use True in auto)
    have "fst (fl_free f ! k) < off" if "i \<le> k" "k < fl_find off (Suc i) f" for k
      using IH that True by (cases "k = i") auto
    then show ?thesis using IH unfolding r by auto
  next
    case False
    then have "fl_find off i f = i" by (subst fl_find.simps) auto
    then show ?thesis using False less.prems by auto
  qed
qed

lemma fl_release_ok:
  assumes wf: "fl_wf f" and room: "\<not> is_full f" and n: "0 < n" "off + n \<le> fl_len f"
    and out: "free_set (extents f) \<inter> {off ..< off + n} = {}"
  shows "fl_wf (fl_release off n f)" and "fl_len (fl_release off n f) = fl_len f"
    and "length (fl_free (fl_release off n f)) = length (fl_free f)"
    and "free_set (extents (fl_release off n f)) = free_set (extents f) \<union> {off ..< off + n}"
proof -
  define i where "i = fl_find off 0 f"
  define A B where "A = take i (extents f)" and "B = drop i (extents f)"
  have wl: "fl_nfree f \<le> length (fl_free f)" and W: "ext_wf (fl_len f) (extents f)" using wf by (auto simp: fl_wf_def)
  have lt: "fl_nfree f < length (fl_free f)" using wl room by (simp add: is_full_def)
  have len: "length (extents f) = fl_nfree f" using wl by (simp add: extents_length)
  have i: "i \<le> fl_nfree f" "\<forall>k < i. fst (fl_free f ! k) < off" "i < fl_nfree f \<longrightarrow> off \<le> fst (fl_free f ! i)"
    using fl_find_ok [of 0 f off] by (simp_all add: i_def)
  have xs: "extents f = A @ B" by (simp add: A_def B_def)
  have WA: "ext_wf (fl_len f) A" "ext_wf (fl_len f) B" "\<forall>(o', l) \<in> set A. \<forall>(o2, l2) \<in> set B. o' + l < o2"
    using W unfolding xs ext_wf_append by auto
  have pos: "0 < l" if "(o', l) \<in> set (A @ B)" for o' l
    using W that unfolding xs [symmetric] by (auto simp: ext_wf_def list_all_iff)
  have out1: "\<not> (o' < off + n \<and> off < o' + l)" if "(o', l) \<in> set (A @ B)" for o' l
  proof
    assume "o' < off + n \<and> off < o' + l"
    then have "max o' off \<in> {o' ..< o' + l} \<inter> {off ..< off + n}" using pos [OF that] n by auto
    then show False using out that unfolding xs free_set_def by blast
  qed
  have below: "o' + l \<le> off" if mem: "(o', l) \<in> set A" for o' l
  proof -
    obtain k where k: "k < i" "fl_free f ! k = (o', l)"
      using mem i(1) len by (auto simp: A_def in_set_conv_nth extents_nth)
    then have "o' < off" using i(2) by force
    then show ?thesis using out1 [of o' l] mem n(1) by auto
  qed
  have above: "off + n \<le> o2" if mem: "(o2, l2) \<in> set B" for o2 l2
  proof -
    have "B \<noteq> []" using mem by auto
    then have il: "i < fl_nfree f" using len by (simp add: B_def)
    obtain o3 l3 where e: "fl_free f ! i = (o3, l3)" by force
    have B: "B = (o3, l3) # drop (Suc i) (extents f)"
      using il len e by (simp add: B_def Cons_nth_drop_Suc [symmetric] extents_nth)
    have "off \<le> o3" using i(3) il e by simp
    moreover have "o3 \<le> o2" using WA(2) mem unfolding B ext_wf_Cons by auto
    moreover have "(o2, l2) \<in> set (A @ B)" using mem by simp
    ultimately show ?thesis using out1 [of o2 l2] pos [of o2 l2] n(1) by linarith
  qed
  let ?left = "0 < i \<and> fst (fl_free f ! (i - 1)) + snd (fl_free f ! (i - 1)) = off"
  let ?right = "i < fl_nfree f \<and> fst (fl_free f ! i) = off + n"
  define A0 B0 where "A0 = take (i - 1) (extents f)" and "B0 = drop (Suc i) (extents f)"
  have Alast: "A = A0 @ [fl_free f ! (i - 1)]" if "0 < i"
    using that i(1) len take_Suc_conv_app_nth [of "i - 1" "extents f"] by (simp add: A_def A0_def extents_nth)
  have Bfirst: "B = fl_free f ! i # B0" if "i < fl_nfree f"
    using that len by (simp add: B_def B0_def Cons_nth_drop_Suc [symmetric] extents_nth)
  have sA: "o' + l < off" if "\<not> ?left" "(o', l) \<in> set A" for o' l
  proof -
    have "0 < i" using that(2) by (cases i) (auto simp: A_def)
    obtain ol ll where last: "fl_free f ! (i - 1) = (ol, ll)" by force
    have A: "A = A0 @ [(ol, ll)]" using Alast [OF \<open>0 < i\<close>] last by simp
    have "ol + ll \<le> off" by (rule below) (simp add: A)
    then have "ol + ll < off" using that(1) last \<open>0 < i\<close> by simp
    moreover have "(o', l) = (ol, ll) \<or> o' + l < ol" using WA(1) that(2) unfolding A ext_wf_append by auto
    ultimately show ?thesis using below [OF that(2)] by auto
  qed
  have sB: "off + n < o2" if "\<not> ?right" "(o2, l2) \<in> set B" for o2 l2
  proof -
    have "B \<noteq> []" using that(2) by auto
    then have "i < fl_nfree f" using len by (simp add: B_def)
    obtain of' lf where first: "fl_free f ! i = (of', lf)" by force
    have B: "B = (of', lf) # B0" using Bfirst [OF \<open>i < fl_nfree f\<close>] first by simp
    have "off + n \<le> of'" by (rule above [of _ lf]) (simp add: B)
    then have "off + n < of'" using that(1) first \<open>i < fl_nfree f\<close> by simp
    moreover have "(o2, l2) = (of', lf) \<or> of' + lf < o2" using WA(2) that(2) unfolding B ext_wf_Cons by auto
    ultimately show ?thesis by auto
  qed
  have "fl_wf (fl_release off n f) \<and> fl_len (fl_release off n f) = fl_len f \<and>
    length (fl_free (fl_release off n f)) = length (fl_free f) \<and>
    free_set (extents (fl_release off n f)) = free_set (extents f) \<union> {off ..< off + n}"
  proof (cases ?left; cases ?right)
    assume c: "\<not> ?left" "\<not> ?right"
    have r: "fl_release off n f = insert_at i (off, n) f"
      using c unfolding fl_release_def i_def [symmetric] Let_def by auto
    note E = extents_insert_at [OF lt i(1), of "(off, n)", folded A_def B_def]
    have "ext_wf (fl_len f) (A @ (off, n) # B)"
      unfolding ext_wf_append ext_wf_Cons using WA sA [OF c(1)] sB [OF c(2)] n by auto
    then show ?thesis unfolding r fl_wf_def E xs using lt by auto
  next
    assume c: "?left" "\<not> ?right"
    obtain ol ll where last: "fl_free f ! (i - 1) = (ol, ll)" by force
    have A: "A = A0 @ [(ol, ll)]" using Alast c last by simp
    have r: "fl_release off n f = f\<lparr>fl_free := (fl_free f)[i - 1 := (ol, ll + n)]\<rparr>"
      using c last unfolding fl_release_def i_def [symmetric] Let_def by auto
    have i1: "i - 1 < fl_nfree f" "Suc (i - 1) = i" using c i(1) by auto
    note E = extents_update [OF i1(1) wl, of "(ol, ll + n)", unfolded i1(2), folded B_def A0_def]
    have "ext_wf (fl_len f) (A0 @ (ol, ll + n) # B)"
      using WA sB [OF c(2)] n c(1) last unfolding A ext_wf_append ext_wf_Cons by (auto simp: add.assoc [symmetric])
    then show ?thesis unfolding r fl_wf_def E xs using wl c(1) last by (auto simp: A)
  next
    assume c: "\<not> ?left" "?right"
    obtain of' lf where first: "fl_free f ! i = (of', lf)" by force
    have B: "B = (of', lf) # B0" using Bfirst c first by simp
    have r: "fl_release off n f = f\<lparr>fl_free := (fl_free f)[i := (off, n + lf)]\<rparr>"
      using c first unfolding fl_release_def i_def [symmetric] Let_def by auto
    have i1: "i < fl_nfree f" using c by simp
    note E = extents_update [OF i1 wl, of "(off, n + lf)", folded A_def B0_def]
    have "ext_wf (fl_len f) (A @ (off, n + lf) # B0)"
      using WA sA [OF c(1)] n c(2) first unfolding B ext_wf_append ext_wf_Cons by (auto simp: add.assoc [symmetric])
    then show ?thesis unfolding r fl_wf_def E xs using wl c(2) first by (auto simp: B)
  next
    assume c: "?left" "?right"
    obtain ol ll where last: "fl_free f ! (i - 1) = (ol, ll)" by force
    have A: "A = A0 @ [(ol, ll)]" using Alast c last by simp
    obtain of' lf where first: "fl_free f ! i = (of', lf)" by force
    have B: "B = (of', lf) # B0" using Bfirst c first by simp
    let ?f = "f\<lparr>fl_free := (fl_free f)[i - 1 := (ol, ll + n + lf)]\<rparr>"
    have r: "fl_release off n f = remove_at i ?f"
      using c first last unfolding fl_release_def i_def [symmetric] Let_def by auto
    have i1: "i - 1 < fl_nfree f" "Suc (i - 1) = i" "i < fl_nfree f" using c by auto
    note E1 = extents_update [OF i1(1) wl, of "(ol, ll + n + lf)", unfolded i1(2), folded B_def A0_def]
    have l: "fl_nfree ?f \<le> length (fl_free ?f)" "i < fl_nfree ?f" using wl i1 by auto
    have "length A0 = i - 1" using i1 len by (simp add: A0_def)
    then have E: "extents (remove_at i ?f) = A0 @ (ol, ll + n + lf) # B0"
      using extents_remove_at(1) [OF l] i1(2) unfolding E1 by (simp add: B)
    have "ext_wf (fl_len f) (A0 @ (ol, ll + n + lf) # B0)"
      using WA n c last first unfolding A B ext_wf_append ext_wf_Cons by (auto simp: add.assoc [symmetric])
    then show ?thesis
      unfolding r fl_wf_def E xs using extents_remove_at(2-4) [OF l] wl c first last by (auto simp: A B)
  qed
  then show "fl_wf (fl_release off n f)" "fl_len (fl_release off n f) = fl_len f"
    "length (fl_free (fl_release off n f)) = length (fl_free f)"
    "free_set (extents (fl_release off n f)) = free_set (extents f) \<union> {off ..< off + n}" by blast+
qed

lemma fl_new_ok:
  assumes "0 < N"
  shows "fl_wf (fl_new N len)" and "fl_len (fl_new N len) = len" and "length (fl_free (fl_new N len)) = N"
    and "free_set (extents (fl_new N len)) = {..< len}"
proof -
  obtain M where N: "N = Suc M" using assms by (cases N) auto
  have e: "extents (fl_new N len) = (if len = 0 then [] else [(0, len)])"
    by (simp add: fl_new_def extents_def Let_def N)
  show l: "fl_len (fl_new N len) = len" "length (fl_free (fl_new N len)) = N" by (simp_all add: fl_new_def Let_def)
  show "fl_wf (fl_new N len)" unfolding fl_wf_def e l by (simp add: ext_wf_Cons fl_new_def Let_def N)
  show "free_set (extents (fl_new N len)) = {..< len}" unfolding e by auto
qed

section \<open>The contract\<close>

text \<open>
  What a client may rely on. \<open>free\<close> is the set of free positions below \<open>limit\<close>. A client that
  records the intervals it holds keeps a \<open>ledger\<close>: they are disjoint, and together with the
  free positions they make up the whole range. The ledger is kept by both operations.
\<close>

definition span_of :: "nat \<times> nat \<Rightarrow> nat set" where
  "span_of e = {fst e ..< fst e + snd e}"

definition spans :: "(nat \<times> nat) list \<Rightarrow> nat set" where
  "spans es = (\<Union>e \<in> set es. span_of e)"

definition apart :: "nat \<times> nat \<Rightarrow> nat \<times> nat \<Rightarrow> bool" where
  "apart e e' \<longleftrightarrow> span_of e \<inter> span_of e' = {}"

lemma spans_simps [simp]:
  "spans [] = {}" "spans (e # es) = span_of e \<union> spans es" "spans (xs @ ys) = spans xs \<union> spans ys"
  by (auto simp: spans_def)

lemma apart_spans: "(\<forall>e' \<in> set es. apart e e') \<longleftrightarrow> span_of e \<inter> spans es = {}"
  by (auto simp: apart_def spans_def)

locale extent_allocator =
  fixes invar :: "'f \<Rightarrow> bool"
    and limit :: "'f \<Rightarrow> nat"
    and free :: "'f \<Rightarrow> nat set"
    and full :: "'f \<Rightarrow> bool"
    and alloc :: "nat \<Rightarrow> nat \<Rightarrow> 'f \<Rightarrow> nat option \<times> 'f"
    and release :: "nat \<Rightarrow> nat \<Rightarrow> 'f \<Rightarrow> 'f"
  assumes free_limit: "invar f \<Longrightarrow> free f \<subseteq> {..< limit f}"
    and alloc_law: "invar f \<Longrightarrow> 0 < align \<Longrightarrow> alloc n align f = (r, f') \<Longrightarrow>
      invar f' \<and> limit f' = limit f \<and>
      (case r of None \<Rightarrow> free f' = free f
       | Some start \<Rightarrow> 0 < n \<and> align dvd start \<and> span_of (start, n) \<subseteq> free f \<and> free f' = free f - span_of (start, n))"
    and release_law: "invar f \<Longrightarrow> \<not> full f \<Longrightarrow> 0 < n \<Longrightarrow> off + n \<le> limit f \<Longrightarrow> free f \<inter> span_of (off, n) = {} \<Longrightarrow>
      invar (release off n f) \<and> limit (release off n f) = limit f \<and>
      free (release off n f) = free f \<union> span_of (off, n)"
begin

definition ledger :: "'f \<Rightarrow> (nat \<times> nat) list \<Rightarrow> bool" where
  "ledger f live \<longleftrightarrow> invar f \<and> sorted_wrt apart live \<and> (\<forall>e \<in> set live. 0 < snd e) \<and>
     free f \<inter> spans live = {} \<and> free f \<union> spans live = {..< limit f}"

lemma ledger_alloc:
  assumes "ledger f live" and "0 < align" and "alloc n align f = (r, f')"
  shows "case r of None \<Rightarrow> ledger f' live | Some start \<Rightarrow> ledger f' ((start, n) # live) \<and> align dvd start"
proof -
  note L = assms(1) [unfolded ledger_def]
  have A: "invar f' \<and> limit f' = limit f \<and>
      (case r of None \<Rightarrow> free f' = free f
       | Some start \<Rightarrow> 0 < n \<and> align dvd start \<and> span_of (start, n) \<subseteq> free f \<and> free f' = free f - span_of (start, n))"
    by (rule alloc_law [OF _ assms(2,3)]) (use L in blast)
  show ?thesis
  proof (cases r)
    case None
    then show ?thesis using A L by (simp add: ledger_def)
  next
    case (Some start)
    have "span_of (start, n) \<inter> spans live = {}" using A L Some by auto
    then have "sorted_wrt apart ((start, n) # live)" using L by (simp add: apart_spans)
    then show ?thesis using A L Some unfolding ledger_def by auto
  qed
qed

lemma ledger_release:
  assumes "ledger f (L1 @ (off, n) # L2)" and "\<not> full f"
  shows "ledger (release off n f) (L1 @ L2)"
proof -
  note L = assms(1) [unfolded ledger_def]
  have e: "0 < n" using L by simp
  have "off + n - 1 \<in> {..< limit f}" using L e by (auto simp: span_of_def)
  then have lim: "off + n \<le> limit f" using e by simp
  have R: "invar (release off n f) \<and> limit (release off n f) = limit f \<and>
      free (release off n f) = free f \<union> span_of (off, n)"
    by (rule release_law) (use L assms(2) e lim in auto)
  have "span_of (off, n) \<inter> spans (L1 @ L2) = {}"
    using L by (fastforce simp: sorted_wrt_append apart_def spans_def)
  then show ?thesis
    using L R unfolding ledger_def by (auto simp: sorted_wrt_append)
qed

end

interpretation fl: extent_allocator fl_wf fl_len "\<lambda>f. free_set (extents f)" is_full fl_alloc fl_release
proof
  show "fl_wf f \<Longrightarrow> free_set (extents f) \<subseteq> {..< fl_len f}" for f
    using free_set_bound by (auto simp: fl_wf_def)
next
  fix f align n r f'
  assume a: "fl_wf f" "0 < (align :: nat)" "fl_alloc n align f = (r, f')"
  show "fl_wf f' \<and> fl_len f' = fl_len f \<and>
      (case r of None \<Rightarrow> free_set (extents f') = free_set (extents f)
       | Some start \<Rightarrow> 0 < n \<and> align dvd start \<and> span_of (start, n) \<subseteq> free_set (extents f) \<and>
           free_set (extents f') = free_set (extents f) - span_of (start, n))"
    using fl_alloc_ok [OF a] by (cases r) (auto simp: span_of_def)
next
  fix f :: freelist and n off
  assume "fl_wf f" "\<not> is_full f" "0 < n" "off + n \<le> fl_len f" "free_set (extents f) \<inter> span_of (off, n) = {}"
  then show "fl_wf (fl_release off n f) \<and> fl_len (fl_release off n f) = fl_len f \<and>
      free_set (extents (fl_release off n f)) = free_set (extents f) \<union> span_of (off, n)"
    using fl_release_ok by (simp add: span_of_def)
qed

text \<open>
  C25: allocation. On a well-formed free list, \<open>alloc\<close> returns an aligned interval of the
  requested length all of whose positions were free, and makes exactly these positions
  used; it refuses only an empty request, or when no free extent has room for the aligned
  interval, or when the array of extents is full. The list stays well formed.
\<close>

theorem fl_alloc_sound:
  assumes "fl_wf f" and "0 < align"
  shows "case fl_alloc n align f of (r, f') \<Rightarrow> fl_wf f' \<and> fl_len f' = fl_len f \<and>
    (case r of
       None \<Rightarrow> f' = f \<and> (n = 0 \<or> is_full f \<or> (\<forall>e \<in> set (extents f). \<not> fits n align e))
     | Some start \<Rightarrow> align dvd start \<and> start + n \<le> fl_len f \<and> {start ..< start + n} \<subseteq> free_set (extents f) \<and>
         free_set (extents f') = free_set (extents f) - {start ..< start + n})"
proof -
  obtain r f' where run: "fl_alloc n align f = (r, f')" by force
  note A = fl_alloc_ok [OF assms run]
  show ?thesis
  proof (cases r)
    case (Some start)
    have "start + n - 1 \<in> free_set (extents f)" using A(4) [OF Some] by auto
    then have "start + n \<le> fl_len f" using fl.free_limit [OF assms(1)] A(4) [OF Some] by auto
    then show ?thesis using A Some run by simp
  qed (use A run in simp)
qed

text \<open>
  C26: returning. Returning an interval that is entirely used puts exactly its positions
  back, whichever of its neighbours it merges with, and keeps the list sorted, merged and
  within bounds.
\<close>

theorem fl_release_sound:
  assumes "fl_wf f" and "\<not> is_full f" and "0 < n" and "off + n \<le> fl_len f" and "is_allocated off n f"
  shows "fl_wf (fl_release off n f) \<and> fl_len (fl_release off n f) = fl_len f \<and>
    free_set (extents (fl_release off n f)) = free_set (extents f) \<union> {off ..< off + n} \<and>
    \<not> is_allocated off n (fl_release off n f)"
proof -
  have out: "free_set (extents f) \<inter> {off ..< off + n} = {}"
    using is_allocated_iff [OF assms(1,3)] assms(5) by blast
  note R = fl_release_ok [OF assms(1-4) out]
  have "\<not> is_allocated off n (fl_release off n f)"
    unfolding is_allocated_iff [OF R(1) assms(3)] R(4) using assms(3) by auto
  then show ?thesis using R by blast
qed

text \<open>The witnesses: a pool of 128 positions.\<close>

theorem fl_alloc_sound_witness:
  "\<exists>start f'. fl_alloc 16 8 (fl_new 64 128) = (Some start, f') \<and> 8 dvd start \<and> fl_wf f'"
proof -
  have "fst (fl_alloc 16 8 (fl_new 64 128)) = Some 0" by code_simp
  then show ?thesis
    using fl_alloc_sound [where f = "fl_new 64 128" and n = 16 and align = 8] fl_new_ok(1) [of 64 128]
    by (cases "fl_alloc 16 8 (fl_new 64 128)") auto
qed

theorem fl_release_sound_witness:
  "fl_wf (fl_release 0 16 (snd (fl_alloc 16 8 (fl_new 64 128))))"
proof -
  let ?f = "snd (fl_alloc 16 8 (fl_new 64 128))"
  have w: "fl_wf ?f" "fl_len ?f = 128"
    using fl_alloc_ok(1,2) [where f = "fl_new 64 128" and n = 16 and align = 8, OF _ _ surjective_pairing]
      fl_new_ok [of 64 128] by simp_all
  have "\<not> is_full ?f" "is_allocated 0 16 ?f" by code_simp+
  then show ?thesis using fl_release_sound [OF w(1), of 16 0] w(2) by simp
qed

end
