(* ===== verification/Dmapool.thy ===== *)
theory Dmapool
  imports Freelist
begin

text \<open>
  The pool of memory shared with a device (\<open>src/dma-pool/src/lib.rs\<close>).

  \<^item> A pool is the backing memory, the address under which the device sees its byte 0, and the
    free list. The bytes of the backing are the list \<^term>\<open>dp_mem\<close>; the pointer \<open>range_ptr\<close>
    returns is an index into it.
  \<^item> Every \<open>assert!\<close>, \<open>expect\<close> and slice index that can fail is a \<open>dma_panic\<close> value. A \<open>usize\<close> is
    a natural number below \<open>2 ^ 64\<close>, and \<^term>\<open>usize_add\<close> is its \<open>checked_add\<close>.
  \<^item> The alignment's \<open>debug_assert!\<close> on powers of two is absent from a release build and from the
    model.

  The step relation \<open>pool_step\<close> is a driver that allocates, writes and frees buffers in any order,
  and keeps the contents it expects of each live buffer. The invariant shows that the pool never
  hands out overlapping memory and that a write to one buffer is never seen in another.
\<close>

section \<open>The code\<close>

record dma_buf =
  buf_offset :: nat
  buf_len :: nat
  buf_device_addr :: u64

record dma_pool =
  dp_mem :: "u8 list"
  dp_device_base :: u64
  dp_fl :: freelist

datatype dma_panic =
    ZeroAlignment
  | ZeroLengthBuffer
  | FragmentationCap
  | OutsideArena
  | DoubleFree
  | SubRangeOverflow
  | SubRangeOutside
  | BufferRangeOverflow
  | SliceIndex

definition MAX_FREE_RANGES :: nat where
  "MAX_FREE_RANGES = 64"

definition usize_add :: "nat \<Rightarrow> nat \<Rightarrow> nat option" where
  "usize_add a b = (if a + b < 2 ^ 64 then Some (a + b) else None)"

definition dma_new :: "u8 list \<Rightarrow> u64 \<Rightarrow> dma_pool" where
  "dma_new backing base =
     \<lparr>dp_mem = backing, dp_device_base = base, dp_fl = fl_new MAX_FREE_RANGES (length backing)\<rparr>"

definition dma_alloc :: "nat \<Rightarrow> nat \<Rightarrow> dma_pool \<Rightarrow> dma_panic + dma_buf option \<times> dma_pool" where
  "dma_alloc len align p =
     (if align = 0 then Inl ZeroAlignment
      else case fl_alloc len align (dp_fl p) of
        (None, fl) \<Rightarrow> Inr (None, p\<lparr>dp_fl := fl\<rparr>)
      | (Some start, fl) \<Rightarrow>
          Inr (Some \<lparr>buf_offset = start, buf_len = len, buf_device_addr = dp_device_base p + of_nat start\<rparr>,
            p\<lparr>dp_fl := fl\<rparr>))"

definition dma_free :: "dma_buf \<Rightarrow> dma_pool \<Rightarrow> dma_panic + dma_pool" where
  "dma_free buf p =
     (if buf_len buf = 0 then Inl ZeroLengthBuffer
      else if is_full (dp_fl p) then Inl FragmentationCap
      else case usize_add (buf_offset buf) (buf_len buf) of
        None \<Rightarrow> Inl OutsideArena
      | Some e \<Rightarrow>
          if \<not> e \<le> length (dp_mem p) then Inl OutsideArena
          else if \<not> is_allocated (buf_offset buf) (buf_len buf) (dp_fl p) then Inl DoubleFree
          else Inr (p\<lparr>dp_fl := fl_release (buf_offset buf) (buf_len buf) (dp_fl p)\<rparr>))"

definition range_ptr :: "dma_buf \<Rightarrow> nat \<Rightarrow> nat \<Rightarrow> dma_pool \<Rightarrow> dma_panic + nat" where
  "range_ptr buf offset len p =
     (case usize_add offset len of
        None \<Rightarrow> Inl SubRangeOverflow
      | Some sub_end \<Rightarrow>
          if \<not> sub_end \<le> buf_len buf then Inl SubRangeOutside
          else case usize_add (buf_offset buf) sub_end of
            None \<Rightarrow> Inl BufferRangeOverflow
          | Some abs_end \<Rightarrow>
              if \<not> abs_end \<le> length (dp_mem p) then Inl OutsideArena
              else Inr (buf_offset buf + offset))"

definition dma_bytes :: "dma_buf \<Rightarrow> dma_pool \<Rightarrow> dma_panic + u8 list" where
  "dma_bytes buf p =
     (case range_ptr buf 0 (buf_len buf) p of
        Inl e \<Rightarrow> Inl e
      | Inr ptr \<Rightarrow> Inr (take (buf_len buf) (drop ptr (dp_mem p))))"

definition slice_ok :: "nat \<Rightarrow> nat \<Rightarrow> nat \<Rightarrow> bool" where
  "slice_ok offset n len = (case usize_add offset n of None \<Rightarrow> False | Some e \<Rightarrow> e \<le> len)"

definition overwrite :: "nat \<Rightarrow> u8 list \<Rightarrow> u8 list \<Rightarrow> u8 list" where
  "overwrite i data xs = take i xs @ data @ drop (i + length data) xs"

definition dma_write :: "dma_buf \<Rightarrow> nat \<Rightarrow> u8 list \<Rightarrow> dma_pool \<Rightarrow> dma_panic + dma_pool" where
  "dma_write buf offset data p =
     (case range_ptr buf 0 (buf_len buf) p of
        Inl e \<Rightarrow> Inl e
      | Inr ptr \<Rightarrow>
          if \<not> slice_ok offset (length data) (buf_len buf) then Inl SliceIndex
          else Inr (p\<lparr>dp_mem := overwrite (ptr + offset) data (dp_mem p)\<rparr>))"

definition dma_read :: "dma_buf \<Rightarrow> nat \<Rightarrow> nat \<Rightarrow> dma_pool \<Rightarrow> dma_panic + u8 list" where
  "dma_read buf offset n p =
     (case dma_bytes buf p of
        Inl e \<Rightarrow> Inl e
      | Inr bs \<Rightarrow>
          if \<not> slice_ok offset n (length bs) then Inl SliceIndex
          else Inr (take n (drop offset bs)))"

definition dma_read_volatile :: "dma_buf \<Rightarrow> nat \<Rightarrow> nat \<Rightarrow> dma_pool \<Rightarrow> dma_panic + u8 list" where
  "dma_read_volatile buf offset n p =
     (case range_ptr buf offset n p of
        Inl e \<Rightarrow> Inl e
      | Inr base \<Rightarrow> Inr (map (\<lambda>i. dp_mem p ! (base + i)) [0 ..< n]))"

section \<open>A driver\<close>

text \<open>A driver's state: the pool, and the buffers it holds with the bytes it expects in them.\<close>

type_synonym driver = "dma_pool \<times> (dma_buf \<times> u8 list) list"

inductive pool_step :: "driver \<Rightarrow> driver \<Rightarrow> bool" where
  step_alloc: "dma_alloc len align p = Inr (Some b, p') \<Longrightarrow> dma_bytes b p' = Inr d \<Longrightarrow>
    pool_step (p, L) (p', (b, d) # L)"
| step_alloc_none: "dma_alloc len align p = Inr (None, p') \<Longrightarrow> pool_step (p, L) (p', L)"
| step_free: "dma_free b p = Inr p' \<Longrightarrow> pool_step (p, L1 @ (b, d) # L2) (p', L1 @ L2)"
| step_write: "dma_write b off data p = Inr p' \<Longrightarrow>
    pool_step (p, L1 @ (b, d) # L2) (p', L1 @ (b, overwrite off data d) # L2)"

definition extent_of :: "dma_buf \<times> u8 list \<Rightarrow> nat \<times> nat" where
  "extent_of x = (buf_offset (fst x), buf_len (fst x))"

definition pool_inv :: "driver \<Rightarrow> bool" where
  "pool_inv s \<longleftrightarrow>
     (case s of (p, L) \<Rightarrow>
        fl.ledger (dp_fl p) (map extent_of L) \<and>
        fl_len (dp_fl p) = length (dp_mem p) \<and> length (dp_mem p) < 2 ^ 64 \<and>
        (\<forall>(b, d) \<in> set L. dma_bytes b p = Inr d \<and>
           buf_device_addr b = dp_device_base p + of_nat (buf_offset b)))"

section \<open>Bounds\<close>

lemma usize_add_Some [simp]: "usize_add a b = Some c \<longleftrightarrow> a + b < 2 ^ 64 \<and> c = a + b"
  by (auto simp: usize_add_def)

lemma slice_ok_iff: "slice_ok off n len \<longleftrightarrow> off + n < 2 ^ 64 \<and> off + n \<le> len"
  by (auto simp: slice_ok_def usize_add_def)

definition in_pool :: "dma_buf \<Rightarrow> nat \<Rightarrow> dma_pool \<Rightarrow> bool" where
  "in_pool b n p \<longleftrightarrow> n < 2 ^ 64 \<and> n \<le> buf_len b \<and> buf_offset b + n < 2 ^ 64 \<and> buf_offset b + n \<le> length (dp_mem p)"

lemma range_ptr_Inr: "range_ptr b off n p = Inr i \<longleftrightarrow> in_pool b (off + n) p \<and> i = buf_offset b + off"
  by (auto simp: range_ptr_def in_pool_def usize_add_def split: if_splits)

lemma dma_bytes_Inr:
  "dma_bytes b p = Inr d \<longleftrightarrow> in_pool b (buf_len b) p \<and> d = take (buf_len b) (drop (buf_offset b) (dp_mem p))"
proof (cases "range_ptr b 0 (buf_len b) p")
  case (Inl e)
  then have "\<not> in_pool b (buf_len b) p" using range_ptr_Inr [of b 0 "buf_len b" p "buf_offset b"] by auto
  then show ?thesis using Inl by (simp add: dma_bytes_def)
next
  case (Inr i)
  then show ?thesis using range_ptr_Inr [of b 0 "buf_len b" p i] by (auto simp: dma_bytes_def)
qed

lemma dma_bytes_length: "dma_bytes b p = Inr d \<Longrightarrow> length d = buf_len b"
  by (auto simp: dma_bytes_Inr in_pool_def)

lemma dma_write_Inr:
  "dma_write b off data p = Inr p' \<longleftrightarrow>
     in_pool b (buf_len b) p \<and> slice_ok off (length data) (buf_len b) \<and>
     p' = p\<lparr>dp_mem := overwrite (buf_offset b + off) data (dp_mem p)\<rparr>"
proof (cases "range_ptr b 0 (buf_len b) p")
  case (Inl e)
  then have "\<not> in_pool b (buf_len b) p" using range_ptr_Inr [of b 0 "buf_len b" p "buf_offset b"] by auto
  then show ?thesis using Inl by (simp add: dma_write_def)
next
  case (Inr i)
  then show ?thesis using range_ptr_Inr [of b 0 "buf_len b" p i] by (auto simp: dma_write_def)
qed

lemma range_ptr_fl [simp]: "range_ptr b off n (p\<lparr>dp_fl := f\<rparr>) = range_ptr b off n p"
  by (auto simp: range_ptr_def usize_add_def)

lemma dma_bytes_fl [simp]: "dma_bytes b (p\<lparr>dp_fl := f\<rparr>) = dma_bytes b p"
  by (simp add: dma_bytes_def split: sum.split)

lemma in_pool_fl [simp]: "in_pool b n (p\<lparr>dp_fl := f\<rparr>) = in_pool b n p"
  by (simp add: in_pool_def)

lemma length_overwrite [simp]: "i + length data \<le> length xs \<Longrightarrow> length (overwrite i data xs) = length xs"
  by (simp add: overwrite_def)

lemma nth_overwrite:
  "i + length data \<le> length xs \<Longrightarrow> k < length xs \<Longrightarrow>
   overwrite i data xs ! k = (if i \<le> k \<and> k < i + length data then data ! (k - i) else xs ! k)"
  by (auto simp: overwrite_def nth_append)

text \<open>A write inside a window of the memory is a write at the shifted place of the window's bytes.\<close>

lemma window_overwrite_same:
  assumes "off + length data \<le> n" and "o' + n \<le> length xs"
  shows "take n (drop o' (overwrite (o' + off) data xs)) = overwrite off data (take n (drop o' xs))"
  by (rule nth_equalityI) (use assms in \<open>auto simp: nth_overwrite\<close>)

lemma window_overwrite_other:
  assumes "i + length data \<le> length xs" and "o' + n \<le> length xs"
    and "{i ..< i + length data} \<inter> {o' ..< o' + n} = {}"
  shows "take n (drop o' (overwrite i data xs)) = take n (drop o' xs)"
proof (rule nth_equalityI)
  fix k assume k: "k < length (take n (drop o' (overwrite i data xs)))"
  have "o' + k \<notin> {i ..< i + length data}" using assms(3) k assms(1,2) by auto
  then show "take n (drop o' (overwrite i data xs)) ! k = take n (drop o' xs) ! k"
    using k assms by (auto simp: nth_overwrite)
qed (use assms in simp)

lemma span_of_subset: "0 < n \<Longrightarrow> span_of (i, n) \<subseteq> {..< m} \<longleftrightarrow> i + n \<le> m"
  by (simp add: span_of_def lessThan_atLeast0)

section \<open>The driver's invariant\<close>

lemmas pool_inv_simp [simp] = pool_inv_def [of "(p, L)" for p L, unfolded prod.case]

lemma pool_inv_new: "length mem < 2 ^ 64 \<Longrightarrow> pool_inv (dma_new mem base, [])"
  using fl_new_ok [of MAX_FREE_RANGES "length mem"]
  by (simp add: dma_new_def fl.ledger_def MAX_FREE_RANGES_def)

lemma ledger_in_arena:
  assumes "pool_inv (p, L)" and "(b, d) \<in> set L"
  shows "0 < buf_len b" and "buf_offset b + buf_len b \<le> length (dp_mem p)"
    and "free_set (extents (dp_fl p)) \<inter> span_of (buf_offset b, buf_len b) = {}"
proof -
  have L: "fl.ledger (dp_fl p) (map extent_of L)" and len: "fl_len (dp_fl p) = length (dp_mem p)"
    using assms(1) by auto
  have m: "(buf_offset b, buf_len b) \<in> set (map extent_of L)" using assms(2) by (force simp: extent_of_def)
  have sub: "span_of (buf_offset b, buf_len b) \<subseteq> spans (map extent_of L)" using m by (auto simp: spans_def)
  have "\<forall>e \<in> set (map extent_of L). 0 < snd e" using L unfolding fl.ledger_def by blast
  from bspec [OF this m] show pos: "0 < buf_len b" by simp
  show "free_set (extents (dp_fl p)) \<inter> span_of (buf_offset b, buf_len b) = {}"
    using L sub unfolding fl.ledger_def by blast
  have "span_of (buf_offset b, buf_len b) \<subseteq> {..< length (dp_mem p)}"
  proof (rule order_trans [OF sub])
    show "spans (map extent_of L) \<subseteq> {..< length (dp_mem p)}"
      using L len unfolding fl.ledger_def by (metis Un_upper2)
  qed
  then show "buf_offset b + buf_len b \<le> length (dp_mem p)" using pos by (simp add: span_of_subset)
qed

lemma pool_inv_alloc:
  assumes "pool_inv (p, L)" and "dma_alloc len align p = Inr (r, p')"
  shows "case r of None \<Rightarrow> pool_inv (p', L) \<and> p' = p
    | Some b \<Rightarrow> buf_len b = len \<and> align dvd buf_offset b \<and> (\<exists>d. dma_bytes b p' = Inr d \<and> pool_inv (p', (b, d) # L))"
proof -
  have al: "0 < align" using assms(2) by (auto simp: dma_alloc_def split: if_splits)
  obtain s fl' where run: "fl_alloc len align (dp_fl p) = (s, fl')" by force
  have I: "fl.ledger (dp_fl p) (map extent_of L)" "fl_wf (dp_fl p)"
    using assms(1) by (auto simp: fl.ledger_def)
  note A = fl.ledger_alloc [OF I(1) al run] and B = fl_alloc_ok [OF I(2) al run]
  show ?thesis
  proof (cases s)
    case None
    then show ?thesis using assms al run A B by (auto simp: dma_alloc_def)
  next
    case (Some start)
    let ?b = "\<lparr>buf_offset = start, buf_len = len, buf_device_addr = dp_device_base p + of_nat start\<rparr>"
    have r: "r = Some ?b" "p' = p\<lparr>dp_fl := fl'\<rparr>" using assms(2) al run Some by (auto simp: dma_alloc_def)
    have "span_of (start, len) \<subseteq> {..< fl_len (dp_fl p)}" "0 < len"
      using fl.alloc_law [OF I(2) al run] fl.free_limit [OF I(2)] Some by auto
    then have "start + len \<le> length (dp_mem p)"
      using assms(1) by (simp add: span_of_subset)
    then have "in_pool ?b len p'" using assms(1) r by (simp add: in_pool_def)
    then have d: "dma_bytes ?b p' = Inr (take len (drop start (dp_mem p)))" by (simp add: dma_bytes_Inr r)
    show ?thesis using r d A B Some assms(1) by (auto simp: extent_of_def)
  qed
qed

lemma pool_inv_free:
  assumes "pool_inv (p, L1 @ (b, d) # L2)" and "dma_free b p = Inr p'"
  shows "pool_inv (p', L1 @ L2)"
proof -
  have f: "\<not> is_full (dp_fl p)" and p': "p' = p\<lparr>dp_fl := fl_release (buf_offset b) (buf_len b) (dp_fl p)\<rparr>"
    using assms(2) by (auto simp: dma_free_def split: if_splits option.splits)
  have I: "fl.ledger (dp_fl p) (map extent_of L1 @ (buf_offset b, buf_len b) # map extent_of L2)"
    using assms(1) by (simp add: extent_of_def)
  have w: "fl_wf (dp_fl p)" using I by (simp add: fl.ledger_def)
  note M = ledger_in_arena [OF assms(1), of b d, simplified]
  have "fl_len (fl_release (buf_offset b) (buf_len b) (dp_fl p)) = fl_len (dp_fl p)"
    using fl.release_law [OF w f M(1) _ M(3)] M(2) assms(1) by simp
  then show ?thesis using fl.ledger_release [OF I f] assms(1) by (auto simp: p')
qed

lemma pool_inv_write:
  assumes "pool_inv (p, L1 @ (b, d) # L2)" and "dma_write b off data p = Inr p'"
  shows "pool_inv (p', L1 @ (b, overwrite off data d) # L2)"
proof -
  have w: "in_pool b (buf_len b) p" "off + length data \<le> buf_len b"
    "p' = p\<lparr>dp_mem := overwrite (buf_offset b + off) data (dp_mem p)\<rparr>"
    using assms(2) by (auto simp: dma_write_Inr slice_ok_iff)
  have fit: "buf_offset b + off + length data \<le> length (dp_mem p)" using w by (simp add: in_pool_def)
  have in_p: "in_pool c n p' = in_pool c n p" for c n using fit w(3) by (simp add: in_pool_def)
  have same: "dma_bytes b p' = Inr (overwrite off data d)"
    using assms(1) w window_overwrite_same [of off data "buf_len b" "buf_offset b" "dp_mem p"]
    by (simp add: dma_bytes_Inr in_p in_pool_def)
  have other: "dma_bytes c p' = Inr e" if c: "(c, e) \<in> set L1 \<union> set L2" for c e
  proof -
    have e: "dma_bytes c p = Inr e" using c assms(1) by auto
    have "span_of (buf_offset b, buf_len b) \<inter> span_of (buf_offset c, buf_len c) = {}"
      using assms(1) c by (fastforce simp: fl.ledger_def sorted_wrt_append apart_def extent_of_def)
    then have "{buf_offset b + off ..< buf_offset b + off + length data} \<inter> {buf_offset c ..< buf_offset c + buf_len c} = {}"
      using w(2) by (auto simp: span_of_def)
    then show ?thesis
      using e fit w(3) window_overwrite_other [of "buf_offset b + off" data "dp_mem p" "buf_offset c" "buf_len c"]
      by (auto simp: dma_bytes_Inr in_p in_pool_def)
  qed
  have ext: "map extent_of (L1 @ (b, overwrite off data d) # L2) = map extent_of (L1 @ (b, d) # L2)"
    by (simp add: extent_of_def)
  have all: "\<forall>(c, e) \<in> set (L1 @ (b, overwrite off data d) # L2). dma_bytes c p' = Inr e \<and>
      buf_device_addr c = dp_device_base p + of_nat (buf_offset c)"
    using assms(1) same other by fastforce
  show ?thesis
    unfolding pool_inv_simp ext using assms(1) all fit w(3) by simp
qed

lemma pool_inv_step: "pool_step s s' \<Longrightarrow> pool_inv s \<Longrightarrow> pool_inv s'"
proof (induction rule: pool_step.induct)
  case (step_alloc len align p b p' d L)
  then show ?case using pool_inv_alloc [OF step_alloc(3,1)] by auto
next
  case (step_alloc_none len align p p' L)
  then show ?case using pool_inv_alloc [OF step_alloc_none(2,1)] by auto
qed (blast intro: pool_inv_free pool_inv_write)+

lemma pool_inv_reachable:
  "pool_step\<^sup>*\<^sup>* s s' \<Longrightarrow> pool_inv s \<Longrightarrow> pool_inv s'"
  by (induction rule: rtranclp_induct) (auto intro: pool_inv_step)

section \<open>What the pool promises\<close>

lemma live_disjoint:
  assumes "pool_inv (p, L)" and "i < j" and "j < length L"
  shows "span_of (extent_of (L ! i)) \<inter> span_of (extent_of (L ! j)) = {}"
proof -
  have "sorted_wrt apart (map extent_of L)" using assms(1) by (simp add: fl.ledger_def)
  then have "apart (map extent_of L ! i) (map extent_of L ! j)"
    using assms(2,3) by (simp add: sorted_wrt_iff_nth_less)
  then show ?thesis using assms(2,3) by (simp add: apart_def)
qed

text \<open>
  C27: isolation of buffers. Whatever sequence of allocations, writes and frees a driver
  performs on a new pool, two live buffers never share a byte, every live buffer reads back
  exactly what was last written to it, its device address is the device base plus its
  offset, and the free list and the live buffers account for every byte of the backing.
\<close>

theorem dma_buffers_isolated:
  assumes "length mem < 2 ^ 64" and "pool_step\<^sup>*\<^sup>* (dma_new mem base, []) (p, L)"
  shows "(\<forall>i j. i < j \<and> j < length L \<longrightarrow> span_of (extent_of (L ! i)) \<inter> span_of (extent_of (L ! j)) = {}) \<and>
    (\<forall>(b, d) \<in> set L. dma_bytes b p = Inr d \<and> buf_device_addr b = dp_device_base p + of_nat (buf_offset b)) \<and>
    free_set (extents (dp_fl p)) \<inter> spans (map extent_of L) = {} \<and>
    free_set (extents (dp_fl p)) \<union> spans (map extent_of L) = {..< length (dp_mem p)}"
proof -
  have I: "pool_inv (p, L)" using pool_inv_reachable [OF assms(2) pool_inv_new [OF assms(1)]] .
  then show ?thesis using live_disjoint [OF I] by (auto simp: fl.ledger_def)
qed

text \<open>
  C28: frees. In every state of a driver that satisfies the invariant, freeing a live buffer panics only at
  the fragmentation cap; once freed, freeing the same buffer again panics (as a double free
  or at the cap), so a stale buffer never corrupts the list.
\<close>

theorem dma_free_once:
  assumes "pool_inv (p, L1 @ (b, d) # L2)"
  shows "case dma_free b p of
      Inl e \<Rightarrow> e = FragmentationCap \<and> is_full (dp_fl p)
    | Inr p' \<Rightarrow> pool_inv (p', L1 @ L2) \<and> dp_mem p' = dp_mem p \<and>
        (dma_free b p' = Inl DoubleFree \<or> dma_free b p' = Inl FragmentationCap)"
proof -
  note M = ledger_in_arena [OF assms, of b d, simplified]
  have w: "fl_wf (dp_fl p)" and len: "fl_len (dp_fl p) = length (dp_mem p)" "length (dp_mem p) < 2 ^ 64"
    using assms by (simp_all add: fl.ledger_def)
  have add: "buf_offset b + buf_len b < 2 ^ 64" using M(2) len by simp
  have al: "is_allocated (buf_offset b) (buf_len b) (dp_fl p)"
    using is_allocated_iff [OF w M(1)] M(3) by (simp add: span_of_def)
  show ?thesis
  proof (cases "is_full (dp_fl p)")
    case True
    then show ?thesis using M(1) by (simp add: dma_free_def)
  next
    case False
    let ?p = "p\<lparr>dp_fl := fl_release (buf_offset b) (buf_len b) (dp_fl p)\<rparr>"
    have run: "dma_free b p = Inr ?p" using False M(1,2) add al by (simp add: dma_free_def usize_add_def)
    note R = fl.release_law [OF w False M(1) _ M(3), unfolded len(1), OF M(2)]
    have "\<not> is_allocated (buf_offset b) (buf_len b) (dp_fl ?p)"
      using is_allocated_iff [of "dp_fl ?p", OF _ M(1)] R M(1) by (auto simp: span_of_def)
    then have "dma_free b ?p = Inl DoubleFree \<or> dma_free b ?p = Inl FragmentationCap"
      using M(1,2) add by (simp add: dma_free_def usize_add_def)
    then show ?thesis using run pool_inv_free [OF assms run] by simp
  qed
qed

text \<open>
  C29: access. For every buffer, also one carved from another pool, an access either
  panics or touches only bytes of the backing that are inside the buffer; and where the
  plain read succeeds the volatile read returns the same bytes.
\<close>

theorem dma_access_bounded:
  "(range_ptr b off n p = Inr i \<longleftrightarrow>
      off + n < 2 ^ 64 \<and> off + n \<le> buf_len b \<and> buf_offset b + (off + n) < 2 ^ 64 \<and>
      buf_offset b + (off + n) \<le> length (dp_mem p) \<and> i = buf_offset b + off) \<and>
   (dma_read b off n p = Inr d \<longleftrightarrow>
      dma_read_volatile b off n p = Inr d \<and> (\<exists>bs. dma_bytes b p = Inr bs))"
proof (intro conjI iffI)
  assume "range_ptr b off n p = Inr i"
  then show "off + n < 2 ^ 64" "off + n \<le> buf_len b" "buf_offset b + (off + n) < 2 ^ 64"
    "buf_offset b + (off + n) \<le> length (dp_mem p)" "i = buf_offset b + off"
    by (simp_all add: range_ptr_Inr in_pool_def)
next
  assume r: "dma_read b off n p = Inr d"
  then obtain bs where bs: "dma_bytes b p = Inr bs" "off + n < 2 ^ 64" "off + n \<le> length bs" "d = take n (drop off bs)"
    by (auto simp: dma_read_def slice_ok_iff split: sum.splits if_splits)
  then have "range_ptr b off n p = Inr (buf_offset b + off)" and
    "take n (drop off bs) = map (\<lambda>i. dp_mem p ! (buf_offset b + off + i)) [0 ..< n]"
    by (auto simp: range_ptr_Inr dma_bytes_Inr in_pool_def add.assoc intro!: nth_equalityI)
  then show "dma_read_volatile b off n p = Inr d" by (simp add: dma_read_volatile_def bs)
  show "\<exists>bs. dma_bytes b p = Inr bs" using bs by blast
next
  assume v: "dma_read_volatile b off n p = Inr d \<and> (\<exists>bs. dma_bytes b p = Inr bs)"
  then obtain bs where bs: "dma_bytes b p = Inr bs" by blast
  have r: "range_ptr b off n p = Inr (buf_offset b + off)"
    using v by (auto simp: dma_read_volatile_def range_ptr_Inr split: sum.splits)
  then have "slice_ok off n (length bs)"
    using bs dma_bytes_length [OF bs] by (simp add: range_ptr_Inr in_pool_def slice_ok_iff)
  moreover have "take n (drop off bs) = map (\<lambda>i. dp_mem p ! (buf_offset b + off + i)) [0 ..< n]"
    using bs r by (auto simp: range_ptr_Inr dma_bytes_Inr in_pool_def add.assoc intro!: nth_equalityI)
  ultimately show "dma_read b off n p = Inr d" using v bs r by (simp add: dma_read_def dma_read_volatile_def)
qed (simp add: range_ptr_Inr in_pool_def)

text \<open>The witnesses: a pool of 128 bytes and one buffer of 16.\<close>

definition small_pool :: dma_pool where
  "small_pool = dma_new (replicate 128 0) 0x1000"

definition small_buf :: dma_buf where
  "small_buf = \<lparr>buf_offset = 0, buf_len = 16, buf_device_addr = 0x1000\<rparr>"

lemma small_alloc:
  obtains p' where "dma_alloc 16 8 small_pool = Inr (Some small_buf, p')" and "dp_mem p' = replicate 128 0"
proof -
  have "fst (fl_alloc 16 8 (fl_new 64 128)) = Some 0" by code_simp
  then show ?thesis
    using that by (cases "fl_alloc 16 8 (fl_new 64 128)")
      (simp add: dma_alloc_def small_pool_def small_buf_def dma_new_def MAX_FREE_RANGES_def)
qed

theorem dma_buffers_isolated_witness:
  "\<exists>p. pool_step\<^sup>*\<^sup>* (small_pool, []) (p, [(small_buf, replicate 16 0)]) \<and>
     free_set (extents (dp_fl p)) \<inter> {0 ..< 16} = {}"
proof -
  obtain p' where run: "dma_alloc 16 8 small_pool = Inr (Some small_buf, p')" and m: "dp_mem p' = replicate 128 0"
    by (rule small_alloc)
  have "dma_bytes small_buf p' = Inr (replicate 16 0)"
    using m by (simp add: dma_bytes_Inr in_pool_def small_buf_def)
  then have s: "pool_step\<^sup>*\<^sup>* (small_pool, []) (p', [(small_buf, replicate 16 0)])"
    using step_alloc [OF run] by blast
  then show ?thesis
    using dma_buffers_isolated [OF _ s [unfolded small_pool_def]]
    by (auto simp: extent_of_def small_buf_def span_of_def)
qed

theorem dma_free_once_witness:
  "\<exists>p'. pool_inv (p', [(small_buf, replicate 16 0)]) \<and>
     (case dma_free small_buf p' of Inl e \<Rightarrow> e = FragmentationCap | Inr p'' \<Rightarrow> pool_inv (p'', []))"
proof -
  obtain p' where run: "dma_alloc 16 8 small_pool = Inr (Some small_buf, p')" and m: "dp_mem p' = replicate 128 0"
    by (rule small_alloc)
  have "pool_inv (small_pool, [])" unfolding small_pool_def by (rule pool_inv_new) simp
  from pool_inv_alloc [OF this run] have I: "pool_inv (p', [(small_buf, replicate 16 0)])"
    using m by (auto simp: dma_bytes_Inr small_buf_def)
  have "case dma_free small_buf p' of Inl e \<Rightarrow> e = FragmentationCap | Inr p'' \<Rightarrow> pool_inv (p'', [])"
    using dma_free_once [of p' "[]" small_buf "replicate 16 0" "[]"] I
    by (auto simp del: pool_inv_simp split: sum.splits)
  then show ?thesis using I by blast
qed

end
