(* ===== verification/Spec2Isabelle.thy ===== *)
theory Spec2Isabelle
  imports Runexamples Dmapool
begin

text \<open>
  A verification library for the Eunomia capability kernel (\<open>src/kcore\<close>, \<open>src/kernel\<close>).
\<close>

end
